(* ===== verification/Prelude.thy ===== *)
theory Prelude
  imports Main "HOL-Library.Word" "HOL-Library.Finite_Map" "HOL-Library.FSet"
    "HOL-Library.List_Lexorder"
begin

section \<open>Shared types, byte strings and library lemmas\<close>

text \<open>
  The vocabulary every component uses: machine types, byte strings (\<open>Vec<u8>\<close>), the pieces of
  Rust's standard library the source calls (ASCII classification, \<open>mpsc\<close> channels, the system
  clock) and the generic lemmas the component proofs share.

  Integers: \<open>u8\<close>, \<open>u32\<close> and \<open>u64\<close> are words, whose arithmetic wraps as release-built Rust does;
  \<open>i32\<close> and \<open>i64\<close> are \<open>int\<close> with the wrap or the range check written out; \<open>usize\<close> is \<open>nat\<close>,
  with the modulus written out where an overflow can be reached.
\<close>

type_synonym u8 = "8 word"
type_synonym u32 = "32 word"
type_synonym u64 = "64 word"
type_synonym bytes = "u8 list"

text \<open>\<open>mio::Token\<close> wraps a \<open>usize\<close>; a TCP stream is a handle.\<close>

type_synonym token = nat
type_synonym stream = nat

text \<open>Simp rules that evaluate a concrete input (literals, parsers, printers).\<close>
named_theorems evaluates

text \<open>Unfolding rules of the operations of a component.\<close>
named_theorems operations

subsection \<open>Byte strings\<close>

definition bstr :: "string \<Rightarrow> bytes" where
  "bstr s = map of_char s"

definition crlf :: bytes where
  "crlf = [13, 10]"

definition to_ascii_lowercase :: "u8 \<Rightarrow> u8" where
  "to_ascii_lowercase b = (if 65 \<le> b \<and> b \<le> 90 then b + 32 else b)"

definition eq_ignore_ascii_case :: "bytes \<Rightarrow> bytes \<Rightarrow> bool" where
  "eq_ignore_ascii_case a b = (map to_ascii_lowercase a = map to_ascii_lowercase b)"

definition is_ascii_digit :: "u8 \<Rightarrow> bool" where
  "is_ascii_digit b = (48 \<le> b \<and> b \<le> 57)"

lemmas [evaluates] = bstr_def crlf_def to_ascii_lowercase_def eq_ignore_ascii_case_def
  is_ascii_digit_def

lemma eq_ignore_ascii_case_refl [simp]: "eq_ignore_ascii_case a a"
  by (simp add: eq_ignore_ascii_case_def)

lemma eq_ignore_ascii_case_sym: "eq_ignore_ascii_case a b = eq_ignore_ascii_case b a"
  by (auto simp: eq_ignore_ascii_case_def)

lemma eq_ignore_ascii_case_trans:
  "eq_ignore_ascii_case a b \<Longrightarrow> eq_ignore_ascii_case b c \<Longrightarrow> eq_ignore_ascii_case a c"
  by (simp add: eq_ignore_ascii_case_def)

lemma length_crlf [simp]: "length crlf = 2"
  by (simp add: crlf_def)

lemma length_bstr [simp]: "length (bstr s) = length s"
  by (simp add: bstr_def)

text \<open>Byte-string literals are compared as strings.\<close>

lemma bstr_inject: "bstr s = bstr t \<longleftrightarrow> s = t"
proof -
  have "unat (of_char c :: u8) = of_char c" for c
  proof -
    have "unat (of_char c :: u8) = unat (of_nat (of_char c) :: u8)" by (simp only: of_nat_of_char)
    also have "\<dots> = of_char c" using nat_of_char_less_256[of c] by (simp only: unat_of_nat) simp
    finally show ?thesis .
  qed
  then have "inj (of_char :: char \<Rightarrow> u8)" by (intro injI) (metis of_char_eq_iff)
  then show ?thesis by (simp add: bstr_def inj_map_eq_map)
qed

subsection \<open>Signed machine integers written over \<open>int\<close>\<close>

definition wrap_i32 :: "int \<Rightarrow> int" where
  "wrap_i32 x = (x + 2 ^ 31) mod 2 ^ 32 - 2 ^ 31"

definition wrap_i64 :: "int \<Rightarrow> int" where
  "wrap_i64 x = (x + 2 ^ 63) mod 2 ^ 64 - 2 ^ 63"

definition is_i32 :: "int \<Rightarrow> bool" where
  "is_i32 x = (- (2 ^ 31) \<le> x \<and> x < 2 ^ 31)"

definition is_i64 :: "int \<Rightarrow> bool" where
  "is_i64 x = (- (2 ^ 63) \<le> x \<and> x < 2 ^ 63)"

lemma wrap_i32_id [simp]: "is_i32 x \<Longrightarrow> wrap_i32 x = x"
  by (simp add: is_i32_def wrap_i32_def)

lemma wrap_i32_range [simp]: "is_i32 (wrap_i32 x)"
  by (simp add: is_i32_def wrap_i32_def)

lemma wrap_i64_id [simp]: "is_i64 x \<Longrightarrow> wrap_i64 x = x"
  by (simp add: is_i64_def wrap_i64_def)

subsection \<open>Channels\<close>

text \<open>
  \<open>std::sync::mpsc\<close>: an unbounded queue. \<open>send\<close> fails exactly when the receiver is gone, and then
  leaves everything as it was; the senders of this program print a line and go on.
\<close>

record 'a channel =
  receiver_alive :: bool
  queue :: "'a list"

definition send :: "'a channel \<Rightarrow> 'a \<Rightarrow> bool \<times> 'a channel" where
  "send ch x = (if receiver_alive ch then (True, ch\<lparr>queue := queue ch @ [x]\<rparr>) else (False, ch))"

lemma send_alive [simp]:
  "receiver_alive ch \<Longrightarrow> send ch x = (True, ch\<lparr>queue := queue ch @ [x]\<rparr>)"
  by (simp add: send_def)

lemma send_dead [simp]: "\<not> receiver_alive ch \<Longrightarrow> send ch x = (False, ch)"
  by (simp add: send_def)

lemma receiver_alive_send [simp]: "receiver_alive (snd (send ch x)) = receiver_alive ch"
  by (simp add: send_def)

subsection \<open>The system clock\<close>

text \<open>
  \<open>SystemTime\<close> as signed nanoseconds since the epoch. \<open>as_secs\<close> is the chain
  \<open>duration_since(UNIX_EPOCH).map(as_secs).unwrap_or(0)\<close> every handler uses.
\<close>

type_synonym system_time = int

definition as_secs :: "system_time \<Rightarrow> u64" where
  "as_secs t = (if t < 0 then 0 else word_of_int (t div 1000000000))"

subsection \<open>Finite maps\<close>

lemma fmupd_same [simp]: "fmlookup m k = Some v \<Longrightarrow> fmupd k v m = m"
  by (rule fmap_ext) auto

lemma fmdrop_absent [simp]: "fmlookup m k = None \<Longrightarrow> fmdrop k m = m"
  by (rule fmap_ext) auto

lemma fmdrop_fmupd_same [simp]: "fmdrop k (fmupd k v m) = fmdrop k m"
  by (rule fmap_ext) auto

lemma fmupd_fmdrop [simp]: "fmupd k v (fmdrop k m) = fmupd k v m"
  by (rule fmap_ext) auto

lemma fmupd_twice [simp]: "fmupd k v (fmupd k w m) = fmupd k v m"
  by (rule fmap_ext) auto

lemma fcard_fmdom_fmupd:
  "fcard (fmdom (fmupd k v m)) = (if fmlookup m k = None then Suc else id) (fcard (fmdom m))"
  by (auto simp: fcard_finsert_if fmdom_notD fmdom_notI dest: fmdomI)

subsection \<open>Iteration over hash tables\<close>

text \<open>
  \<open>std::collections::HashMap\<close> and \<open>HashSet\<close> iterate in an unspecified order. Code that iterates takes
  the order as a parameter: an enumeration of the keys, of which the standard library promises only
  that every element is visited exactly once.
\<close>

locale hash_iteration =
  fixes iter :: "'a fset \<Rightarrow> 'a list"
  assumes iter_set: "set (iter S) = fset S"
    and iter_distinct: "distinct (iter S)"
begin

lemma length_iter: "length (iter S) = fcard S"
  using distinct_card[OF iter_distinct[of S]] by (simp add: iter_set fcard.rep_eq)

lemma iter_empty: "iter S = [] \<longleftrightarrow> S = {||}"
  by (metis bot_fset.rep_eq fset_inject iter_set set_empty)

end

interpretation sorted_iteration: hash_iteration "sorted_list_of_fset :: 'a::linorder fset \<Rightarrow> 'a list"
  by unfold_locales (simp_all add: sorted_list_of_fset.rep_eq)

end
