(* ===== verification/Numerals.thy ===== *)
theory Numerals
  imports Prelude
begin

section \<open>Parsing and printing numbers (\<open>src/wish/util.rs\<close>, crate \<open>itoa\<close>)\<close>

text \<open>
  \<open>find_crlf\<close> and the four checked decimal parsers of \<open>util.rs\<close>, with their full characterisation
  over the value of a digit string, and the interface of the third-party integer printer \<open>itoa\<close>:
  a parameter of the model whose documented behaviour is the locale \<open>decimal_printer\<close>.
\<close>

subsection \<open>The error type of the connection layer\<close>

datatype sin = Utf8Error | ParseError | Disconnected | Blasphemy

subsection \<open>Line ends\<close>

text \<open>\<open>buffer.windows(2).position(|w| w == b"\r\n")\<close>: the first index where CR LF stands.\<close>

fun find_crlf :: "bytes \<Rightarrow> nat option" where
  "find_crlf (a # b # rest) =
     (if a = 13 \<and> b = 10 then Some 0 else map_option Suc (find_crlf (b # rest)))"
| "find_crlf _ = None"

lemma find_crlf_SomeD:
  "find_crlf w = Some i \<Longrightarrow>
     i + 2 \<le> length w \<and> w = take i w @ crlf @ drop (i + 2) w \<and> (\<forall>j < i. \<not> (w ! j = 13 \<and> w ! Suc j = 10))"
proof (induction w arbitrary: i rule: find_crlf.induct)
  case (1 a b rest)
  show ?case
  proof (cases "a = 13 \<and> b = 10")
    case True
    with "1.prems" show ?thesis by (simp add: crlf_def)
  next
    case False
    with "1.prems" obtain j where j: "find_crlf (b # rest) = Some j" "i = Suc j" by auto
    from "1.IH"[OF False j(1)] j(2) False show ?thesis
      by (auto simp: nth_Cons split: nat.splits)
  qed
qed simp_all

lemma find_crlf_append:
  "13 \<notin> set line \<Longrightarrow> find_crlf (line @ 13 # 10 # rest) = Some (length line)"
proof (induction line)
  case Nil
  then show ?case by simp
next
  case (Cons a line)
  then show ?case by (cases line) auto
qed

lemma find_crlf_prefix_None:
  "13 \<notin> set line \<Longrightarrow> find_crlf line = None \<and> find_crlf (line @ [13]) = None"
proof (induction line)
  case Nil
  then show ?case by simp
next
  case (Cons a line)
  then show ?case by (cases line) auto
qed

subsection \<open>The checked parsers\<close>

text \<open>
  The loops of the four parsers are the same up to the integer type: \<open>checked_mul(10)\<close>, then
  \<open>checked_add\<close> of the digit, each \<open>None\<close> outside the range of the type.
\<close>

datatype int_type = I32 | I64 | U64 | Usize

fun type_min :: "int_type \<Rightarrow> int" where
  "type_min I32 = - (2 ^ 31)"
| "type_min I64 = - (2 ^ 63)"
| "type_min U64 = 0"
| "type_min Usize = 0"

fun type_max :: "int_type \<Rightarrow> int" where
  "type_max I32 = 2 ^ 31 - 1"
| "type_max I64 = 2 ^ 63 - 1"
| "type_max U64 = 2 ^ 64 - 1"
| "type_max Usize = 2 ^ 64 - 1"

definition in_type :: "int_type \<Rightarrow> int \<Rightarrow> int option" where
  "in_type ty x = (if type_min ty \<le> x \<and> x \<le> type_max ty then Some x else None)"

definition checked_add :: "int_type \<Rightarrow> int \<Rightarrow> int \<Rightarrow> int option" where
  "checked_add ty a b = in_type ty (a + b)"

definition checked_mul :: "int_type \<Rightarrow> int \<Rightarrow> int \<Rightarrow> int option" where
  "checked_mul ty a b = in_type ty (a * b)"

definition checked_neg :: "int_type \<Rightarrow> int \<Rightarrow> int option" where
  "checked_neg ty a = in_type ty (- a)"

fun digit_loop :: "int_type \<Rightarrow> int \<Rightarrow> bytes \<Rightarrow> sin + int" where
  "digit_loop ty result [] = Inr result"
| "digit_loop ty result (b # bs) =
     (if \<not> is_ascii_digit b then Inl ParseError
      else (case Option.bind (checked_mul ty result 10) (\<lambda>r. checked_add ty r (uint (b - 48))) of
              None \<Rightarrow> Inl ParseError
            | Some r \<Rightarrow> digit_loop ty r bs))"

definition bytes_to_signed :: "int_type \<Rightarrow> bytes \<Rightarrow> sin + int" where
  "bytes_to_signed ty bs =
     (if bs = [] then Inl ParseError
      else let (is_neg, start) = (if bs ! 0 = 45 then (True, 1) else (False, 0)) in
        if length (drop start bs) = 0 then Inl ParseError
        else (case digit_loop ty 0 (drop start bs) of
                Inl e \<Rightarrow> Inl e
              | Inr result \<Rightarrow>
                  if is_neg
                  then (case checked_neg ty result of None \<Rightarrow> Inl ParseError | Some r \<Rightarrow> Inr r)
                  else Inr result))"

definition bytes_to_i32 :: "bytes \<Rightarrow> sin + int" where
  "bytes_to_i32 bs = bytes_to_signed I32 bs"

definition bytes_to_i64 :: "bytes \<Rightarrow> sin + int" where
  "bytes_to_i64 bs = bytes_to_signed I64 bs"

definition bytes_to_u64 :: "bytes \<Rightarrow> sin + u64" where
  "bytes_to_u64 bs =
     (if bs = [] then Inl ParseError
      else map_sum id word_of_int (digit_loop U64 0 bs))"

definition bytes_to_usize :: "bytes \<Rightarrow> sin + nat" where
  "bytes_to_usize bs =
     (if bs = [] then Inl ParseError
      else map_sum id nat (digit_loop Usize 0 bs))"

lemmas [evaluates] = bytes_to_i32_def bytes_to_i64_def bytes_to_signed_def bytes_to_u64_def
  bytes_to_usize_def in_type_def checked_add_def checked_mul_def checked_neg_def

subsection \<open>What the parsers compute\<close>

definition digits_value :: "bytes \<Rightarrow> int" where
  "digits_value bs = foldl (\<lambda>v b. 10 * v + uint (b - 48)) 0 bs"

definition all_digits :: "bytes \<Rightarrow> bool" where
  "all_digits bs = list_all is_ascii_digit bs"

lemma digit_uint:
  assumes "is_ascii_digit b"
  shows "uint (b - 48) = uint b - 48" and "48 \<le> uint b" and "uint b \<le> 57"
proof -
  from assms show *: "48 \<le> uint b" "uint b \<le> 57"
    by (simp_all add: is_ascii_digit_def word_le_def)
  then show "uint (b - 48) = uint b - 48"
    by (simp add: uint_word_ariths)
qed

lemma digit_range:
  assumes "is_ascii_digit b"
  shows "0 \<le> uint (b - 48) \<and> uint (b - 48) \<le> 9"
  using digit_uint[OF assms] by simp

lemma foldl_digits_ge:
  "all_digits bs \<Longrightarrow> 0 \<le> v \<Longrightarrow> v \<le> foldl (\<lambda>v b. 10 * v + uint (b - 48)) v bs"
proof (induction bs arbitrary: v)
  case Nil
  then show ?case by simp
next
  case (Cons b bs)
  from Cons.prems have "is_ascii_digit b" by (simp add: all_digits_def)
  from digit_range[OF this] have d: "0 \<le> uint (b - 48)" by simp
  with Cons.prems have "v \<le> 10 * v + uint (b - 48)" "0 \<le> 10 * v + uint (b - 48)" by simp_all
  moreover from this Cons.prems have
    "10 * v + uint (b - 48) \<le> foldl (\<lambda>v b. 10 * v + uint (b - 48)) (10 * v + uint (b - 48)) bs"
    by (intro Cons.IH) (simp_all add: all_digits_def)
  ultimately show ?case by (simp only: foldl.simps)
qed

lemma digit_loop_correct:
  assumes "0 \<le> v" and "v \<le> type_max ty"
  shows "digit_loop ty v bs =
    (let w = foldl (\<lambda>v b. 10 * v + uint (b - 48)) v bs in
       if all_digits bs \<and> w \<le> type_max ty then Inr w else Inl ParseError)"
  using assms
proof (induction bs arbitrary: v)
  case Nil
  then show ?case by (simp add: all_digits_def)
next
  case (Cons b bs)
  show ?case
  proof (cases "is_ascii_digit b")
    case False
    then show ?thesis by (simp add: all_digits_def)
  next
    case True
    let ?w = "10 * v + uint (b - 48)"
    have lo: "type_min ty \<le> 0" by (cases ty) simp_all
    from digit_range[OF True] have d: "0 \<le> uint (b - 48)" by simp
    with Cons.prems have w0: "0 \<le> ?w" by simp
    show ?thesis
    proof (cases "?w \<le> type_max ty")
      case fits: True
      with d lo Cons.prems have
        "v * 10 \<le> type_max ty" "type_min ty \<le> v * 10" "type_min ty \<le> v * 10 + uint (b - 48)"
        by linarith+
      with fits have step:
        "Option.bind (checked_mul ty v 10) (\<lambda>r. checked_add ty r (uint (b - 48))) = Some ?w"
        by (simp add: checked_mul_def checked_add_def in_type_def mult.commute)
      with True Cons.IH[OF w0 fits] show ?thesis
        by (simp add: all_digits_def)
    next
      case big: False
      then have step:
        "Option.bind (checked_mul ty v 10) (\<lambda>r. checked_add ty r (uint (b - 48))) = None"
        by (auto simp: checked_mul_def checked_add_def in_type_def algebra_simps bind_eq_None_conv)
      have "all_digits bs \<Longrightarrow> \<not> foldl (\<lambda>v b. 10 * v + uint (b - 48)) ?w bs \<le> type_max ty"
        using foldl_digits_ge[of bs ?w] w0 big by force
      with True step show ?thesis by (auto simp: all_digits_def Let_def)
    qed
  qed
qed

lemma digit_loop_0:
  "digit_loop ty 0 bs =
     (if all_digits bs \<and> digits_value bs \<le> type_max ty then Inr (digits_value bs)
      else Inl ParseError)"
proof -
  have "0 \<le> type_max ty" by (cases ty) simp_all
  then show ?thesis by (simp add: digit_loop_correct digits_value_def Let_def)
qed

lemma digits_value_nonneg: "all_digits bs \<Longrightarrow> 0 \<le> digits_value bs"
  using foldl_digits_ge[of bs 0] by (simp add: digits_value_def)

lemma digits_value_Nil [simp]: "digits_value [] = 0"
  by (simp add: digits_value_def)

lemma all_digits_Cons: "all_digits (b # bs) = (is_ascii_digit b \<and> all_digits bs)"
  by (simp add: all_digits_def)

lemma all_digits_append [simp]: "all_digits (a @ b) = (all_digits a \<and> all_digits b)"
  by (simp add: all_digits_def)

lemma digits_value_snoc: "digits_value (bs @ [b]) = 10 * digits_value bs + uint (b - 48)"
  by (simp add: digits_value_def)

lemma not_digit [simp]: "\<not> is_ascii_digit 45" "\<not> is_ascii_digit 13" "\<not> is_ascii_digit 10"
  by (simp_all add: is_ascii_digit_def)

lemma all_digits_no_cr: "all_digits bs \<Longrightarrow> 13 \<notin> set bs"
  by (auto simp: all_digits_def list_all_iff dest!: bspec)

lemma bytes_to_usize_iff:
  "bytes_to_usize bs = Inr n \<longleftrightarrow>
     bs \<noteq> [] \<and> all_digits bs \<and> digits_value bs = int n \<and> n < 2 ^ 64"
  using digits_value_nonneg[of bs]
  by (auto simp: bytes_to_usize_def digit_loop_0)

lemma bytes_to_u64_iff:
  "bytes_to_u64 bs = Inr n \<longleftrightarrow> bs \<noteq> [] \<and> all_digits bs \<and> digits_value bs = uint n"
  using digits_value_nonneg[of bs] uint_bounded[of n]
  by (auto simp: bytes_to_u64_def digit_loop_0 uint_word_of_int_eq take_bit_eq_mod)

text \<open>
  A signed parser accepts an optional minus sign and a non-empty digit string whose value, before
  the sign is applied, is at most the type's maximum.
\<close>

definition signed_value :: "bytes \<Rightarrow> int" where
  "signed_value bs =
     (case bs of [] \<Rightarrow> 0 | b # ds \<Rightarrow> if b = 45 then - digits_value ds else digits_value bs)"

definition signed_syntax :: "bytes \<Rightarrow> bool" where
  "signed_syntax bs =
     (case bs of [] \<Rightarrow> False | b # ds \<Rightarrow> if b = 45 then ds \<noteq> [] \<and> all_digits ds else all_digits bs)"

lemma bytes_to_signed_iff:
  assumes "ty \<in> {I32, I64}"
  shows "bytes_to_signed ty bs = Inr n \<longleftrightarrow>
    signed_syntax bs \<and> signed_value bs = n \<and> \<bar>n\<bar> \<le> type_max ty"
proof (cases bs)
  case Nil
  then show ?thesis by (simp add: bytes_to_signed_def signed_syntax_def)
next
  case (Cons b ds)
  from assms have min: "type_min ty = - type_max ty - 1" by auto
  show ?thesis
  proof (cases "b = 45")
    case True
    with Cons min show ?thesis using digits_value_nonneg[of ds]
      by (auto simp: bytes_to_signed_def signed_syntax_def signed_value_def digit_loop_0
          checked_neg_def in_type_def)
  next
    case False
    with Cons have "bytes_to_signed ty bs = digit_loop ty 0 bs"
      by (simp add: bytes_to_signed_def del: digit_loop.simps split: sum.split)
    moreover from False Cons have "signed_syntax bs = all_digits bs" "signed_value bs = digits_value bs"
      by (simp_all add: signed_syntax_def signed_value_def)
    ultimately show ?thesis using digits_value_nonneg[of bs] by (auto simp: digit_loop_0)
  qed
qed

lemma bytes_to_signed_error:
  "bytes_to_signed ty bs = Inl e \<Longrightarrow> e = ParseError"
  by (auto simp: bytes_to_signed_def digit_loop_0 Let_def split: if_splits option.splits sum.splits)

subsection \<open>The integer printer\<close>

text \<open>
  \<open>itoa::Buffer::format\<close> is third-party code: the model takes it as a parameter over \<open>int\<close> (the
  crate is generic over the integer type). What the program relies on is the documented output: a
  non-negative integer is a non-empty string of ASCII digits with that value, and a negative one is
  a minus sign in front of the digits of its absolute value.
\<close>

locale decimal_printer =
  fixes itoa :: "int \<Rightarrow> bytes"
  assumes itoa_digits: "0 \<le> n \<Longrightarrow> itoa n \<noteq> [] \<and> all_digits (itoa n)"
    and itoa_value: "0 \<le> n \<Longrightarrow> digits_value (itoa n) = n"
    and itoa_negative: "n < 0 \<Longrightarrow> itoa n = 45 # itoa (- n)"
begin

lemma itoa_nonneg_head: "0 \<le> n \<Longrightarrow> \<exists>b ds. itoa n = b # ds \<and> b \<noteq> 45"
  using itoa_digits[of n] by (cases "itoa n") (auto simp: all_digits_Cons)

lemma signed_itoa: "signed_syntax (itoa n) \<and> signed_value (itoa n) = n"
proof (cases "n < 0")
  case True
  with itoa_digits[of "- n"] itoa_value[of "- n"] show ?thesis
    by (simp add: itoa_negative signed_syntax_def signed_value_def)
next
  case False
  then obtain b ds where "itoa n = b # ds" "b \<noteq> 45" using itoa_nonneg_head[of n] by auto
  with False itoa_digits[of n] itoa_value[of n] show ?thesis
    by (simp add: signed_syntax_def signed_value_def)
qed

lemma parse_itoa_signed:
  "ty \<in> {I32, I64} \<Longrightarrow> \<bar>n\<bar> \<le> type_max ty \<Longrightarrow> bytes_to_signed ty (itoa n) = Inr n"
  by (simp add: bytes_to_signed_iff signed_itoa)

lemma parse_itoa_min: "bytes_to_signed I64 (itoa (- (2 ^ 63))) = Inl ParseError"
proof (cases "bytes_to_signed I64 (itoa (- (2 ^ 63)))")
  case (Inl e)
  then show ?thesis by (simp add: bytes_to_signed_error)
next
  case (Inr n)
  then show ?thesis using signed_itoa[of "- (2 ^ 63)"] by (simp add: bytes_to_signed_iff)
qed

lemma parse_itoa_usize: "n < 2 ^ 64 \<Longrightarrow> bytes_to_usize (itoa (int n)) = Inr n"
  using itoa_digits[of "int n"] itoa_value[of "int n"] by (simp add: bytes_to_usize_iff)

lemma itoa_no_cr: "13 \<notin> set (itoa n)"
proof (cases "n < 0")
  case True
  then have "13 \<notin> set (itoa (- n))" using itoa_digits[of "- n"] by (simp add: all_digits_no_cr)
  with True show ?thesis by (simp add: itoa_negative[OF True])
next
  case False
  then show ?thesis using itoa_digits[of n] by (simp add: all_digits_no_cr)
qed

lemma find_crlf_itoa: "find_crlf (itoa n @ 13 # 10 # rest) = Some (length (itoa n))"
  by (rule find_crlf_append) (rule itoa_no_cr)

end

text \<open>The decimal printer written out: the instance on which hypotheses about \<open>itoa\<close> are checked.\<close>

fun nat_digits :: "nat \<Rightarrow> bytes" where
  "nat_digits n =
     (if n < 10 then [48 + word_of_nat n] else nat_digits (n div 10) @ [48 + word_of_nat (n mod 10)])"

declare nat_digits.simps [simp del]

definition decimal :: "int \<Rightarrow> bytes" where
  "decimal n = (if n < 0 then 45 # nat_digits (nat (- n)) else nat_digits (nat n))"

lemma digit_of_nat:
  assumes "n < 10"
  shows "is_ascii_digit (48 + word_of_nat n)" and "uint (48 + word_of_nat n - 48 :: u8) = int n"
proof -
  from assms have u: "uint (word_of_nat n :: u8) = int n"
    by (simp add: unsigned_of_nat take_bit_eq_mod)
  with assms have "uint (48 + word_of_nat n :: u8) = 48 + int n"
    by (simp add: uint_word_ariths)
  with assms show "is_ascii_digit (48 + word_of_nat n)"
    by (simp add: is_ascii_digit_def word_le_def)
  from u show "uint (48 + word_of_nat n - 48 :: u8) = int n"
    by simp
qed

lemma nat_digits_correct:
  "nat_digits n \<noteq> [] \<and> all_digits (nat_digits n) \<and> digits_value (nat_digits n) = int n"
proof (induction n rule: nat_digits.induct)
  case (1 n)
  show ?case
  proof (cases "n < 10")
    case True
    with digit_of_nat[OF True] show ?thesis
      by (simp add: nat_digits.simps[of n] all_digits_def digits_value_def)
  next
    case False
    have "int n = 10 * int (n div 10) + int (n mod 10)"
      by (metis mult_div_mod_eq of_nat_add of_nat_mult of_nat_numeral)
    with False "1.IH"[OF False] digit_of_nat[of "n mod 10"] show ?thesis
      by (simp add: nat_digits.simps[of n] all_digits_def digits_value_snoc)
  qed
qed

interpretation decimal: decimal_printer decimal
  by unfold_locales (auto simp: decimal_def nat_digits_correct)

end
