(* ===== verification/Protocol.thy ===== *)
theory Protocol
  imports Numerals
begin

section \<open>Commands, errors and responses (\<open>src/wish.rs\<close>, \<open>src/wish/grant.rs\<close>)\<close>

text \<open>
  The enumerations the components exchange: which command an error is about, the error itself, what
  a request is answered with, and the messages (\<open>Decree\<close>) the egress thread receives. The
  constructors are the source's.
\<close>

datatype command =
    PING | SET | GET | EX | INCR | INCRBY | DECR | APPEND | STRLEN | EXISTS | DEL
  | HSET | HGET | HMGET | HDEL | HEXISTS | HLEN
  | LPUSH | LPOP | RPUSH | RPOP | LLEN | LRANGE | LINDEX | LSET | LREM
  | EXPIRE | TTL | SUBSCRIBE | PUBLISH | MSET | MGET
  | SADD | SREM | SISMEMBER | HGETALL | SMEMBERS | CONFIG | COMMAND

datatype sacrilege =
    IncorrectNumberOfArguments command
  | IncorrectUsage command
  | UnknownCommand
  | SubscriberOnlyMode

datatype info_type = Ok | Pong | Command

datatype response =
    Error sacrilege
  | Info info_type
  | BulkString "bytes option"
  | BulkStringArray "bytes option list option"
  | Amount u32
  | Number int
  | Length nat
  | SubscribedChannels "(bytes \<times> nat) list"
  | UnsubscribedChannels "(bytes \<times> nat) list option"

record gift =
  gift_token :: token
  gift_response :: response

datatype decree =
    Welcome token stream
  | Goodbye token
  | Deliver gift
  | Broadcast token bytes bytes "token list"

text \<open>The token a decree is about (the publisher, for a broadcast).\<close>

fun decree_token :: "decree \<Rightarrow> token" where
  "decree_token (Welcome t _) = t"
| "decree_token (Goodbye t) = t"
| "decree_token (Deliver g) = gift_token g"
| "decree_token (Broadcast t _ _ _) = t"

text \<open>\<open>Result<T, Sacrilege>\<close> is a sum with the error on the left.\<close>

type_synonym 'a outcome = "sacrilege + 'a"

end
