(* ===== verification/Keyspace.thy ===== *)
theory Keyspace
  imports Protocol
begin

section \<open>The key space and passive expiry (\<open>src/temple/soul.rs\<close>)\<close>

text \<open>
  \<open>Soul\<close> is a hash map from keys to values with an optional expiry in seconds; a key whose expiry
  is in the past is removed when an operation meets it. This theory holds the data, the accessors
  every operation goes through (\<open>get_valid_value\<close>, \<open>get_mut_valid_value\<close>, \<open>remove_valid_value\<close>)
  and the operations on keys of any type: \<open>set\<close>, \<open>del\<close>, \<open>exists\<close>, \<open>expire\<close>, \<open>ttl\<close>.

  The abstract view of a key space at a time is the map of its live entries (\<open>live\<close>). The
  specification of an operation on one key is a function on that key's live entry (a cell), and
  \<open>refines_cell\<close> says an operation implements its cell function: same result, same change of the
  view, no other key touched. The locale \<open>expiring_store\<close> is the interface the typed operations of
  the other theories rest on.
\<close>

datatype Value =
    String bytes
  | List "bytes list"
  | Hash "(bytes, bytes) fmap"
  | Set "bytes fset"

type_synonym entry = "Value \<times> u64 option"
type_synonym soul = "(bytes, entry) fmap"

definition soul_new :: soul where
  "soul_new = fmempty"

subsection \<open>The accessors\<close>

definition is_expired :: "soul \<Rightarrow> bytes \<Rightarrow> u64 \<Rightarrow> bool" where
  "is_expired soul key now =
     (case fmlookup soul key of Some (_, Some expiry) \<Rightarrow> expiry < now | _ \<Rightarrow> False)"

definition get_valid_value :: "soul \<Rightarrow> bytes \<Rightarrow> u64 \<Rightarrow> soul \<times> Value option" where
  "get_valid_value soul key now =
     (if is_expired soul key now then (fmdrop key soul, None)
      else (soul, map_option fst (fmlookup soul key)))"

definition get_mut_valid_value :: "soul \<Rightarrow> bytes \<Rightarrow> u64 \<Rightarrow> soul \<times> Value option" where
  "get_mut_valid_value soul key now =
     (if is_expired soul key now then (fmdrop key soul, None)
      else (soul, map_option fst (fmlookup soul key)))"

text \<open>A write through the \<open>&mut Value\<close> that \<open>get_mut_valid_value\<close> returned: the expiry stays.\<close>

definition write_value :: "soul \<Rightarrow> bytes \<Rightarrow> Value \<Rightarrow> soul" where
  "write_value soul key v =
     (case fmlookup soul key of Some (_, expiry) \<Rightarrow> fmupd key (v, expiry) soul | None \<Rightarrow> soul)"

definition remove_valid_value :: "soul \<Rightarrow> bytes \<Rightarrow> u64 \<Rightarrow> soul \<times> Value option" where
  "remove_valid_value soul key now =
     (fmdrop key soul,
      (case fmlookup soul key of
         Some (v, Some expiry) \<Rightarrow> if expiry < now then None else Some v
       | Some (v, None) \<Rightarrow> Some v
       | None \<Rightarrow> None))"

subsection \<open>Operations on keys of any type\<close>

definition soul_set :: "soul \<Rightarrow> bytes \<Rightarrow> entry \<Rightarrow> soul" where
  "soul_set soul key val = fmupd key val soul"

fun del_loop :: "soul \<Rightarrow> bytes list \<Rightarrow> u64 \<Rightarrow> u32 \<Rightarrow> soul \<times> u32" where
  "del_loop soul [] now deleted = (soul, deleted)"
| "del_loop soul (key # keys) now deleted =
     (case remove_valid_value soul key now of
        (soul', Some _) \<Rightarrow> del_loop soul' keys now (deleted + 1)
      | (soul', None) \<Rightarrow> del_loop soul' keys now deleted)"

definition soul_del :: "soul \<Rightarrow> bytes list \<Rightarrow> u64 \<Rightarrow> soul \<times> u32" where
  "soul_del soul keys now = del_loop soul keys now 0"

fun exists_loop :: "soul \<Rightarrow> bytes list \<Rightarrow> u64 \<Rightarrow> u32 \<Rightarrow> soul \<times> u32" where
  "exists_loop soul [] now found = (soul, found)"
| "exists_loop soul (key # keys) now found =
     (case get_valid_value soul key now of
        (soul', Some _) \<Rightarrow> exists_loop soul' keys now (found + 1)
      | (soul', None) \<Rightarrow> exists_loop soul' keys now found)"

definition soul_exists :: "soul \<Rightarrow> bytes list \<Rightarrow> u64 \<Rightarrow> soul \<times> u32" where
  "soul_exists soul keys now = exists_loop soul keys now 0"

definition soul_expire :: "soul \<Rightarrow> bytes \<Rightarrow> u64 \<Rightarrow> u64 \<Rightarrow> soul \<times> u32" where
  "soul_expire soul key expiry now =
     (case fmlookup soul key of
        Some (v, Some existing) \<Rightarrow>
          if existing < now then (fmdrop key soul, 0) else (fmupd key (v, Some expiry) soul, 1)
      | Some (v, None) \<Rightarrow> (fmupd key (v, Some expiry) soul, 1)
      | None \<Rightarrow> (soul, 0))"

text \<open>
  \<open>ttl\<close> works at the clock's own resolution. \<open>UNIX_EPOCH + Duration::from_secs(e)\<close> panics when
  \<open>e\<close> seconds do not fit the signed 64-bit seconds of a \<open>SystemTime\<close>: the result is then \<open>None\<close>.
\<close>

definition epoch_plus_secs :: "u64 \<Rightarrow> system_time option" where
  "epoch_plus_secs e = (if uint e < 2 ^ 63 then Some (uint e * 1000000000) else None)"

definition duration_since :: "system_time \<Rightarrow> system_time \<Rightarrow> int option" where
  "duration_since later earlier = (if earlier \<le> later then Some (later - earlier) else None)"

definition soul_ttl :: "soul \<Rightarrow> bytes \<Rightarrow> system_time \<Rightarrow> (soul \<times> int) option" where
  "soul_ttl soul key now =
     (case fmlookup soul key of
        Some (v, Some e) \<Rightarrow>
          (case epoch_plus_secs e of
             None \<Rightarrow> None
           | Some expiry \<Rightarrow>
               if expiry < now then Some (fmdrop key soul, - 2)
               else (case duration_since expiry now of
                       None \<Rightarrow> Some (fmdrop key soul, - 2)
                     | Some duration \<Rightarrow> Some (soul, wrap_i64 (duration div 1000000000))))
      | Some (v, None) \<Rightarrow> Some (soul, - 1)
      | None \<Rightarrow> Some (soul, - 2))"

lemmas [operations] = get_valid_value_def get_mut_valid_value_def write_value_def
  remove_valid_value_def soul_set_def soul_del_def soul_exists_def soul_expire_def

subsection \<open>The live view\<close>

definition alive :: "u64 \<Rightarrow> entry \<Rightarrow> bool" where
  "alive now e = (case snd e of Some expiry \<Rightarrow> \<not> expiry < now | None \<Rightarrow> True)"

definition live :: "u64 \<Rightarrow> soul \<Rightarrow> bytes \<Rightarrow> entry option" where
  "live now soul key =
     (case fmlookup soul key of Some e \<Rightarrow> if alive now e then Some e else None | None \<Rightarrow> None)"

lemma alive_None [simp]: "alive now (v, None)"
  by (simp add: alive_def)

lemma alive_Some [simp]: "alive now (v, Some x) = (\<not> x < now)"
  by (simp add: alive_def)

lemma is_expired_iff:
  "is_expired soul key now \<longleftrightarrow> (\<exists>e. fmlookup soul key = Some e \<and> \<not> alive now e)"
  by (auto simp: is_expired_def alive_def split: option.splits)

lemma live_fmupd [simp]:
  "live now (fmupd k e soul) = (live now soul)(k := if alive now e then Some e else None)"
  by (auto simp: live_def fun_eq_iff)

lemma live_fmdrop [simp]: "live now (fmdrop k soul) = (live now soul)(k := None)"
  by (auto simp: live_def fun_eq_iff)

lemma live_empty [simp]: "live now fmempty = Map.empty"
  by (auto simp: live_def)

lemma live_fmdrop_expired: "is_expired soul k now \<Longrightarrow> live now (fmdrop k soul) = live now soul"
  by (auto simp: is_expired_iff live_def fun_eq_iff)

lemma live_SomeD: "live now soul k = Some e \<Longrightarrow> fmlookup soul k = Some e \<and> alive now e"
  by (auto simp: live_def split: option.splits if_splits)

lemma live_fresh: "\<not> is_expired soul k now \<Longrightarrow> live now soul k = fmlookup soul k"
  by (auto simp: is_expired_iff live_def split: option.splits)

subsection \<open>Cells: the specification of an operation on one key\<close>

text \<open>
  \<open>refines_cell view raw act k now cell\<close>: on every store, \<open>act\<close> returns what \<open>cell\<close> computes from the
  live entry at \<open>k\<close>, changes the live view only at \<open>k\<close> and as \<open>cell\<close> says, and leaves the stored
  entries of all other keys alone. Expiry does not appear in a cell function: it is invisible.
\<close>

definition refines_cell ::
  "(u64 \<Rightarrow> 's \<Rightarrow> bytes \<Rightarrow> entry option) \<Rightarrow> ('s \<Rightarrow> bytes \<Rightarrow> entry option) \<Rightarrow>
   ('s \<Rightarrow> 's \<times> 'r) \<Rightarrow> bytes \<Rightarrow> u64 \<Rightarrow> (entry option \<Rightarrow> entry option \<times> 'r) \<Rightarrow> bool" where
  "refines_cell view raw act k now cell =
     (\<forall>s. view now (fst (act s)) = (view now s)(k := fst (cell (view now s k)))
        \<and> snd (act s) = snd (cell (view now s k))
        \<and> (\<forall>k'. k' \<noteq> k \<longrightarrow> raw (fst (act s)) k' = raw s k'))"

abbreviation soul_refines ::
  "(soul \<Rightarrow> soul \<times> 'r) \<Rightarrow> bytes \<Rightarrow> u64 \<Rightarrow> (entry option \<Rightarrow> entry option \<times> 'r) \<Rightarrow> bool" where
  "soul_refines \<equiv> refines_cell live fmlookup"

lemma refines_cellD:
  assumes "refines_cell view raw act k now cell"
  shows "view now (fst (act s)) = (view now s)(k := fst (cell (view now s k)))"
    and "snd (act s) = snd (cell (view now s k))"
    and "k' \<noteq> k \<Longrightarrow> raw (fst (act s)) k' = raw s k'"
  using assms by (auto simp: refines_cell_def)

text \<open>
  The two shapes of a typed operation: reading a value of one kind (a missing key gives a default,
  another kind \<open>IncorrectUsage\<close>), and updating it (\<open>upd\<close> gives the new value, or \<open>None\<close> to remove
  the key; \<open>fresh\<close> is the value stored under a missing key, if any).
\<close>

definition cell_read ::
  "(Value \<Rightarrow> 'a option) \<Rightarrow> ('a \<Rightarrow> 'r) \<Rightarrow> 'r \<Rightarrow> command \<Rightarrow> entry option \<Rightarrow> entry option \<times> 'r outcome" where
  "cell_read proj f d cmd x =
     (x, (case x of
            None \<Rightarrow> Inr d
          | Some (v, _) \<Rightarrow> (case proj v of None \<Rightarrow> Inl (IncorrectUsage cmd) | Some a \<Rightarrow> Inr (f a))))"

definition cell_update ::
  "(Value \<Rightarrow> 'a option) \<Rightarrow> ('a \<Rightarrow> Value option \<times> 'r outcome) \<Rightarrow> Value option \<times> 'r outcome \<Rightarrow> command \<Rightarrow>
   entry option \<Rightarrow> entry option \<times> 'r outcome" where
  "cell_update proj upd fresh cmd x =
     (case x of
        None \<Rightarrow> (map_option (\<lambda>v. (v, None)) (fst fresh), snd fresh)
      | Some (v, e) \<Rightarrow>
          (case proj v of
             None \<Rightarrow> (x, Inl (IncorrectUsage cmd))
           | Some a \<Rightarrow> (map_option (\<lambda>v'. (v', e)) (fst (upd a)), snd (upd a))))"

text \<open>The kinds of values, as partial projections.\<close>

fun as_string :: "Value \<Rightarrow> bytes option" where
  "as_string (String s) = Some s" | "as_string _ = None"

fun as_list :: "Value \<Rightarrow> bytes list option" where
  "as_list (List xs) = Some xs" | "as_list _ = None"

fun as_hash :: "Value \<Rightarrow> (bytes, bytes) fmap option" where
  "as_hash (Hash m) = Some m" | "as_hash _ = None"

fun as_set :: "Value \<Rightarrow> bytes fset option" where
  "as_set (Set S) = Some S" | "as_set _ = None"

subsection \<open>The interface of a store with passive expiry\<close>

text \<open>
  \<open>expiring_reader\<close>: what the operations rely on when they look a key up. The view is not changed
  by a look-up (an expired entry it drops was not in the view), and its result is the view's.
\<close>

locale expiring_reader =
  fixes view :: "u64 \<Rightarrow> 's \<Rightarrow> bytes \<Rightarrow> entry option"
    and raw :: "'s \<Rightarrow> bytes \<Rightarrow> entry option"
    and lookup :: "'s \<Rightarrow> bytes \<Rightarrow> u64 \<Rightarrow> 's \<times> Value option"
  assumes lookup_value: "snd (lookup s k now) = map_option fst (view now s k)"
    and lookup_view: "view now (fst (lookup s k now)) = view now s"
    and lookup_frame: "k' \<noteq> k \<Longrightarrow> raw (fst (lookup s k now)) k' = raw s k'"
begin

text \<open>A loop that counts the keys that are there (\<open>EXISTS\<close>): the view stays, the count is exact.\<close>

lemma count_loop:
  assumes nil: "\<And>s n. loop s [] n = (s, n)"
    and cons: "\<And>s k ks n. loop s (k # ks) n =
      (case lookup s k now of (s', Some _) \<Rightarrow> loop s' ks (n + 1) | (s', None) \<Rightarrow> loop s' ks n)"
  shows "view now (fst (loop s ks n)) = view now s \<and>
    snd (loop s ks n) = n + (of_nat (length (filter (\<lambda>k. view now s k \<noteq> None) ks)) :: 'w::len word)"
proof (induction ks arbitrary: s n)
  case Nil
  then show ?case by (simp add: nil)
next
  case (Cons k ks)
  obtain s' r where l: "lookup s k now = (s', r)" by (cases "lookup s k now")
  with lookup_value[of s k now] lookup_view[where s = s and k = k and now = now] have
    r: "r = map_option fst (view now s k)" and v: "view now s' = view now s" by simp_all
  show ?case
    using Cons.IH[of s' "n + 1"] Cons.IH[of s' n] by (cases r) (auto simp: cons l r v)
qed

end

locale expiring_store = expiring_reader view raw lookup
  for view :: "u64 \<Rightarrow> 's \<Rightarrow> bytes \<Rightarrow> entry option"
    and raw :: "'s \<Rightarrow> bytes \<Rightarrow> entry option"
    and lookup :: "'s \<Rightarrow> bytes \<Rightarrow> u64 \<Rightarrow> 's \<times> Value option" +
  fixes store :: "'s \<Rightarrow> bytes \<Rightarrow> Value \<Rightarrow> 's"
    and insert :: "'s \<Rightarrow> bytes \<Rightarrow> entry \<Rightarrow> 's"
    and remove :: "bytes \<Rightarrow> 's \<Rightarrow> 's"
  assumes write_view: "view now s k = Some (v, e) \<Longrightarrow> view now (store s k v') = (view now s)(k \<mapsto> (v', e))"
    and insert_view: "view now (insert s k (v, None)) = (view now s)(k \<mapsto> (v, None))"
    and remove_view: "view now (remove k s) = (view now s)(k := None)"
    and write_frame: "k' \<noteq> k \<Longrightarrow> raw (store s k v) k' = raw s k'"
    and insert_frame: "k' \<noteq> k \<Longrightarrow> raw (insert s k x) k' = raw s k'"
    and remove_frame: "k' \<noteq> k \<Longrightarrow> raw (remove k s) k' = raw s k'"

text \<open>
  The contracts a typed operation has with the store: \<open>act_eq\<close> says it is a look-up, a case split on
  the kind, and a write; the refinement of its cell function is then proved once.
\<close>

locale typed_reader = expiring_reader view raw lookup
  for view :: "u64 \<Rightarrow> 's \<Rightarrow> bytes \<Rightarrow> entry option"
    and raw :: "'s \<Rightarrow> bytes \<Rightarrow> entry option"
    and lookup :: "'s \<Rightarrow> bytes \<Rightarrow> u64 \<Rightarrow> 's \<times> Value option" +
  fixes act :: "'x \<Rightarrow> 's \<Rightarrow> bytes \<Rightarrow> u64 \<Rightarrow> 's \<times> 'r outcome"
    and proj :: "Value \<Rightarrow> 'a option"
    and f :: "'x \<Rightarrow> 'a \<Rightarrow> 'r"
    and d :: "'x \<Rightarrow> 'r"
    and cmd :: command
  assumes act_eq: "act x s k now =
    (case lookup s k now of
       (s', None) \<Rightarrow> (s', Inr (d x))
     | (s', Some v) \<Rightarrow>
         (case proj v of None \<Rightarrow> (s', Inl (IncorrectUsage cmd)) | Some a \<Rightarrow> (s', Inr (f x a))))"
begin

lemma act_refines:
  "refines_cell view raw (\<lambda>s. act x s k now) k now (cell_read proj (f x) (d x) cmd)"
  unfolding refines_cell_def
proof (intro allI conjI impI)
  fix s
  obtain s' r where l: "lookup s k now = (s', r)" by (cases "lookup s k now")
  with lookup_value[of s k now] lookup_view[where s = s and k = k and now = now] have
    r: "r = map_option fst (view now s k)" and v: "view now s' = view now s" by simp_all
  show "view now (fst (act x s k now)) = (view now s)(k := fst (cell_read proj (f x) (d x) cmd (view now s k)))"
    by (auto simp: act_eq l v cell_read_def split: option.splits)
  show "snd (act x s k now) = snd (cell_read proj (f x) (d x) cmd (view now s k))"
    by (auto simp: act_eq l r cell_read_def split: option.splits)
  fix k' assume "k' \<noteq> k"
  with lookup_frame[OF this, of s now] l show "raw (fst (act x s k now)) k' = raw s k'"
    by (auto simp: act_eq split: option.splits)
qed

end

locale typed_updater = expiring_store view raw lookup store insert remove
  for view :: "u64 \<Rightarrow> 's \<Rightarrow> bytes \<Rightarrow> entry option"
    and raw :: "'s \<Rightarrow> bytes \<Rightarrow> entry option"
    and lookup :: "'s \<Rightarrow> bytes \<Rightarrow> u64 \<Rightarrow> 's \<times> Value option"
    and store :: "'s \<Rightarrow> bytes \<Rightarrow> Value \<Rightarrow> 's"
    and insert :: "'s \<Rightarrow> bytes \<Rightarrow> entry \<Rightarrow> 's"
    and remove :: "bytes \<Rightarrow> 's \<Rightarrow> 's" +
  fixes act :: "'x \<Rightarrow> 's \<Rightarrow> bytes \<Rightarrow> u64 \<Rightarrow> 's \<times> 'r outcome"
    and proj :: "Value \<Rightarrow> 'a option"
    and upd :: "'x \<Rightarrow> 'a \<Rightarrow> Value option \<times> 'r outcome"
    and fresh :: "'x \<Rightarrow> Value option \<times> 'r outcome"
    and cmd :: command
  assumes act_eq: "act x s k now =
    (case lookup s k now of
       (s', None) \<Rightarrow> ((case fst (fresh x) of None \<Rightarrow> s' | Some v \<Rightarrow> insert s' k (v, None)), snd (fresh x))
     | (s', Some v) \<Rightarrow>
         (case proj v of
            None \<Rightarrow> (s', Inl (IncorrectUsage cmd))
          | Some a \<Rightarrow>
              ((case fst (upd x a) of None \<Rightarrow> remove k s' | Some v' \<Rightarrow> store s' k v'), snd (upd x a))))"
begin

lemma act_refines:
  "refines_cell view raw (\<lambda>s. act x s k now) k now (cell_update proj (upd x) (fresh x) cmd)"
  unfolding refines_cell_def
proof (intro allI conjI impI)
  fix s
  obtain s' r where l: "lookup s k now = (s', r)" by (cases "lookup s k now")
  with lookup_value[of s k now] lookup_view[where s = s and k = k and now = now] have
    r: "r = map_option fst (view now s k)" and v: "view now s' = view now s" by simp_all
  have w: "view now s k = Some (a, e) \<Longrightarrow> view now (store s' k v') = (view now s)(k \<mapsto> (v', e))" for a e v'
    using write_view[of now s' k a e v'] v by simp
  show "view now (fst (act x s k now)) =
      (view now s)(k := fst (cell_update proj (upd x) (fresh x) cmd (view now s k)))"
    using w by (auto simp: act_eq l r v cell_update_def insert_view remove_view split: option.splits)
  show "snd (act x s k now) = snd (cell_update proj (upd x) (fresh x) cmd (view now s k))"
    by (auto simp: act_eq l r cell_update_def split: option.splits)
  fix k' assume "k' \<noteq> k"
  with lookup_frame[OF this, of s now] l show "raw (fst (act x s k now)) k' = raw s k'"
    by (auto simp: act_eq write_frame insert_frame remove_frame split: option.splits)
qed

end

subsection \<open>The soul is such a store\<close>

interpretation soul_reader: expiring_reader live fmlookup get_valid_value
  by unfold_locales
    (auto simp: get_valid_value_def live_fmdrop_expired live_fresh, auto simp: is_expired_iff live_def)

interpretation soul_store:
  expiring_store live fmlookup get_mut_valid_value write_value soul_set fmdrop
  by unfold_locales
    (auto simp: get_mut_valid_value_def live_fmdrop_expired live_fresh write_value_def soul_set_def
      alive_def dest!: live_SomeD split: option.splits, auto simp: is_expired_iff live_def)

lemma get_mut_SomeD:
  "get_mut_valid_value soul key now = (soul', Some v) \<Longrightarrow>
     soul' = soul \<and> (\<exists>e. fmlookup soul key = Some (v, e))"
  by (auto simp: get_mut_valid_value_def split: if_splits)

lemma write_value_same: "fmlookup soul key = Some (v, e) \<Longrightarrow> write_value soul key v = soul"
  by (simp add: write_value_def)

lemma fmdrop_write_value [simp]: "fmdrop k (write_value s k v) = fmdrop k s"
  by (rule fmap_ext) (auto simp: write_value_def split: option.splits)

text \<open>The case splits of the typed operations.\<close>

lemmas op_splits = option.splits prod.splits Value.splits sum.splits if_splits

subsection \<open>What the operations on keys of any type do\<close>

lemma exists_count:
  "live now (fst (soul_exists soul keys now)) = live now soul \<and>
   snd (soul_exists soul keys now) = of_nat (length (filter (\<lambda>k. live now soul k \<noteq> None) keys))"
  using soul_reader.count_loop[where loop = "\<lambda>s ks n. exists_loop s ks now n" and now = now
      and s = soul and ks = keys and n = 0]
  by (simp add: soul_exists_def)

lemma remove_valid_value_live:
  "snd (remove_valid_value soul key now) = map_option fst (live now soul key)"
  by (auto simp: remove_valid_value_def live_def split: option.splits)

lemma del_loop_correct:
  "live now (fst (del_loop soul keys now n)) = (live now soul) |` (- set keys) \<and>
   snd (del_loop soul keys now n) = n + of_nat (card {k \<in> set keys. live now soul k \<noteq> None}) \<and>
   fmlookup (fst (del_loop soul keys now n)) = (fmlookup soul) |` (- set keys)"
proof (induction keys arbitrary: soul n)
  case Nil
  have "(m :: bytes \<Rightarrow> entry option) |` UNIV = m" for m by (simp add: restrict_map_def)
  then show ?case by simp
next
  case (Cons k keys)
  let ?s = "fmdrop k soul"
  have rm: "remove_valid_value soul k now = (?s, map_option fst (live now soul k))"
    using remove_valid_value_live[of soul k now] by (simp add: remove_valid_value_def)
  have sets: "{x. (x = k \<or> x \<in> set keys) \<and> (\<exists>a b. live now soul x = Some (a, b))} =
      (if live now soul k = None then {} else {k}) \<union>
      {x \<in> set keys. (\<exists>a b. live now ?s x = Some (a, b))}" by auto
  have "k \<notin> {x \<in> set keys. (\<exists>a b. live now ?s x = Some (a, b))}" by auto
  then have card: "card {x. (x = k \<or> x \<in> set keys) \<and> (\<exists>a b. live now soul x = Some (a, b))} =
      (if live now soul k = None then 0 else 1) + card {x \<in> set keys. (\<exists>a b. live now ?s x = Some (a, b))}"
    unfolding sets by (subst card_Un_disjoint) auto
  show ?case
    using Cons.IH[of ?s "n + 1"] Cons.IH[of ?s n] card
    by (auto simp: rm restrict_map_def fun_eq_iff split: option.splits)
qed

definition cell_expire :: "u64 \<Rightarrow> u64 \<Rightarrow> entry option \<Rightarrow> entry option \<times> u32" where
  "cell_expire expiry now x =
     (case x of
        None \<Rightarrow> (None, 0)
      | Some (v, _) \<Rightarrow> (if expiry < now then None else Some (v, Some expiry), 1))"

lemma expire_refines: "soul_refines (\<lambda>s. soul_expire s key expiry now) key now (cell_expire expiry now)"
  by (auto simp: refines_cell_def soul_expire_def cell_expire_def live_def fun_eq_iff split: option.splits)

end
