(* ===== verification/Wishes.thy ===== *)
theory Wishes
  imports Keyspace
begin

section \<open>The messages of the god thread (\<open>src/temple.rs\<close>: \<open>Wish\<close> and \<open>Temple\<close>'s senders)\<close>

text \<open>
  A request becomes a \<open>Wish\<close>: the client's token and a command. The commands are the source's
  enumerations with their arguments; \<open>Temple\<close> is the sending end of the channel to the god thread,
  and each method of \<open>Temple\<close> sends one wish. The program has a single \<open>Sender<Decree>\<close>, the egress
  channel every handler clones, so the field \<open>tx\<close> of \<open>ClientCommand\<close> carries no information and
  is left out; the answer channels of server commands are the result of the step that serves them.
\<close>

datatype database_command =
    Get bytes u64
  | Set bytes entry
  | Del "bytes list" u64
  | Append bytes bytes u64
  | Incr bytes u64
  | Incrby bytes int u64
  | Decr bytes u64
  | Strlen bytes u64
  | Exists "bytes list" u64
  | Hset bytes "(bytes \<times> bytes) list" u64
  | Hget bytes bytes u64
  | Hmget bytes "bytes list" u64
  | Hdel bytes "bytes list" u64
  | Hexists bytes bytes u64
  | Hlen bytes u64
  | Lpush bytes "bytes list" u64
  | Lpop bytes u64
  | LpopM bytes nat u64
  | Rpush bytes "bytes list" u64
  | Rpop bytes u64
  | RpopM bytes nat u64
  | Llen bytes u64
  | Lrange bytes int int u64
  | Lindex bytes int u64
  | Lset bytes int bytes u64
  | Lrem bytes int bytes u64
  | Expire bytes u64 u64
  | Ttl bytes system_time
  | Mset "bytes list"
  | Mget "bytes list" u64
  | Sadd bytes "bytes list" u64
  | Srem bytes "bytes list" u64
  | Sismember bytes bytes u64
  | Hgetall bytes u64
  | Smembers bytes u64
  | ConfigGet "bytes list"

datatype broadcast_command =
    Subscribe "bytes list"
  | Publish bytes bytes
  | Unsubscribe "bytes list"

datatype client_command_type =
    Database database_command
  | Broadcast broadcast_command

datatype server_command =
    Save bytes
  | GetFilePath

datatype command_type =
    Server server_command
  | Client client_command_type

record wish =
  wish_token :: token
  wish_command :: command_type

text \<open>The sending end: a failed send prints a line and the method returns.\<close>

type_synonym temple = "wish channel"

definition temple_send :: "temple \<Rightarrow> token \<Rightarrow> client_command_type \<Rightarrow> temple" where
  "temple_send temple token cc =
     snd (send temple \<lparr>wish_token = token, wish_command = Client cc\<rparr>)"

text \<open>\<open>sanctify\<close> clones the sender: both ends of the clone reach the same channel.\<close>

definition sanctify :: "temple \<Rightarrow> temple" where
  "sanctify temple = temple"

subsection \<open>One sender per command\<close>

definition temple_get :: "temple \<Rightarrow> token \<Rightarrow> bytes \<Rightarrow> u64 \<Rightarrow> temple" where
  "temple_get temple token key time =
     temple_send temple token (Database (Get key time))"

definition temple_set :: "temple \<Rightarrow> token \<Rightarrow> bytes \<Rightarrow> entry \<Rightarrow> temple" where
  "temple_set temple token key v =
     temple_send temple token (Database (database_command.Set key v))"

definition temple_del :: "temple \<Rightarrow> token \<Rightarrow> bytes list \<Rightarrow> u64 \<Rightarrow> temple" where
  "temple_del temple token keys time =
     temple_send temple token (Database (Del keys time))"

definition temple_exists :: "temple \<Rightarrow> token \<Rightarrow> bytes list \<Rightarrow> u64 \<Rightarrow> temple" where
  "temple_exists temple token keys time =
     temple_send temple token (Database (Exists keys time))"

definition temple_append :: "temple \<Rightarrow> token \<Rightarrow> bytes \<Rightarrow> bytes \<Rightarrow> u64 \<Rightarrow> temple" where
  "temple_append temple token key v time =
     temple_send temple token (Database (Append key v time))"

definition temple_incr :: "temple \<Rightarrow> token \<Rightarrow> bytes \<Rightarrow> u64 \<Rightarrow> temple" where
  "temple_incr temple token key time =
     temple_send temple token (Database (Incr key time))"

definition temple_incrby :: "temple \<Rightarrow> token \<Rightarrow> bytes \<Rightarrow> int \<Rightarrow> u64 \<Rightarrow> temple" where
  "temple_incrby temple token key number time =
     temple_send temple token (Database (Incrby key number time))"

definition temple_decr :: "temple \<Rightarrow> token \<Rightarrow> bytes \<Rightarrow> u64 \<Rightarrow> temple" where
  "temple_decr temple token key time =
     temple_send temple token (Database (Decr key time))"

definition temple_strlen :: "temple \<Rightarrow> token \<Rightarrow> bytes \<Rightarrow> u64 \<Rightarrow> temple" where
  "temple_strlen temple token key time =
     temple_send temple token (Database (Strlen key time))"

definition temple_hset :: "temple \<Rightarrow> token \<Rightarrow> bytes \<Rightarrow> (bytes \<times> bytes) list \<Rightarrow> u64 \<Rightarrow> temple" where
  "temple_hset temple token key field_value_pairs time =
     temple_send temple token (Database (Hset key field_value_pairs time))"

definition temple_hget :: "temple \<Rightarrow> token \<Rightarrow> bytes \<Rightarrow> bytes \<Rightarrow> u64 \<Rightarrow> temple" where
  "temple_hget temple token key field time =
     temple_send temple token (Database (Hget key field time))"

definition temple_hmget :: "temple \<Rightarrow> token \<Rightarrow> bytes \<Rightarrow> bytes list \<Rightarrow> u64 \<Rightarrow> temple" where
  "temple_hmget temple token key flds time =
     temple_send temple token (Database (Hmget key flds time))"

definition temple_hdel :: "temple \<Rightarrow> token \<Rightarrow> bytes \<Rightarrow> bytes list \<Rightarrow> u64 \<Rightarrow> temple" where
  "temple_hdel temple token key flds time =
     temple_send temple token (Database (Hdel key flds time))"

definition temple_hexists :: "temple \<Rightarrow> token \<Rightarrow> bytes \<Rightarrow> bytes \<Rightarrow> u64 \<Rightarrow> temple" where
  "temple_hexists temple token key field time =
     temple_send temple token (Database (Hexists key field time))"

definition temple_hlen :: "temple \<Rightarrow> token \<Rightarrow> bytes \<Rightarrow> u64 \<Rightarrow> temple" where
  "temple_hlen temple token key time =
     temple_send temple token (Database (Hlen key time))"

definition temple_lpush :: "temple \<Rightarrow> token \<Rightarrow> bytes \<Rightarrow> bytes list \<Rightarrow> u64 \<Rightarrow> temple" where
  "temple_lpush temple token key elements time =
     temple_send temple token (Database (Lpush key elements time))"

definition temple_lpop :: "temple \<Rightarrow> token \<Rightarrow> bytes \<Rightarrow> u64 \<Rightarrow> temple" where
  "temple_lpop temple token key time =
     temple_send temple token (Database (Lpop key time))"

definition temple_lpop_m :: "temple \<Rightarrow> token \<Rightarrow> bytes \<Rightarrow> nat \<Rightarrow> u64 \<Rightarrow> temple" where
  "temple_lpop_m temple token key count time =
     temple_send temple token (Database (LpopM key count time))"

definition temple_rpush :: "temple \<Rightarrow> token \<Rightarrow> bytes \<Rightarrow> bytes list \<Rightarrow> u64 \<Rightarrow> temple" where
  "temple_rpush temple token key elements time =
     temple_send temple token (Database (Rpush key elements time))"

definition temple_rpop :: "temple \<Rightarrow> token \<Rightarrow> bytes \<Rightarrow> u64 \<Rightarrow> temple" where
  "temple_rpop temple token key time =
     temple_send temple token (Database (Rpop key time))"

definition temple_rpop_m :: "temple \<Rightarrow> token \<Rightarrow> bytes \<Rightarrow> nat \<Rightarrow> u64 \<Rightarrow> temple" where
  "temple_rpop_m temple token key count time =
     temple_send temple token (Database (RpopM key count time))"

definition temple_llen :: "temple \<Rightarrow> token \<Rightarrow> bytes \<Rightarrow> u64 \<Rightarrow> temple" where
  "temple_llen temple token key time =
     temple_send temple token (Database (Llen key time))"

definition temple_lrange :: "temple \<Rightarrow> token \<Rightarrow> bytes \<Rightarrow> int \<Rightarrow> int \<Rightarrow> u64 \<Rightarrow> temple" where
  "temple_lrange temple token key starting_index ending_index time =
     temple_send temple token (Database (Lrange key starting_index ending_index time))"

definition temple_lindex :: "temple \<Rightarrow> token \<Rightarrow> bytes \<Rightarrow> int \<Rightarrow> u64 \<Rightarrow> temple" where
  "temple_lindex temple token key index time =
     temple_send temple token (Database (Lindex key index time))"

definition temple_lset :: "temple \<Rightarrow> token \<Rightarrow> bytes \<Rightarrow> int \<Rightarrow> bytes \<Rightarrow> u64 \<Rightarrow> temple" where
  "temple_lset temple token key index element time =
     temple_send temple token (Database (Lset key index element time))"

definition temple_lrem :: "temple \<Rightarrow> token \<Rightarrow> bytes \<Rightarrow> int \<Rightarrow> bytes \<Rightarrow> u64 \<Rightarrow> temple" where
  "temple_lrem temple token key count element time =
     temple_send temple token (Database (Lrem key count element time))"

definition temple_expire :: "temple \<Rightarrow> token \<Rightarrow> bytes \<Rightarrow> u64 \<Rightarrow> u64 \<Rightarrow> temple" where
  "temple_expire temple token key expiry time =
     temple_send temple token (Database (Expire key expiry time))"

definition temple_ttl :: "temple \<Rightarrow> token \<Rightarrow> bytes \<Rightarrow> system_time \<Rightarrow> temple" where
  "temple_ttl temple token key time =
     temple_send temple token (Database (Ttl key time))"

definition temple_mset :: "temple \<Rightarrow> token \<Rightarrow> bytes list \<Rightarrow> temple" where
  "temple_mset temple token terms_iter =
     temple_send temple token (Database (Mset terms_iter))"

definition temple_mget :: "temple \<Rightarrow> token \<Rightarrow> bytes list \<Rightarrow> u64 \<Rightarrow> temple" where
  "temple_mget temple token terms_iter time =
     temple_send temple token (Database (Mget terms_iter time))"

definition temple_sadd :: "temple \<Rightarrow> token \<Rightarrow> bytes \<Rightarrow> bytes list \<Rightarrow> u64 \<Rightarrow> temple" where
  "temple_sadd temple token key vals time =
     temple_send temple token (Database (Sadd key vals time))"

definition temple_srem :: "temple \<Rightarrow> token \<Rightarrow> bytes \<Rightarrow> bytes list \<Rightarrow> u64 \<Rightarrow> temple" where
  "temple_srem temple token key vals time =
     temple_send temple token (Database (Srem key vals time))"

definition temple_sismember :: "temple \<Rightarrow> token \<Rightarrow> bytes \<Rightarrow> bytes \<Rightarrow> u64 \<Rightarrow> temple" where
  "temple_sismember temple token key v time =
     temple_send temple token (Database (Sismember key v time))"

definition temple_hgetall :: "temple \<Rightarrow> token \<Rightarrow> bytes \<Rightarrow> u64 \<Rightarrow> temple" where
  "temple_hgetall temple token key time =
     temple_send temple token (Database (Hgetall key time))"

definition temple_smembers :: "temple \<Rightarrow> token \<Rightarrow> bytes \<Rightarrow> u64 \<Rightarrow> temple" where
  "temple_smembers temple token key time =
     temple_send temple token (Database (Smembers key time))"

definition temple_subscribe :: "temple \<Rightarrow> token \<Rightarrow> bytes list \<Rightarrow> temple" where
  "temple_subscribe temple token events =
     temple_send temple token (client_command_type.Broadcast (Subscribe events))"

definition temple_publish :: "temple \<Rightarrow> token \<Rightarrow> bytes \<Rightarrow> bytes \<Rightarrow> temple" where
  "temple_publish temple token event message =
     temple_send temple token (client_command_type.Broadcast (Publish event message))"

definition temple_unsubscribe :: "temple \<Rightarrow> token \<Rightarrow> bytes list \<Rightarrow> temple" where
  "temple_unsubscribe temple token terms =
     temple_send temple token (client_command_type.Broadcast (Unsubscribe terms))"

definition temple_config_get :: "temple \<Rightarrow> token \<Rightarrow> bytes list \<Rightarrow> temple" where
  "temple_config_get temple token properties =
     temple_send temple token (Database (ConfigGet properties))"

lemmas temple_senders [operations] = temple_get_def temple_set_def temple_del_def temple_exists_def temple_append_def
  temple_incr_def temple_incrby_def temple_decr_def temple_strlen_def temple_hset_def
  temple_hget_def temple_hmget_def temple_hdel_def temple_hexists_def temple_hlen_def
  temple_lpush_def temple_lpop_def temple_lpop_m_def temple_rpush_def temple_rpop_def
  temple_rpop_m_def temple_llen_def temple_lrange_def temple_lindex_def temple_lset_def
  temple_lrem_def temple_expire_def temple_ttl_def temple_mset_def temple_mget_def
  temple_sadd_def temple_srem_def temple_sismember_def temple_hgetall_def temple_smembers_def
  temple_subscribe_def temple_publish_def temple_unsubscribe_def temple_config_get_def

subsection \<open>The time a command carries\<close>

text \<open>The second at which a command is served; \<open>SET\<close>, \<open>MSET\<close> and \<open>CONFIG GET\<close> carry none.\<close>

fun command_time :: "database_command \<Rightarrow> u64 option" where
  "command_time (Get _ time) = Some time"
| "command_time (database_command.Set _ _) = None"
| "command_time (Del _ time) = Some time"
| "command_time (Exists _ time) = Some time"
| "command_time (Append _ _ time) = Some time"
| "command_time (Incr _ time) = Some time"
| "command_time (Incrby _ _ time) = Some time"
| "command_time (Decr _ time) = Some time"
| "command_time (Strlen _ time) = Some time"
| "command_time (Hset _ _ time) = Some time"
| "command_time (Hget _ _ time) = Some time"
| "command_time (Hmget _ _ time) = Some time"
| "command_time (Hdel _ _ time) = Some time"
| "command_time (Hexists _ _ time) = Some time"
| "command_time (Hlen _ time) = Some time"
| "command_time (Lpush _ _ time) = Some time"
| "command_time (Lpop _ time) = Some time"
| "command_time (LpopM _ _ time) = Some time"
| "command_time (Rpush _ _ time) = Some time"
| "command_time (Rpop _ time) = Some time"
| "command_time (RpopM _ _ time) = Some time"
| "command_time (Llen _ time) = Some time"
| "command_time (Lrange _ _ _ time) = Some time"
| "command_time (Lindex _ _ time) = Some time"
| "command_time (Lset _ _ _ time) = Some time"
| "command_time (Lrem _ _ _ time) = Some time"
| "command_time (Expire _ _ time) = Some time"
| "command_time (Ttl _ time) = Some (as_secs time)"
| "command_time (Mset _) = None"
| "command_time (Mget _ time) = Some time"
| "command_time (Sadd _ _ time) = Some time"
| "command_time (Srem _ _ time) = Some time"
| "command_time (Sismember _ _ time) = Some time"
| "command_time (Hgetall _ time) = Some time"
| "command_time (Smembers _ time) = Some time"
| "command_time (ConfigGet _) = None"

end
