(* ===== verification/SoulStrings.thy ===== *)
theory SoulStrings
  imports Keyspace
begin

section \<open>String operations (\<open>src/temple/soul.rs\<close>)\<close>

text \<open>
  \<open>get\<close>, \<open>append\<close>, \<open>incr\<close>, \<open>incrby\<close>, \<open>decr\<close>, \<open>strlen\<close>, \<open>mset\<close> and \<open>mget\<close>. Numbers are stored as
  text: the operations parse it with \<open>bytes_to_i64\<close> and print the sum with \<open>itoa\<close>, a parameter. Each
  single-key operation is shown to refine its cell function by an interpretation of the store's
  contracts.
\<close>

definition soul_get :: "soul \<Rightarrow> bytes \<Rightarrow> u64 \<Rightarrow> soul \<times> bytes option outcome" where
  "soul_get soul key now =
     (case get_valid_value soul key now of
        (soul', Some (String v)) \<Rightarrow> (soul', Inr (Some v))
      | (soul', Some _) \<Rightarrow> (soul', Inl (IncorrectUsage GET))
      | (soul', None) \<Rightarrow> (soul', Inr None))"

definition soul_append :: "soul \<Rightarrow> bytes \<Rightarrow> bytes \<Rightarrow> u64 \<Rightarrow> soul \<times> nat outcome" where
  "soul_append soul key incoming_value now =
     (case get_mut_valid_value soul key now of
        (soul', Some (String v)) \<Rightarrow>
          (let v' = v @ incoming_value in (write_value soul' key (String v'), Inr (length v')))
      | (soul', Some _) \<Rightarrow> (soul', Inl (IncorrectUsage APPEND))
      | (soul', None) \<Rightarrow>
          (fmupd key (String incoming_value, None) soul', Inr (length incoming_value)))"

definition soul_incr :: "(int \<Rightarrow> bytes) \<Rightarrow> soul \<Rightarrow> bytes \<Rightarrow> u64 \<Rightarrow> soul \<times> int outcome" where
  "soul_incr itoa soul key now =
     (case get_mut_valid_value soul key now of
        (soul', Some (String v)) \<Rightarrow>
          (case bytes_to_i64 v of
             Inl _ \<Rightarrow> (soul', Inl (IncorrectUsage INCR))
           | Inr number \<Rightarrow>
               (case checked_add I64 number 1 of
                  None \<Rightarrow> (soul', Inl (IncorrectUsage INCR))
                | Some number' \<Rightarrow> (write_value soul' key (String (itoa number')), Inr number')))
      | (soul', Some _) \<Rightarrow> (soul', Inl (IncorrectUsage INCR))
      | (soul', None) \<Rightarrow> (fmupd key (String (bstr ''1''), None) soul', Inr 1))"

definition soul_incrby :: "(int \<Rightarrow> bytes) \<Rightarrow> soul \<Rightarrow> bytes \<Rightarrow> int \<Rightarrow> u64 \<Rightarrow> soul \<times> int outcome" where
  "soul_incrby itoa soul key number_to_increment_by now =
     (case get_mut_valid_value soul key now of
        (soul', Some (String v)) \<Rightarrow>
          (case bytes_to_i64 v of
             Inl _ \<Rightarrow> (soul', Inl (IncorrectUsage INCRBY))
           | Inr number \<Rightarrow>
               (case checked_add I64 number number_to_increment_by of
                  None \<Rightarrow> (soul', Inl (IncorrectUsage INCRBY))
                | Some number' \<Rightarrow> (write_value soul' key (String (itoa number')), Inr number')))
      | (soul', Some _) \<Rightarrow> (soul', Inl (IncorrectUsage INCRBY))
      | (soul', None) \<Rightarrow>
          (fmupd key (String (itoa number_to_increment_by), None) soul', Inr number_to_increment_by))"

definition soul_decr :: "(int \<Rightarrow> bytes) \<Rightarrow> soul \<Rightarrow> bytes \<Rightarrow> u64 \<Rightarrow> soul \<times> int outcome" where
  "soul_decr itoa soul key now =
     (case get_mut_valid_value soul key now of
        (soul', Some (String v)) \<Rightarrow>
          (case bytes_to_i64 v of
             Inl _ \<Rightarrow> (soul', Inl (IncorrectUsage DECR))
           | Inr number \<Rightarrow>
               (case checked_add I64 number (- 1) of
                  None \<Rightarrow> (soul', Inl (IncorrectUsage DECR))
                | Some number' \<Rightarrow> (write_value soul' key (String (itoa number')), Inr number')))
      | (soul', Some _) \<Rightarrow> (soul', Inl (IncorrectUsage DECR))
      | (soul', None) \<Rightarrow> (fmupd key (String (bstr ''-1''), None) soul', Inr (- 1)))"

definition soul_strlen :: "soul \<Rightarrow> bytes \<Rightarrow> u64 \<Rightarrow> soul \<times> nat outcome" where
  "soul_strlen soul key now =
     (case get_valid_value soul key now of
        (soul', Some (String v)) \<Rightarrow> (soul', Inr (length v))
      | (soul', Some _) \<Rightarrow> (soul', Inl (IncorrectUsage STRLEN))
      | (soul', None) \<Rightarrow> (soul', Inr 0))"

fun soul_mset :: "soul \<Rightarrow> bytes list \<Rightarrow> soul" where
  "soul_mset soul (key # v # terms) = soul_mset (fmupd key (String v, None) soul) terms"
| "soul_mset soul _ = soul"

fun mget_loop :: "soul \<Rightarrow> bytes list \<Rightarrow> u64 \<Rightarrow> bytes option list \<Rightarrow> soul \<times> bytes option list" where
  "mget_loop soul [] now result = (soul, result)"
| "mget_loop soul (key # keys) now result =
     (case get_valid_value soul key now of
        (soul', Some (String v)) \<Rightarrow> mget_loop soul' keys now (result @ [Some v])
      | (soul', _) \<Rightarrow> mget_loop soul' keys now (result @ [None]))"

definition soul_mget :: "soul \<Rightarrow> bytes list \<Rightarrow> u64 \<Rightarrow> soul \<times> bytes option list option" where
  "soul_mget soul keys now = map_prod id Some (mget_loop soul keys now [])"

lemmas [operations] = soul_get_def soul_append_def soul_incr_def soul_incrby_def soul_decr_def
  soul_strlen_def soul_mget_def

subsection \<open>The cell functions\<close>

definition add_to :: "(int \<Rightarrow> bytes) \<Rightarrow> int \<Rightarrow> command \<Rightarrow> bytes \<Rightarrow> Value option \<times> int outcome" where
  "add_to itoa n cmd v =
     (case bytes_to_i64 v of
        Inl _ \<Rightarrow> (Some (String v), Inl (IncorrectUsage cmd))
      | Inr m \<Rightarrow>
          (if - (2 ^ 63) \<le> m + n \<and> m + n < 2 ^ 63 then (Some (String (itoa (m + n))), Inr (m + n))
           else (Some (String v), Inl (IncorrectUsage cmd))))"

definition cell_get :: "entry option \<Rightarrow> entry option \<times> bytes option outcome" where
  "cell_get = cell_read as_string Some None GET"

definition cell_strlen :: "entry option \<Rightarrow> entry option \<times> nat outcome" where
  "cell_strlen = cell_read as_string length 0 STRLEN"

definition cell_append :: "bytes \<Rightarrow> entry option \<Rightarrow> entry option \<times> nat outcome" where
  "cell_append w = cell_update as_string
     (\<lambda>v. (Some (String (v @ w)), Inr (length v + length w))) (Some (String w), Inr (length w)) APPEND"

definition cell_incrby :: "(int \<Rightarrow> bytes) \<Rightarrow> int \<Rightarrow> entry option \<Rightarrow> entry option \<times> int outcome" where
  "cell_incrby itoa n = cell_update as_string (add_to itoa n INCRBY) (Some (String (itoa n)), Inr n) INCRBY"

definition cell_incr :: "(int \<Rightarrow> bytes) \<Rightarrow> entry option \<Rightarrow> entry option \<times> int outcome" where
  "cell_incr itoa = cell_update as_string (add_to itoa 1 INCR) (Some (String (bstr ''1'')), Inr 1) INCR"

definition cell_decr :: "(int \<Rightarrow> bytes) \<Rightarrow> entry option \<Rightarrow> entry option \<times> int outcome" where
  "cell_decr itoa = cell_update as_string (add_to itoa (- 1) DECR) (Some (String (bstr ''-1'')), Inr (- 1)) DECR"

subsection \<open>The operations refine them\<close>

lemma checked_add_i64:
  "checked_add I64 m n = (if - (2 ^ 63) \<le> m + n \<and> m + n < 2 ^ 63 then Some (m + n) else None)"
  by (auto simp: checked_add_def in_type_def)

interpretation get: typed_reader live fmlookup get_valid_value
  "\<lambda>(_::unit) s k now. soul_get s k now" as_string "\<lambda>_. Some" "\<lambda>_. None" GET
  by unfold_locales (auto simp: soul_get_def split: op_splits)

interpretation strlen: typed_reader live fmlookup get_valid_value
  "\<lambda>(_::unit) s k now. soul_strlen s k now" as_string "\<lambda>_. length" "\<lambda>_. 0" STRLEN
  by unfold_locales (auto simp: soul_strlen_def split: op_splits)

interpretation append: typed_updater live fmlookup get_mut_valid_value write_value soul_set fmdrop
  "\<lambda>w s k now. soul_append s k w now" as_string
  "\<lambda>w v. (Some (String (v @ w)), Inr (length v + length w))" "\<lambda>w. (Some (String w), Inr (length w))" APPEND
  by unfold_locales (auto simp: soul_append_def soul_set_def Let_def split: op_splits)

interpretation incrby: typed_updater live fmlookup get_mut_valid_value write_value soul_set fmdrop
  "\<lambda>(itoa, n) s k now. soul_incrby itoa s k n now" as_string
  "\<lambda>(itoa, n). add_to itoa n INCRBY" "\<lambda>(itoa, n). (Some (String (itoa n)), Inr n)" INCRBY
  by unfold_locales
    (auto simp: soul_incrby_def soul_set_def add_to_def checked_add_i64 write_value_same
      dest!: get_mut_SomeD split: op_splits)

interpretation incr: typed_updater live fmlookup get_mut_valid_value write_value soul_set fmdrop
  "\<lambda>itoa s k now. soul_incr itoa s k now" as_string
  "\<lambda>itoa. add_to itoa 1 INCR" "\<lambda>_. (Some (String (bstr ''1'')), Inr 1)" INCR
  by unfold_locales
    (auto simp: soul_incr_def soul_set_def add_to_def checked_add_i64 write_value_same
      dest!: get_mut_SomeD split: op_splits)

interpretation decr: typed_updater live fmlookup get_mut_valid_value write_value soul_set fmdrop
  "\<lambda>itoa s k now. soul_decr itoa s k now" as_string
  "\<lambda>itoa. add_to itoa (- 1) DECR" "\<lambda>_. (Some (String (bstr ''-1'')), Inr (- 1))" DECR
  by unfold_locales
    (auto simp: soul_decr_def soul_set_def add_to_def checked_add_i64 write_value_same
      dest!: get_mut_SomeD split: op_splits)

lemma get_refines: "soul_refines (\<lambda>s. soul_get s k now) k now cell_get"
  unfolding cell_get_def by (rule get.act_refines)

lemma strlen_refines: "soul_refines (\<lambda>s. soul_strlen s k now) k now cell_strlen"
  unfolding cell_strlen_def by (rule strlen.act_refines)

lemma append_refines: "soul_refines (\<lambda>s. soul_append s k w now) k now (cell_append w)"
  unfolding cell_append_def by (rule append.act_refines)

lemma incrby_refines: "soul_refines (\<lambda>s. soul_incrby itoa s k n now) k now (cell_incrby itoa n)"
  unfolding cell_incrby_def using incrby.act_refines[of "(itoa, n)"] by simp

lemma incr_refines: "soul_refines (\<lambda>s. soul_incr itoa s k now) k now (cell_incr itoa)"
  unfolding cell_incr_def by (rule incr.act_refines)

lemma decr_refines: "soul_refines (\<lambda>s. soul_decr itoa s k now) k now (cell_decr itoa)"
  unfolding cell_decr_def by (rule decr.act_refines)

subsection \<open>\<open>MSET\<close> and \<open>MGET\<close>\<close>

fun pairs_of :: "bytes list \<Rightarrow> (bytes \<times> bytes) list" where
  "pairs_of (k # v # rest) = (k, v) # pairs_of rest"
| "pairs_of _ = []"

lemma mset_live:
  "live now (soul_mset soul terms) =
     live now soul ++ (map_option (\<lambda>v. (String v, None)) \<circ> map_of (rev (pairs_of terms)))"
proof (induction soul terms rule: soul_mset.induct)
  case (1 soul k v terms)
  then show ?case by (auto simp: fun_eq_iff map_add_def split: option.splits)
qed (simp_all add: fun_eq_iff map_add_def)

lemma mget_loop_correct:
  "live now (fst (mget_loop soul keys now acc)) = live now soul \<and>
   snd (mget_loop soul keys now acc) =
     acc @ map (\<lambda>k. case live now soul k of Some (String v, _) \<Rightarrow> Some v | _ \<Rightarrow> None) keys"
proof (induction keys arbitrary: soul acc)
  case Nil
  then show ?case by simp
next
  case (Cons k keys)
  obtain s' r where l: "get_valid_value soul k now = (s', r)" by (cases "get_valid_value soul k now")
  with soul_reader.lookup_value[of soul k now] soul_reader.lookup_view[of now soul k] have
    r: "r = map_option fst (live now soul k)" and v: "live now s' = live now soul" by simp_all
  show ?case
    using Cons.IH[of s'] by (auto simp: l r v split: op_splits)
qed

lemma mget_correct:
  "live now (fst (soul_mget soul keys now)) = live now soul \<and>
   snd (soul_mget soul keys now) =
     Some (map (\<lambda>k. case live now soul k of Some (String v, _) \<Rightarrow> Some v | _ \<Rightarrow> None) keys)"
  using mget_loop_correct[of now soul keys "[]"] by (simp add: soul_mget_def)

end
