(* ===== verification/SoulHashes.thy ===== *)
theory SoulHashes
  imports Keyspace
begin

section \<open>Hash operations (\<open>src/temple/soul.rs\<close>)\<close>

text \<open>
  \<open>hset\<close>, \<open>hget\<close>, \<open>hmget\<close>, \<open>hdel\<close>, \<open>hexists\<close>, \<open>hlen\<close> and \<open>hgetall\<close>. The inner \<open>HashMap\<close> is a finite
  map; \<open>hgetall\<close> takes the iteration order of its keys as the parameter \<open>iter\<close>.
\<close>

text \<open>The counter of \<open>hset\<close> counts new fields under an existing hash.\<close>

fun hset_loop :: "(bytes, bytes) fmap \<Rightarrow> (bytes \<times> bytes) list \<Rightarrow> u32 \<Rightarrow> (bytes, bytes) fmap \<times> u32" where
  "hset_loop m [] added = (m, added)"
| "hset_loop m ((field, v) # rest) added =
     hset_loop (fmupd field v m) rest (if fmlookup m field = None then added + 1 else added)"

text \<open>Under a missing key it counts every pair.\<close>

fun hset_fresh_loop :: "(bytes, bytes) fmap \<Rightarrow> (bytes \<times> bytes) list \<Rightarrow> u32 \<Rightarrow> (bytes, bytes) fmap \<times> u32" where
  "hset_fresh_loop m [] added = (m, added)"
| "hset_fresh_loop m ((field, v) # rest) added = hset_fresh_loop (fmupd field v m) rest (added + 1)"

definition soul_hset :: "soul \<Rightarrow> bytes \<Rightarrow> (bytes \<times> bytes) list \<Rightarrow> u64 \<Rightarrow> soul \<times> u32 outcome" where
  "soul_hset soul key field_value_pairs now =
     (case get_mut_valid_value soul key now of
        (soul', Some (Hash m)) \<Rightarrow>
          (let (m', added) = hset_loop m field_value_pairs 0
           in (write_value soul' key (Hash m'), Inr added))
      | (soul', Some _) \<Rightarrow> (soul', Inl (IncorrectUsage HSET))
      | (soul', None) \<Rightarrow>
          (let (m', added) = hset_fresh_loop fmempty field_value_pairs 0
           in (fmupd key (Hash m', None) soul', Inr added)))"

definition soul_hget :: "soul \<Rightarrow> bytes \<Rightarrow> bytes \<Rightarrow> u64 \<Rightarrow> soul \<times> bytes option outcome" where
  "soul_hget soul key field now =
     (case get_valid_value soul key now of
        (soul', Some (Hash m)) \<Rightarrow> (soul', Inr (fmlookup m field))
      | (soul', Some _) \<Rightarrow> (soul', Inl (IncorrectUsage HGET))
      | (soul', None) \<Rightarrow> (soul', Inr None))"

definition soul_hmget :: "soul \<Rightarrow> bytes \<Rightarrow> bytes list \<Rightarrow> u64 \<Rightarrow> soul \<times> bytes option list option outcome" where
  "soul_hmget soul key flds now =
     (case get_valid_value soul key now of
        (soul', Some (Hash m)) \<Rightarrow> (soul', Inr (Some (map (fmlookup m) flds)))
      | (soul', Some _) \<Rightarrow> (soul', Inl (IncorrectUsage HMGET))
      | (soul', None) \<Rightarrow> (soul', Inr None))"

fun hdel_loop :: "(bytes, bytes) fmap \<Rightarrow> bytes list \<Rightarrow> u32 \<Rightarrow> (bytes, bytes) fmap \<times> u32" where
  "hdel_loop m [] deleted = (m, deleted)"
| "hdel_loop m (field # rest) deleted =
     hdel_loop (fmdrop field m) rest (if fmlookup m field \<noteq> None then deleted + 1 else deleted)"

definition soul_hdel :: "soul \<Rightarrow> bytes \<Rightarrow> bytes list \<Rightarrow> u64 \<Rightarrow> soul \<times> u32 outcome" where
  "soul_hdel soul key flds now =
     (case get_mut_valid_value soul key now of
        (soul', Some (Hash m)) \<Rightarrow>
          (let (m', deleted) = hdel_loop m flds 0
           in (write_value soul' key (Hash m'), Inr deleted))
      | (soul', Some _) \<Rightarrow> (soul', Inl (IncorrectUsage HDEL))
      | (soul', None) \<Rightarrow> (soul', Inr 0))"

definition soul_hexists :: "soul \<Rightarrow> bytes \<Rightarrow> bytes \<Rightarrow> u64 \<Rightarrow> soul \<times> u32 outcome" where
  "soul_hexists soul key field now =
     (case get_valid_value soul key now of
        (soul', Some (Hash m)) \<Rightarrow> (soul', if fmlookup m field \<noteq> None then Inr 1 else Inr 0)
      | (soul', Some _) \<Rightarrow> (soul', Inl (IncorrectUsage HEXISTS))
      | (soul', None) \<Rightarrow> (soul', Inr 0))"

definition soul_hlen :: "soul \<Rightarrow> bytes \<Rightarrow> u64 \<Rightarrow> soul \<times> nat outcome" where
  "soul_hlen soul key now =
     (case get_valid_value soul key now of
        (soul', Some (Hash m)) \<Rightarrow> (soul', Inr (fcard (fmdom m)))
      | (soul', Some _) \<Rightarrow> (soul', Inl (IncorrectUsage HLEN))
      | (soul', None) \<Rightarrow> (soul', Inr 0))"

definition hash_entries :: "(bytes fset \<Rightarrow> bytes list) \<Rightarrow> (bytes, bytes) fmap \<Rightarrow> bytes option list" where
  "hash_entries iter m = concat (map (\<lambda>field. [Some field, fmlookup m field]) (iter (fmdom m)))"

definition soul_hgetall ::
  "(bytes fset \<Rightarrow> bytes list) \<Rightarrow> soul \<Rightarrow> bytes \<Rightarrow> u64 \<Rightarrow> soul \<times> bytes option list option outcome" where
  "soul_hgetall iter soul key now =
     (case get_valid_value soul key now of
        (soul', Some (Hash m)) \<Rightarrow> (soul', Inr (Some (hash_entries iter m)))
      | (soul', Some _) \<Rightarrow> (soul', Inl (IncorrectUsage HGETALL))
      | (soul', None) \<Rightarrow> (soul', Inr None))"

lemmas [operations] = soul_hset_def soul_hget_def soul_hmget_def soul_hdel_def soul_hexists_def
  soul_hlen_def soul_hgetall_def

subsection \<open>The loops\<close>

definition put_all :: "(bytes \<times> bytes) list \<Rightarrow> (bytes, bytes) fmap \<Rightarrow> (bytes, bytes) fmap" where
  "put_all ps m = foldl (\<lambda>m (field, v). fmupd field v m) m ps"

lemma put_all_Cons [simp]: "put_all ((field, v) # ps) m = put_all ps (fmupd field v m)"
  by (simp add: put_all_def)

lemma put_all_Nil [simp]: "put_all [] m = m"
  by (simp add: put_all_def)

lemma fmlookup_put_all: "fmlookup (put_all ps m) = fmlookup m ++ map_of (rev ps)"
proof (induction ps arbitrary: m)
  case (Cons p ps)
  then show ?case by (cases p) (auto simp: fun_eq_iff map_add_def split: option.splits)
qed simp

lemma hset_loop_correct:
  "hset_loop m ps n =
     (put_all ps m, n + of_nat (card (fst ` set ps - fset (fmdom m))))"
proof (induction m ps n rule: hset_loop.induct)
  case (1 m n)
  then show ?case by simp
next
  case (2 m f v ps n)
  show ?case
  proof (cases "fmlookup m f")
    case None
    then have f: "f |\<notin>| fmdom m" by (simp add: fmdom_notI)
    have "fst ` set ((f, v) # ps) - fset (fmdom m) =
        insert f (fst ` set ps - fset (fmdom (fmupd f v m)))" using f by auto
    then have "card (fst ` set ((f, v) # ps) - fset (fmdom m)) =
        Suc (card (fst ` set ps - fset (fmdom (fmupd f v m))))" by simp
    with None "2.IH" show ?thesis by (simp add: add.assoc)
  next
    case (Some w)
    then have f: "f |\<in>| fmdom m" by (rule fmdomI)
    then have "fst ` set ((f, v) # ps) - fset (fmdom m) =
        fst ` set ps - fset (fmdom (fmupd f v m))" by auto
    with Some "2.IH" show ?thesis by simp
  qed
qed

lemma hset_fresh_loop_correct:
  "hset_fresh_loop m ps n = (put_all ps m, n + of_nat (length ps))"
  by (induction m ps n rule: hset_fresh_loop.induct) (simp_all add: add.assoc)

definition drop_all :: "bytes list \<Rightarrow> (bytes, bytes) fmap \<Rightarrow> (bytes, bytes) fmap" where
  "drop_all flds m = foldl (\<lambda>m field. fmdrop field m) m flds"

lemma drop_all_simps [simp]: "drop_all [] m = m" "drop_all (f # fs) m = drop_all fs (fmdrop f m)"
  by (simp_all add: drop_all_def)

lemma fmlookup_drop_all: "fmlookup (drop_all fs m) = (fmlookup m) |` (- set fs)"
proof (induction fs arbitrary: m)
  case Nil
  then show ?case by (simp add: restrict_map_def)
next
  case (Cons f fs)
  then show ?case by (auto simp: restrict_map_def fun_eq_iff)
qed

lemma hdel_loop_correct:
  "hdel_loop m fs n = (drop_all fs m, n + of_nat (card (set fs \<inter> fset (fmdom m))))"
proof (induction m fs n rule: hdel_loop.induct)
  case (1 m n)
  then show ?case by simp
next
  case (2 m f fs n)
  show ?case
  proof (cases "fmlookup m f")
    case None
    then have "set (f # fs) \<inter> fset (fmdom m) = set fs \<inter> fset (fmdom (fmdrop f m))"
      using fmdom_notI[of m f] by auto
    with None "2.IH" show ?thesis by simp
  next
    case (Some w)
    then have "f |\<in>| fmdom m" by (rule fmdomI)
    then have "set (f # fs) \<inter> fset (fmdom m) = insert f (set fs \<inter> fset (fmdom (fmdrop f m)))"
      by auto
    then have "card (set (f # fs) \<inter> fset (fmdom m)) = Suc (card (set fs \<inter> fset (fmdom (fmdrop f m))))"
      by simp
    with Some "2.IH" show ?thesis by (simp add: add.assoc)
  qed
qed

subsection \<open>The cell functions and their refinement\<close>

definition new_fields :: "(bytes \<times> bytes) list \<Rightarrow> (bytes, bytes) fmap \<Rightarrow> nat" where
  "new_fields ps m = card (fst ` set ps - fset (fmdom m))"

definition cell_hset :: "(bytes \<times> bytes) list \<Rightarrow> entry option \<Rightarrow> entry option \<times> u32 outcome" where
  "cell_hset ps = cell_update as_hash
     (\<lambda>m. (Some (Hash (put_all ps m)), Inr (of_nat (new_fields ps m))))
     (Some (Hash (put_all ps fmempty)), Inr (of_nat (length ps))) HSET"

definition cell_hget :: "bytes \<Rightarrow> entry option \<Rightarrow> entry option \<times> bytes option outcome" where
  "cell_hget field = cell_read as_hash (\<lambda>m. fmlookup m field) None HGET"

definition cell_hmget :: "bytes list \<Rightarrow> entry option \<Rightarrow> entry option \<times> bytes option list option outcome" where
  "cell_hmget flds = cell_read as_hash (\<lambda>m. Some (map (fmlookup m) flds)) None HMGET"

definition cell_hdel :: "bytes list \<Rightarrow> entry option \<Rightarrow> entry option \<times> u32 outcome" where
  "cell_hdel flds = cell_update as_hash
     (\<lambda>m. (Some (Hash (drop_all flds m)), Inr (of_nat (card (set flds \<inter> fset (fmdom m))))))
     (None, Inr 0) HDEL"

definition cell_hexists :: "bytes \<Rightarrow> entry option \<Rightarrow> entry option \<times> u32 outcome" where
  "cell_hexists field = cell_read as_hash (\<lambda>m. if fmlookup m field \<noteq> None then 1 else 0) 0 HEXISTS"

definition cell_hlen :: "entry option \<Rightarrow> entry option \<times> nat outcome" where
  "cell_hlen = cell_read as_hash (\<lambda>m. fcard (fmdom m)) 0 HLEN"

definition cell_hgetall ::
  "(bytes fset \<Rightarrow> bytes list) \<Rightarrow> entry option \<Rightarrow> entry option \<times> bytes option list option outcome" where
  "cell_hgetall iter = cell_read as_hash (\<lambda>m. Some (hash_entries iter m)) None HGETALL"

interpretation hget: typed_reader live fmlookup get_valid_value
  "\<lambda>f s k now. soul_hget s k f now" as_hash "\<lambda>f m. fmlookup m f" "\<lambda>_. None" HGET
  by unfold_locales (auto simp: soul_hget_def split: op_splits)

interpretation hmget: typed_reader live fmlookup get_valid_value
  "\<lambda>fs s k now. soul_hmget s k fs now" as_hash "\<lambda>fs m. Some (map (fmlookup m) fs)" "\<lambda>_. None" HMGET
  by unfold_locales (auto simp: soul_hmget_def split: op_splits)

interpretation hexists: typed_reader live fmlookup get_valid_value
  "\<lambda>f s k now. soul_hexists s k f now" as_hash "\<lambda>f m. if fmlookup m f \<noteq> None then 1 else 0" "\<lambda>_. 0" HEXISTS
  by unfold_locales (auto simp: soul_hexists_def split: op_splits)

interpretation hlen: typed_reader live fmlookup get_valid_value
  "\<lambda>(_::unit) s k now. soul_hlen s k now" as_hash "\<lambda>_ m. fcard (fmdom m)" "\<lambda>_. 0" HLEN
  by unfold_locales (auto simp: soul_hlen_def split: op_splits)

interpretation hgetall: typed_reader live fmlookup get_valid_value
  "\<lambda>iter s k now. soul_hgetall iter s k now" as_hash "\<lambda>iter m. Some (hash_entries iter m)" "\<lambda>_. None" HGETALL
  by unfold_locales (auto simp: soul_hgetall_def split: op_splits)

interpretation hset: typed_updater live fmlookup get_mut_valid_value write_value soul_set fmdrop
  "\<lambda>ps s k now. soul_hset s k ps now" as_hash
  "\<lambda>ps m. (Some (Hash (put_all ps m)), Inr (of_nat (new_fields ps m)))"
  "\<lambda>ps. (Some (Hash (put_all ps fmempty)), Inr (of_nat (length ps)))" HSET
  by unfold_locales
    (auto simp: soul_hset_def soul_set_def hset_loop_correct hset_fresh_loop_correct new_fields_def
      split: op_splits)

interpretation hdel: typed_updater live fmlookup get_mut_valid_value write_value soul_set fmdrop
  "\<lambda>fs s k now. soul_hdel s k fs now" as_hash
  "\<lambda>fs m. (Some (Hash (drop_all fs m)), Inr (of_nat (card (set fs \<inter> fset (fmdom m)))))"
  "\<lambda>_. (None, Inr 0)" HDEL
  by unfold_locales (auto simp: soul_hdel_def hdel_loop_correct split: op_splits)

lemma hget_refines: "soul_refines (\<lambda>s. soul_hget s k f now) k now (cell_hget f)"
  unfolding cell_hget_def by (rule hget.act_refines)

lemma hmget_refines: "soul_refines (\<lambda>s. soul_hmget s k fs now) k now (cell_hmget fs)"
  unfolding cell_hmget_def by (rule hmget.act_refines)

lemma hexists_refines: "soul_refines (\<lambda>s. soul_hexists s k f now) k now (cell_hexists f)"
  unfolding cell_hexists_def by (rule hexists.act_refines)

lemma hlen_refines: "soul_refines (\<lambda>s. soul_hlen s k now) k now cell_hlen"
  unfolding cell_hlen_def by (rule hlen.act_refines)

lemma hgetall_refines: "soul_refines (\<lambda>s. soul_hgetall iter s k now) k now (cell_hgetall iter)"
  unfolding cell_hgetall_def by (rule hgetall.act_refines)

lemma hset_refines: "soul_refines (\<lambda>s. soul_hset s k ps now) k now (cell_hset ps)"
  unfolding cell_hset_def by (rule hset.act_refines)

lemma hdel_refines: "soul_refines (\<lambda>s. soul_hdel s k fs now) k now (cell_hdel fs)"
  unfolding cell_hdel_def by (rule hdel.act_refines)

end
