(* ===== verification/SoulLists.thy ===== *)
theory SoulLists
  imports Keyspace
begin

section \<open>List operations (\<open>src/temple/soul.rs\<close>)\<close>

text \<open>
  \<open>lpush\<close>, \<open>rpush\<close>, \<open>lpop\<close>, \<open>lpop_m\<close>, \<open>rpop\<close>, \<open>rpop_m\<close>, \<open>llen\<close>, \<open>lrange\<close>, \<open>lindex\<close>, \<open>lset\<close> and \<open>lrem\<close>.
  A \<open>VecDeque\<close> is a list, its front first. Indices are \<open>i32\<close>: the casts and the additions that can
  wrap are written with \<open>wrap_i32\<close>. Where the code indexes a deque (\<open>list[i]\<close>, \<open>list.range\<close>) an
  index out of range panics: those operations return an option, \<open>None\<close> for the panic.
\<close>

subsection \<open>Pushing and popping\<close>

fun push_front_loop :: "bytes list \<Rightarrow> bytes list \<Rightarrow> bytes list" where
  "push_front_loop xs [] = xs"
| "push_front_loop xs (e # es) = push_front_loop (e # xs) es"

fun push_back_loop :: "bytes list \<Rightarrow> bytes list \<Rightarrow> bytes list" where
  "push_back_loop xs [] = xs"
| "push_back_loop xs (e # es) = push_back_loop (xs @ [e]) es"

definition soul_lpush :: "soul \<Rightarrow> bytes \<Rightarrow> bytes list \<Rightarrow> u64 \<Rightarrow> soul \<times> nat outcome" where
  "soul_lpush soul key elements now =
     (case get_mut_valid_value soul key now of
        (soul', Some (List xs)) \<Rightarrow>
          (let xs' = push_front_loop xs elements
           in (write_value soul' key (List xs'), Inr (length xs')))
      | (soul', Some _) \<Rightarrow> (soul', Inl (IncorrectUsage LPUSH))
      | (soul', None) \<Rightarrow> (fmupd key (List (rev elements), None) soul', Inr (length elements)))"

definition soul_rpush :: "soul \<Rightarrow> bytes \<Rightarrow> bytes list \<Rightarrow> u64 \<Rightarrow> soul \<times> nat outcome" where
  "soul_rpush soul key elements now =
     (case get_mut_valid_value soul key now of
        (soul', Some (List xs)) \<Rightarrow>
          (let xs' = push_back_loop xs elements
           in (write_value soul' key (List xs'), Inr (length xs')))
      | (soul', Some _) \<Rightarrow> (soul', Inl (IncorrectUsage RPUSH))
      | (soul', None) \<Rightarrow> (fmupd key (List elements, None) soul', Inr (length elements)))"

fun pop_front :: "bytes list \<Rightarrow> bytes option \<times> bytes list" where
  "pop_front [] = (None, [])"
| "pop_front (x # xs) = (Some x, xs)"

definition pop_back :: "bytes list \<Rightarrow> bytes option \<times> bytes list" where
  "pop_back xs = (if xs = [] then (None, []) else (Some (last xs), butlast xs))"

text \<open>
  The pops use the hash table's entry interface: the expiry is looked at only once the value is
  known to be a list.
\<close>

definition entry_expired :: "u64 option \<Rightarrow> u64 \<Rightarrow> bool" where
  "entry_expired expiry now = (case expiry of Some e \<Rightarrow> e < now | None \<Rightarrow> False)"

definition soul_lpop :: "soul \<Rightarrow> bytes \<Rightarrow> u64 \<Rightarrow> soul \<times> bytes option outcome" where
  "soul_lpop soul key now =
     (case fmlookup soul key of
        Some (List xs, expiry) \<Rightarrow>
          if entry_expired expiry now then (fmdrop key soul, Inr None)
          else (let (element, xs') = pop_front xs
                in (if xs' = [] then fmdrop key soul else fmupd key (List xs', expiry) soul, Inr element))
      | Some _ \<Rightarrow> (soul, Inl (IncorrectUsage LPOP))
      | None \<Rightarrow> (soul, Inr None))"

fun pop_front_loop :: "nat \<Rightarrow> bytes list \<Rightarrow> bytes option list \<Rightarrow> bytes option list \<times> bytes list" where
  "pop_front_loop 0 xs popped = (popped, xs)"
| "pop_front_loop (Suc n) xs popped =
     (case pop_front xs of
        (Some x, xs') \<Rightarrow> pop_front_loop n xs' (popped @ [Some x])
      | (None, xs') \<Rightarrow> (popped, xs'))"

definition soul_lpop_m :: "soul \<Rightarrow> bytes \<Rightarrow> nat \<Rightarrow> u64 \<Rightarrow> soul \<times> bytes option list option outcome" where
  "soul_lpop_m soul key count now =
     (case fmlookup soul key of
        Some (List xs, expiry) \<Rightarrow>
          if entry_expired expiry now then (fmdrop key soul, Inr None)
          else (let (popped, xs') = pop_front_loop count xs []
                in (if xs' = [] then fmdrop key soul else fmupd key (List xs', expiry) soul,
                    Inr (Some popped)))
      | Some _ \<Rightarrow> (soul, Inl (IncorrectUsage LPOP))
      | None \<Rightarrow> (soul, Inr None))"

definition soul_rpop :: "soul \<Rightarrow> bytes \<Rightarrow> u64 \<Rightarrow> soul \<times> bytes option outcome" where
  "soul_rpop soul key now =
     (case fmlookup soul key of
        Some (List xs, expiry) \<Rightarrow>
          if entry_expired expiry now then (fmdrop key soul, Inr None)
          else (let (element, xs') = pop_back xs
                in (if xs' = [] then fmdrop key soul else fmupd key (List xs', expiry) soul, Inr element))
      | Some _ \<Rightarrow> (soul, Inl (IncorrectUsage RPOP))
      | None \<Rightarrow> (soul, Inr None))"

fun pop_back_loop :: "nat \<Rightarrow> bytes list \<Rightarrow> bytes option list \<Rightarrow> bytes option list \<times> bytes list" where
  "pop_back_loop 0 xs popped = (popped, xs)"
| "pop_back_loop (Suc n) xs popped =
     (case pop_back xs of
        (Some x, xs') \<Rightarrow> pop_back_loop n xs' (popped @ [Some x])
      | (None, xs') \<Rightarrow> (popped, xs'))"

definition soul_rpop_m :: "soul \<Rightarrow> bytes \<Rightarrow> nat \<Rightarrow> u64 \<Rightarrow> soul \<times> bytes option list option outcome" where
  "soul_rpop_m soul key count now =
     (case fmlookup soul key of
        Some (List xs, expiry) \<Rightarrow>
          if entry_expired expiry now then (fmdrop key soul, Inr None)
          else (let (popped, xs') = pop_back_loop count xs []
                in (if xs' = [] then fmdrop key soul else fmupd key (List xs', expiry) soul,
                    Inr (Some popped)))
      | Some _ \<Rightarrow> (soul, Inl (IncorrectUsage RPOP))
      | None \<Rightarrow> (soul, Inr None))"

subsection \<open>Indexing\<close>

definition soul_llen :: "soul \<Rightarrow> bytes \<Rightarrow> u64 \<Rightarrow> soul \<times> nat outcome" where
  "soul_llen soul key now =
     (case get_valid_value soul key now of
        (soul', Some (List xs)) \<Rightarrow> (soul', Inr (length xs))
      | (soul', Some _) \<Rightarrow> (soul', Inl (IncorrectUsage LLEN))
      | (soul', None) \<Rightarrow> (soul', Inr 0))"

text \<open>\<open>list.range(a..b)\<close> panics unless \<open>a \<le> b \<le> len\<close>; \<open>i as usize\<close> of a negative \<open>i\<close> is huge.\<close>

definition as_usize :: "int \<Rightarrow> nat" where
  "as_usize i = nat (i mod 2 ^ 64)"

definition deque_range :: "bytes list \<Rightarrow> nat \<Rightarrow> nat \<Rightarrow> bytes list option" where
  "deque_range xs a b = (if a \<le> b \<and> b \<le> length xs then Some (take (b - a) (drop a xs)) else None)"

definition lrange_indices :: "int \<Rightarrow> int \<Rightarrow> int \<Rightarrow> int \<times> int" where
  "lrange_indices list_len starting_index ending_index =
     (let s1 = if starting_index < 0 then wrap_i32 (starting_index + list_len) else starting_index;
          e1 = if ending_index < 0 then wrap_i32 (ending_index + list_len) else ending_index;
          s2 = if s1 < 0 then 0 else s1;
          e2 = if e1 \<ge> list_len then wrap_i32 (list_len - 1) else e1
      in (s2, e2))"

definition lrange_list :: "bytes list \<Rightarrow> int \<Rightarrow> int \<Rightarrow> bytes list option" where
  "lrange_list xs starting_index ending_index =
     (let list_len = wrap_i32 (int (length xs));
          (s, e) = lrange_indices list_len starting_index ending_index
      in if wrap_i32 (e - s) \<ge> 0 \<and> s < list_len \<and> e < list_len
         then deque_range xs (as_usize s) (as_usize (wrap_i32 (e + 1)))
         else Some [])"

definition soul_lrange ::
  "soul \<Rightarrow> bytes \<Rightarrow> int \<Rightarrow> int \<Rightarrow> u64 \<Rightarrow> (soul \<times> bytes option list option outcome) option" where
  "soul_lrange soul key starting_index ending_index now =
     (case get_valid_value soul key now of
        (soul', Some (List xs)) \<Rightarrow>
          map_option (\<lambda>ys. (soul', Inr (Some (map Some ys)))) (lrange_list xs starting_index ending_index)
      | (soul', Some _) \<Rightarrow> Some (soul', Inl (IncorrectUsage LRANGE))
      | (soul', None) \<Rightarrow> Some (soul', Inr (Some [])))"

definition lindex_list :: "bytes list \<Rightarrow> int \<Rightarrow> bytes option" where
  "lindex_list xs index =
     (let list_len = wrap_i32 (int (length xs));
          i = if index < 0 then wrap_i32 (index + list_len) else index
      in if i < 0 \<or> i \<ge> list_len then None
         else if as_usize i < length xs then Some (xs ! as_usize i) else None)"

definition soul_lindex :: "soul \<Rightarrow> bytes \<Rightarrow> int \<Rightarrow> u64 \<Rightarrow> soul \<times> bytes option outcome" where
  "soul_lindex soul key index now =
     (case get_valid_value soul key now of
        (soul', Some (List xs)) \<Rightarrow> (soul', Inr (lindex_list xs index))
      | (soul', Some _) \<Rightarrow> (soul', Inl (IncorrectUsage LINDEX))
      | (soul', None) \<Rightarrow> (soul', Inr None))"

text \<open>\<open>lset_list\<close>: \<open>Some None\<close> is the index error, \<open>None\<close> the panic of \<open>list[i] = element\<close>.\<close>

definition lset_list :: "bytes list \<Rightarrow> int \<Rightarrow> bytes \<Rightarrow> bytes list option option" where
  "lset_list xs index element =
     (let list_len = wrap_i32 (int (length xs));
          i = if index < 0 then wrap_i32 (index + list_len) else index
      in if i < 0 \<or> i \<ge> list_len then Some None
         else if as_usize i < length xs then Some (Some (xs[as_usize i := element])) else None)"

definition soul_lset :: "soul \<Rightarrow> bytes \<Rightarrow> int \<Rightarrow> bytes \<Rightarrow> u64 \<Rightarrow> (soul \<times> unit outcome) option" where
  "soul_lset soul key index element now =
     (case get_mut_valid_value soul key now of
        (soul', Some (List xs)) \<Rightarrow>
          (case lset_list xs index element of
             None \<Rightarrow> None
           | Some None \<Rightarrow> Some (soul', Inl (IncorrectUsage LSET))
           | Some (Some xs') \<Rightarrow> Some (write_value soul' key (List xs'), Inr ()))
      | (soul', Some _) \<Rightarrow> Some (soul', Inl (IncorrectUsage LSET))
      | (soul', None) \<Rightarrow> Some (soul', Inl (IncorrectUsage LSET)))"

subsection \<open>Removal by value\<close>

definition remove_at :: "nat \<Rightarrow> 'a list \<Rightarrow> 'a list" where
  "remove_at i xs = take i xs @ drop (Suc i) xs"

lemma length_remove_at: "i < length xs \<Longrightarrow> length (remove_at i xs) = length xs - 1"
  by (simp add: remove_at_def)

text \<open>The loop of a negative count: from the back, \<open>idx\<close> an \<open>i32\<close>.\<close>

function lrem_back :: "bytes \<Rightarrow> bytes list \<Rightarrow> int \<Rightarrow> int \<Rightarrow> bytes list option" where
  "lrem_back element xs idx count =
     (if idx \<ge> 0 \<and> count < 0 then
        (if as_usize idx < length xs then
           (if xs ! as_usize idx = element
            then lrem_back element (remove_at (as_usize idx) xs) (idx - 1) (count + 1)
            else lrem_back element xs (idx - 1) count)
         else None)
      else Some xs)"
  by pat_completeness auto
termination
  by (relation "measure (\<lambda>(element, xs, idx, count). nat (idx + 1))") auto

text \<open>The loop of a positive count: from the front.\<close>

function lrem_front :: "bytes \<Rightarrow> bytes list \<Rightarrow> nat \<Rightarrow> nat \<Rightarrow> int \<Rightarrow> bytes list option" where
  "lrem_front element xs list_len idx count =
     (if idx < list_len \<and> count > 0 then
        (if idx < length xs then
           (if xs ! idx = element
            then lrem_front element (remove_at idx xs) (list_len - 1) idx (count - 1)
            else lrem_front element xs list_len (idx + 1) count)
         else None)
      else Some xs)"
  by pat_completeness auto
termination
  by (relation "measure (\<lambda>(element, xs, list_len, idx, count). list_len - idx)") auto

declare lrem_back.simps [simp del] lrem_front.simps [simp del]

definition lrem_list :: "bytes list \<Rightarrow> int \<Rightarrow> bytes \<Rightarrow> bytes list option" where
  "lrem_list xs count element =
     (if count < 0 then
        lrem_back element xs (wrap_i32 (wrap_i32 (int (length xs)) - 1)) count
      else if count > 0 then lrem_front element xs (length xs) 0 count
      else Some (filter (\<lambda>x. x \<noteq> element) xs))"

definition soul_lrem :: "soul \<Rightarrow> bytes \<Rightarrow> int \<Rightarrow> bytes \<Rightarrow> u64 \<Rightarrow> (soul \<times> nat outcome) option" where
  "soul_lrem soul key count element now =
     (case get_mut_valid_value soul key now of
        (soul', Some (List xs)) \<Rightarrow>
          (case lrem_list xs count element of
             None \<Rightarrow> None
           | Some xs' \<Rightarrow> Some (write_value soul' key (List xs'), Inr (length xs - length xs')))
      | (soul', Some _) \<Rightarrow> Some (soul', Inl (IncorrectUsage LREM))
      | (soul', None) \<Rightarrow> Some (soul', Inr 0))"

lemmas [operations] = soul_lpush_def soul_rpush_def soul_lpop_def soul_lpop_m_def soul_rpop_def
  soul_rpop_m_def soul_llen_def soul_lrange_def soul_lindex_def soul_lset_def soul_lrem_def

subsection \<open>The loops\<close>

lemma push_front_loop_eq: "push_front_loop xs es = rev es @ xs"
  by (induction xs es rule: push_front_loop.induct) simp_all

lemma push_back_loop_eq: "push_back_loop xs es = xs @ es"
  by (induction xs es rule: push_back_loop.induct) simp_all

lemma pop_front_loop_eq: "pop_front_loop n xs acc = (acc @ map Some (take n xs), drop n xs)"
proof (induction n arbitrary: xs acc)
  case (Suc n)
  then show ?case by (cases xs) simp_all
qed simp

lemma pop_back_loop_eq:
  "pop_back_loop n xs acc = (acc @ map Some (take n (rev xs)), take (length xs - n) xs)"
proof (induction n arbitrary: xs acc)
  case (Suc n)
  show ?case
  proof (cases xs rule: rev_cases)
    case (snoc ys y)
    with Suc show ?thesis by (simp add: pop_back_def)
  qed (simp add: pop_back_def)
qed simp

text \<open>Removing the first \<open>n\<close> occurrences: what \<open>LREM\<close> promises.\<close>

fun remove_first :: "nat \<Rightarrow> 'a \<Rightarrow> 'a list \<Rightarrow> 'a list" where
  "remove_first 0 x ys = ys"
| "remove_first (Suc n) x [] = []"
| "remove_first (Suc n) x (y # ys) =
     (if y = x then remove_first n x ys else y # remove_first (Suc n) x ys)"

lemma lrem_front_eq:
  assumes "list_len = length xs" and "idx \<le> length xs"
  shows "lrem_front e xs list_len idx count =
    Some (take idx xs @ remove_first (nat count) e (drop idx xs))"
  using assms
proof (induction e xs list_len idx count rule: lrem_front.induct)
  case (1 e xs list_len idx count)
  show ?case
  proof (cases "idx < list_len \<and> count > 0")
    case False
    then have "lrem_front e xs list_len idx count = Some xs"
      by (simp only: lrem_front.simps[of e xs list_len idx count] if_False)
    with False "1.prems" show ?thesis by (cases "nat count") auto
  next
    case True
    then obtain n where n: "nat count = Suc n" by (cases "nat count") auto
    from True have n': "nat (count - 1) = n" using n by simp
    from True "1.prems" have lt: "idx < length xs" by simp
    then have d: "drop idx xs = xs ! idx # drop (Suc idx) xs" by (simp add: Cons_nth_drop_Suc)
    show ?thesis
    proof (cases "xs ! idx = e")
      case eq: True
      have "lrem_front e (remove_at idx xs) (list_len - 1) idx (count - 1) =
          Some (take idx (remove_at idx xs) @ remove_first n e (drop idx (remove_at idx xs)))"
        using "1.IH"(1)[OF True lt eq] "1.prems" lt n' by (simp add: length_remove_at)
      with True lt eq d n show ?thesis
        by (simp add: lrem_front.simps[of e xs list_len idx count] remove_at_def)
    next
      case neq: False
      have "lrem_front e xs list_len (idx + 1) count =
          Some (take (idx + 1) xs @ remove_first (nat count) e (drop (idx + 1) xs))"
        using "1.IH"(2)[OF True lt neq] "1.prems" lt by simp
      with True lt neq d n show ?thesis
        by (simp add: lrem_front.simps[of e xs list_len idx count] take_Suc_conv_app_nth)
    qed
  qed
qed

lemma as_usize_nat [simp]: "0 \<le> i \<Longrightarrow> i < 2 ^ 64 \<Longrightarrow> as_usize i = nat i"
  by (simp add: as_usize_def)

lemma lrem_back_eq:
  assumes "- 1 \<le> idx" and "idx < int (length xs)" and "idx < 2 ^ 31"
  shows "lrem_back e xs idx count =
    Some (rev (remove_first (nat (- count)) e (rev (take (nat (idx + 1)) xs))) @ drop (nat (idx + 1)) xs)"
  using assms
proof (induction e xs idx count rule: lrem_back.induct)
  case (1 e xs idx count)
  show ?case
  proof (cases "idx \<ge> 0 \<and> count < 0")
    case False
    then have "lrem_back e xs idx count = Some xs"
      by (simp only: lrem_back.simps[of e xs idx count] if_False)
    moreover from False "1.prems" have "idx = - 1 \<or> nat (- count) = 0" by auto
    ultimately show ?thesis by (cases "nat (- count)") auto
  next
    case True
    then obtain n where n: "nat (- count) = Suc n" by (cases "nat (- count)") auto
    then have n': "nat (- (count + 1)) = n" by simp
    from True "1.prems" have u: "as_usize idx = nat idx" by simp
    let ?i = "nat idx"
    from True "1.prems" have lt: "?i < length xs" by (simp add: nat_less_iff)
    have s: "nat (idx + 1) = Suc ?i" "nat (idx - 1 + 1) = ?i" using True by auto
    have r: "rev (take (Suc ?i) xs) = xs ! ?i # rev (take ?i xs)"
      using lt by (simp add: take_Suc_conv_app_nth)
    show ?thesis
    proof (cases "xs ! ?i = e")
      case eq: True
      have "lrem_back e (remove_at ?i xs) (idx - 1) (count + 1) =
          Some (rev (remove_first n e (rev (take ?i (remove_at ?i xs)))) @ drop ?i (remove_at ?i xs))"
        using "1.IH"(1)[OF True] "1.prems" True lt eq n' s u by (simp add: length_remove_at)
      with True lt eq n r s u show ?thesis
        by (simp add: lrem_back.simps[of e xs idx count] remove_at_def)
    next
      case neq: False
      have "lrem_back e xs (idx - 1) count =
          Some (rev (remove_first (nat (- count)) e (rev (take ?i xs))) @ drop ?i xs)"
        using "1.IH"(2)[OF True] "1.prems" True lt neq s u by simp
      with True lt neq n r s u show ?thesis
        by (simp add: lrem_back.simps[of e xs idx count] Cons_nth_drop_Suc)
    qed
  qed
qed

lemma lrem_back_stop: "idx < 0 \<Longrightarrow> lrem_back e xs idx count = Some xs"
  by (subst lrem_back.simps) simp

text \<open>The indices of \<open>LRANGE\<close> and their meaning: a slice, both ends included and clamped.\<close>

definition slice :: "'a list \<Rightarrow> int \<Rightarrow> int \<Rightarrow> 'a list" where
  "slice xs a b =
     (let n = int (length xs);
          s = max 0 (if a < 0 then a + n else a);
          e = min (n - 1) (if b < 0 then b + n else b)
      in take (nat (e - s + 1)) (drop (nat s) xs))"

lemma wrap_i32_mod: "\<exists>k. wrap_i32 x = x + 2 ^ 32 * k"
proof -
  have "wrap_i32 x = x + 2 ^ 32 * (- ((x + 2 ^ 31) div 2 ^ 32))"
    unfolding wrap_i32_def by (simp add: minus_div_mult_eq_mod [symmetric])
  then show ?thesis by blast
qed

lemma wrap_i32_le: "0 \<le> x \<Longrightarrow> wrap_i32 x \<le> x"
proof -
  assume x: "0 \<le> x"
  have "(x + 2 ^ 31) mod 2 ^ 32 \<le> x + 2 ^ 31" using x by (intro zmod_le_nonneg_dividend) simp
  then show ?thesis unfolding wrap_i32_def by linarith
qed

lemma lrange_indices_in_range:
  assumes "is_i32 n" and "is_i32 a" and "is_i32 b" and "lrange_indices n a b = (s, e)"
    and "s < n" and "e < n"
  shows "0 \<le> s \<and> - (2 ^ 31) < e - s \<and> e - s < 2 ^ 31 \<and>
    s = max 0 (if a < 0 then a + n else a) \<and> e = min (n - 1) (if b < 0 then b + n else b)"
proof -
  have s0: "0 \<le> s" using assms(2,4) by (auto simp: lrange_indices_def Let_def split: if_splits)
  with assms(5) have n0: "0 < n" by simp
  have wa: "a < 0 \<Longrightarrow> wrap_i32 (a + n) = a + n" and wb: "b < 0 \<Longrightarrow> wrap_i32 (b + n) = b + n"
    and wn: "wrap_i32 (n - 1) = n - 1"
    using assms(1-3) n0 by (auto simp: is_i32_def intro!: wrap_i32_id)
  from assms(4) have s: "s = max 0 (if a < 0 then a + n else a)"
    and e: "e = min (n - 1) (if b < 0 then b + n else b)"
    by (auto simp: lrange_indices_def Let_def wa wb wn max_def min_def)
  have "- (2 ^ 31) + n \<le> e"
    using assms(1,3) n0 by (auto simp: e is_i32_def)
  moreover have "s < n" "s \<le> 2 ^ 31 - 1" using assms(1,5) by (auto simp: is_i32_def)
  ultimately show ?thesis using s0 s e assms(6) n0 assms(1) by (auto simp: is_i32_def)
qed

lemma deque_range_window:
  assumes "0 \<le> s" and "s \<le> e" and "e < n" and "n \<le> int (length xs)" and "n < 2 ^ 31"
  shows "deque_range xs (as_usize s) (as_usize (wrap_i32 (e + 1))) =
    Some (take (nat (e - s + 1)) (drop (nat s) xs))"
proof -
  have "wrap_i32 (e + 1) = e + 1" using assms by (intro wrap_i32_id) (simp add: is_i32_def)
  moreover have "as_usize s = nat s" using assms by (intro as_usize_nat) simp_all
  moreover have "as_usize (e + 1) = nat (e + 1)" using assms by (intro as_usize_nat) simp_all
  moreover have "nat (e + 1) - nat s = nat (e - s + 1)" "nat s \<le> nat (e + 1)" "nat (e + 1) \<le> length xs"
    using assms by auto
  ultimately show ?thesis by (simp only: deque_range_def if_True simp_thms)
qed

text \<open>\<open>LRANGE\<close> on any deque: the window the clamped indices give, or nothing; never a panic.\<close>

lemma lrange_list_cases:
  assumes "is_i32 a" and "is_i32 b" and n: "n = wrap_i32 (int (length xs))"
    and se: "lrange_indices n a b = (s, e)"
  shows "lrange_list xs a b =
    Some (if 0 \<le> wrap_i32 (e - s) \<and> s < n \<and> e < n then take (nat (e - s + 1)) (drop (nat s) xs) else [])"
proof (cases "0 \<le> wrap_i32 (e - s) \<and> s < n \<and> e < n")
  case False
  with n se show ?thesis by (auto simp: lrange_list_def Let_def)
next
  case True
  have i32: "is_i32 n" by (simp add: n)
  have c: "0 \<le> s" "- (2 ^ 31) < e - s" "e - s < 2 ^ 31"
    using lrange_indices_in_range[OF i32 assms(1,2) se] True by blast+
  then have "wrap_i32 (e - s) = e - s" by (intro wrap_i32_id) (simp add: is_i32_def)
  with True have "s \<le> e" by simp
  moreover have "n \<le> int (length xs)" unfolding n by (rule wrap_i32_le) simp
  moreover have "n < 2 ^ 31" using i32 by (simp add: is_i32_def)
  ultimately have "deque_range xs (as_usize s) (as_usize (wrap_i32 (e + 1))) =
      Some (take (nat (e - s + 1)) (drop (nat s) xs))"
    using True c(1) by (intro deque_range_window[where n = n]) simp_all
  with True show ?thesis
    unfolding lrange_list_def Let_def n[symmetric] se by (simp only: prod.case if_True simp_thms)
qed

lemma lrange_list_total: "is_i32 a \<Longrightarrow> is_i32 b \<Longrightarrow> lrange_list xs a b \<noteq> None"
  by (cases "lrange_indices (wrap_i32 (int (length xs))) a b") (simp add: lrange_list_cases)

lemma lrange_list_slice:
  assumes "is_i32 a" and "is_i32 b" and "length xs < 2 ^ 31"
  shows "lrange_list xs a b = Some (slice xs a b)"
proof -
  let ?n = "int (length xs)"
  have n: "wrap_i32 ?n = ?n" "is_i32 ?n" using assms(3) by (auto simp: is_i32_def)
  obtain s e where se: "lrange_indices ?n a b = (s, e)" by (cases "lrange_indices ?n a b")
  have w: "a < 0 \<Longrightarrow> wrap_i32 (a + ?n) = a + ?n" "b < 0 \<Longrightarrow> wrap_i32 (b + ?n) = b + ?n"
    "wrap_i32 (?n - 1) = ?n - 1"
    using assms by (auto simp: is_i32_def intro!: wrap_i32_id)
  from se have s: "s = max 0 (if a < 0 then a + ?n else a)"
    and e: "e = min (?n - 1) (if b < 0 then b + ?n else b)"
    by (auto simp: lrange_indices_def Let_def w max_def min_def split: if_splits)
  have slice: "slice xs a b = take (nat (e - s + 1)) (drop (nat s) xs)"
    by (simp only: slice_def Let_def s e)
  have s0: "0 \<le> s" and en: "e < ?n" unfolding s e by auto
  show ?thesis
  proof (cases "s \<le> e")
    case True
    with s0 en assms(3) have "is_i32 (e - s)" "s < ?n" by (simp_all add: is_i32_def)
    with True en lrange_list_cases[OF assms(1,2) n(1)[symmetric] se] show ?thesis
      by (simp add: slice)
  next
    case False
    then have nil: "slice xs a b = []" by (simp add: slice)
    have "\<not> (0 \<le> wrap_i32 (e - s) \<and> s < ?n \<and> e < ?n)"
    proof
      assume *: "0 \<le> wrap_i32 (e - s) \<and> s < ?n \<and> e < ?n"
      with lrange_indices_in_range[OF n(2) assms(1,2) se] have "is_i32 (e - s)"
        by (auto simp: is_i32_def)
      with * False show False by simp
    qed
    with lrange_list_cases[OF assms(1,2) n(1)[symmetric] se] nil show ?thesis by simp
  qed
qed

text \<open>The other index operations, on any deque and on one whose length fits an \<open>i32\<close>.\<close>

lemma length_i32: "length xs < 2 ^ 31 \<Longrightarrow> wrap_i32 (int (length xs)) = int (length xs)"
  by (intro wrap_i32_id) (simp add: is_i32_def)

lemma index_i32:
  "is_i32 i \<Longrightarrow> length xs < 2 ^ 31 \<Longrightarrow> i < 0 \<Longrightarrow> wrap_i32 (i + int (length xs)) = i + int (length xs)"
  by (intro wrap_i32_id) (simp add: is_i32_def)

lemma index_in_deque: "0 \<le> i \<Longrightarrow> i < wrap_i32 (int (length xs)) \<Longrightarrow> as_usize i = nat i \<and> nat i < length xs"
  using wrap_i32_le[of "int (length xs)"] wrap_i32_range[of "int (length xs)"]
  by (auto simp: is_i32_def)

definition at_index :: "'a list \<Rightarrow> int \<Rightarrow> nat option" where
  "at_index xs i =
     (let j = if i < 0 then i + int (length xs) else i
      in if 0 \<le> j \<and> j < int (length xs) then Some (nat j) else None)"

lemma lindex_list_eq:
  "is_i32 i \<Longrightarrow> length xs < 2 ^ 31 \<Longrightarrow> lindex_list xs i = map_option (\<lambda>j. xs ! j) (at_index xs i)"
  by (auto simp: lindex_list_def at_index_def length_i32 index_i32 Let_def)

lemma lset_list_total: "lset_list xs i x \<noteq> None"
  using index_in_deque[of _ xs] by (auto simp: lset_list_def Let_def)

lemma lset_list_eq:
  "is_i32 i \<Longrightarrow> length xs < 2 ^ 31 \<Longrightarrow>
     lset_list xs i x = Some (map_option (\<lambda>j. xs[j := x]) (at_index xs i))"
  by (auto simp: lset_list_def at_index_def length_i32 index_i32 Let_def)

lemma lrem_list_total: "lrem_list xs count x \<noteq> None"
proof (cases "count < 0")
  case True
  let ?n = "wrap_i32 (int (length xs))" and ?i = "wrap_i32 (wrap_i32 (int (length xs)) - 1)"
  have n: "?n \<le> int (length xs)" "is_i32 ?n" by (auto intro: wrap_i32_le)
  have "?i < int (length xs)"
  proof (cases "?n = - (2 ^ 31)")
    case True
    obtain k where "?n = int (length xs) + 2 ^ 32 * k" using wrap_i32_mod by blast
    with True have k: "int (length xs) + 4294967296 * k = - 2147483648" by simp
    then have "k < 0" by linarith
    then have "k \<le> - 1" by simp
    with k have "2147483648 \<le> int (length xs)" by linarith
    moreover from True have "?i = 2 ^ 31 - 1" by (simp add: wrap_i32_def)
    ultimately show ?thesis by simp
  next
    case False
    with n have "?i = ?n - 1" by (intro wrap_i32_id) (auto simp: is_i32_def)
    with n show ?thesis by simp
  qed
  moreover have "?i < 2 ^ 31" using wrap_i32_range[of "?n - 1"] by (simp add: is_i32_def)
  ultimately show ?thesis using True
    by (cases "- 1 \<le> ?i") (simp_all add: lrem_list_def lrem_back_eq lrem_back_stop)
next
  case False
  then show ?thesis by (simp add: lrem_list_def lrem_front_eq)
qed

definition remove_matching :: "'a list \<Rightarrow> int \<Rightarrow> 'a \<Rightarrow> 'a list" where
  "remove_matching xs count x =
     (if count < 0 then rev (remove_first (nat (- count)) x (rev xs))
      else if count > 0 then remove_first (nat count) x xs
      else filter (\<lambda>y. y \<noteq> x) xs)"

lemma lrem_list_eq:
  assumes "length xs < 2 ^ 31"
  shows "lrem_list xs count x = Some (remove_matching xs count x)"
proof (cases "count < 0")
  case True
  from assms have i: "wrap_i32 (wrap_i32 (int (length xs)) - 1) = int (length xs) - 1"
    by (auto simp: length_i32 is_i32_def intro!: wrap_i32_id)
  have "lrem_back x xs (int (length xs) - 1) count =
      Some (rev (remove_first (nat (- count)) x (rev xs)))"
    using assms by (subst lrem_back_eq) simp_all
  with True show ?thesis by (simp add: lrem_list_def remove_matching_def i)
next
  case False
  then show ?thesis by (simp add: lrem_list_def remove_matching_def lrem_front_eq)
qed

subsection \<open>The cell functions and their refinement\<close>

definition keep_list :: "bytes list \<Rightarrow> Value option" where
  "keep_list xs = (if xs = [] then None else Some (List xs))"

definition cell_lpush :: "bytes list \<Rightarrow> entry option \<Rightarrow> entry option \<times> nat outcome" where
  "cell_lpush es = cell_update as_list
     (\<lambda>xs. (Some (List (rev es @ xs)), Inr (length es + length xs))) (Some (List (rev es)), Inr (length es)) LPUSH"

definition cell_rpush :: "bytes list \<Rightarrow> entry option \<Rightarrow> entry option \<times> nat outcome" where
  "cell_rpush es = cell_update as_list
     (\<lambda>xs. (Some (List (xs @ es)), Inr (length xs + length es))) (Some (List es), Inr (length es)) RPUSH"

definition cell_lpop :: "entry option \<Rightarrow> entry option \<times> bytes option outcome" where
  "cell_lpop = cell_update as_list (\<lambda>xs. (keep_list (drop 1 xs), Inr (fst (pop_front xs)))) (None, Inr None) LPOP"

definition cell_lpop_m :: "nat \<Rightarrow> entry option \<Rightarrow> entry option \<times> bytes option list option outcome" where
  "cell_lpop_m n = cell_update as_list
     (\<lambda>xs. (keep_list (drop n xs), Inr (Some (map Some (take n xs))))) (None, Inr None) LPOP"

definition cell_rpop :: "entry option \<Rightarrow> entry option \<times> bytes option outcome" where
  "cell_rpop = cell_update as_list (\<lambda>xs. (keep_list (butlast xs), Inr (fst (pop_back xs)))) (None, Inr None) RPOP"

definition cell_rpop_m :: "nat \<Rightarrow> entry option \<Rightarrow> entry option \<times> bytes option list option outcome" where
  "cell_rpop_m n = cell_update as_list
     (\<lambda>xs. (keep_list (take (length xs - n) xs), Inr (Some (map Some (take n (rev xs)))))) (None, Inr None) RPOP"

definition cell_llen :: "entry option \<Rightarrow> entry option \<times> nat outcome" where
  "cell_llen = cell_read as_list length 0 LLEN"

definition cell_lindex :: "int \<Rightarrow> entry option \<Rightarrow> entry option \<times> bytes option outcome" where
  "cell_lindex i = cell_read as_list (\<lambda>xs. lindex_list xs i) None LINDEX"

definition cell_lrange :: "int \<Rightarrow> int \<Rightarrow> entry option \<Rightarrow> entry option \<times> bytes option list option outcome" where
  "cell_lrange a b = cell_read as_list (\<lambda>xs. Some (map Some (the (lrange_list xs a b)))) (Some []) LRANGE"

definition cell_lset :: "int \<Rightarrow> bytes \<Rightarrow> entry option \<Rightarrow> entry option \<times> unit outcome" where
  "cell_lset i x = cell_update as_list
     (\<lambda>xs. case the (lset_list xs i x) of
        None \<Rightarrow> (Some (List xs), Inl (IncorrectUsage LSET)) | Some xs' \<Rightarrow> (Some (List xs'), Inr ()))
     (None, Inl (IncorrectUsage LSET)) LSET"

definition cell_lrem :: "int \<Rightarrow> bytes \<Rightarrow> entry option \<Rightarrow> entry option \<times> nat outcome" where
  "cell_lrem count x = cell_update as_list
     (\<lambda>xs. (Some (List (the (lrem_list xs count x))), Inr (length xs - length (the (lrem_list xs count x)))))
     (None, Inr 0) LREM"

interpretation llen: typed_reader live fmlookup get_valid_value
  "\<lambda>(_::unit) s k now. soul_llen s k now" as_list "\<lambda>_. length" "\<lambda>_. 0" LLEN
  by unfold_locales (auto simp: soul_llen_def split: op_splits)

interpretation lindex: typed_reader live fmlookup get_valid_value
  "\<lambda>i s k now. soul_lindex s k i now" as_list "\<lambda>i xs. lindex_list xs i" "\<lambda>_. None" LINDEX
  by unfold_locales (auto simp: soul_lindex_def split: op_splits)

interpretation lpush: typed_updater live fmlookup get_mut_valid_value write_value soul_set fmdrop
  "\<lambda>es s k now. soul_lpush s k es now" as_list
  "\<lambda>es xs. (Some (List (rev es @ xs)), Inr (length es + length xs))"
  "\<lambda>es. (Some (List (rev es)), Inr (length es))" LPUSH
  by unfold_locales (auto simp: soul_lpush_def soul_set_def push_front_loop_eq Let_def split: op_splits)

interpretation rpush: typed_updater live fmlookup get_mut_valid_value write_value soul_set fmdrop
  "\<lambda>es s k now. soul_rpush s k es now" as_list
  "\<lambda>es xs. (Some (List (xs @ es)), Inr (length xs + length es))"
  "\<lambda>es. (Some (List es), Inr (length es))" RPUSH
  by unfold_locales (auto simp: soul_rpush_def soul_set_def push_back_loop_eq Let_def split: op_splits)

interpretation lset: typed_updater live fmlookup get_mut_valid_value write_value soul_set fmdrop
  "\<lambda>(i, x) s k now. the (soul_lset s k i x now)" as_list
  "\<lambda>(i, x) xs. case the (lset_list xs i x) of
      None \<Rightarrow> (Some (List xs), Inl (IncorrectUsage LSET)) | Some xs' \<Rightarrow> (Some (List xs'), Inr ())"
  "\<lambda>_. (None, Inl (IncorrectUsage LSET))" LSET
  by unfold_locales
    (auto simp: soul_lset_def lset_list_total write_value_def dest!: get_mut_SomeD split: op_splits)

interpretation lrem: typed_updater live fmlookup get_mut_valid_value write_value soul_set fmdrop
  "\<lambda>(count, x) s k now. the (soul_lrem s k count x now)" as_list
  "\<lambda>(count, x) xs. (Some (List (the (lrem_list xs count x))), Inr (length xs - length (the (lrem_list xs count x))))"
  "\<lambda>_. (None, Inr 0)" LREM
  by unfold_locales (auto simp: soul_lrem_def lrem_list_total split: op_splits)

lemma lset_total: "soul_lset s k i x now \<noteq> None"
  by (auto simp: soul_lset_def lset_list_total split: op_splits)

lemma lrem_total: "soul_lrem s k count x now \<noteq> None"
  by (auto simp: soul_lrem_def lrem_list_total split: op_splits)

lemma lrange_total: "is_i32 a \<Longrightarrow> is_i32 b \<Longrightarrow> soul_lrange s k a b now \<noteq> None"
  using lrange_list_total by (fastforce simp: soul_lrange_def split: op_splits)

lemma llen_refines: "soul_refines (\<lambda>s. soul_llen s k now) k now cell_llen"
  unfolding cell_llen_def by (rule llen.act_refines)

lemma lindex_refines: "soul_refines (\<lambda>s. soul_lindex s k i now) k now (cell_lindex i)"
  unfolding cell_lindex_def by (rule lindex.act_refines)

lemma lpush_refines: "soul_refines (\<lambda>s. soul_lpush s k es now) k now (cell_lpush es)"
  unfolding cell_lpush_def by (rule lpush.act_refines)

lemma rpush_refines: "soul_refines (\<lambda>s. soul_rpush s k es now) k now (cell_rpush es)"
  unfolding cell_rpush_def by (rule rpush.act_refines)

lemma lset_refines: "soul_refines (\<lambda>s. the (soul_lset s k i x now)) k now (cell_lset i x)"
  unfolding cell_lset_def using lset.act_refines[of "(i, x)"] by simp

lemma lrem_refines: "soul_refines (\<lambda>s. the (soul_lrem s k count x now)) k now (cell_lrem count x)"
  unfolding cell_lrem_def using lrem.act_refines[of "(count, x)"] by simp

interpretation lrange: typed_reader live fmlookup get_valid_value
  "\<lambda>(a, b) s k now. the (soul_lrange s k (wrap_i32 a) (wrap_i32 b) now)" as_list
  "\<lambda>(a, b) xs. Some (map Some (the (lrange_list xs (wrap_i32 a) (wrap_i32 b))))" "\<lambda>_. Some []" LRANGE
  by unfold_locales (auto simp: soul_lrange_def option.map_sel lrange_list_total split: op_splits)

lemma lrange_refines:
  "is_i32 a \<Longrightarrow> is_i32 b \<Longrightarrow> soul_refines (\<lambda>s. the (soul_lrange s k a b now)) k now (cell_lrange a b)"
  unfolding cell_lrange_def using lrange.act_refines[of "(a, b)"] by simp

text \<open>
  The pops implement their cells except on one kind of store: an expired key that holds no list.
  There the code answers \<open>IncorrectUsage\<close> and leaves the dead entry, because the expiry is compared
  only in the list branch.
\<close>

definition stale_other :: "soul \<Rightarrow> bytes \<Rightarrow> u64 \<Rightarrow> bool" where
  "stale_other soul key now =
     (case fmlookup soul key of Some (v, Some e) \<Rightarrow> e < now \<and> as_list v = None | _ \<Rightarrow> False)"

definition refines_at ::
  "(soul \<Rightarrow> soul \<times> 'r) \<Rightarrow> soul \<Rightarrow> bytes \<Rightarrow> u64 \<Rightarrow> (entry option \<Rightarrow> entry option \<times> 'r) \<Rightarrow> bool" where
  "refines_at act s k now cell =
     (live now (fst (act s)) = (live now s)(k := fst (cell (live now s k)))
      \<and> snd (act s) = snd (cell (live now s k))
      \<and> (\<forall>k'. k' \<noteq> k \<longrightarrow> fmlookup (fst (act s)) k' = fmlookup s k'))"

lemma refines_at_soul: "soul_refines act k now cell \<Longrightarrow> refines_at act s k now cell"
  by (simp add: refines_cell_def refines_at_def)

text \<open>The four pops share one shape, so one lemma covers them.\<close>

lemma pop_refines_at:
  assumes act: "act s = (case fmlookup s k of
      Some (List xs, expiry) \<Rightarrow>
        if entry_expired expiry now then (fmdrop k s, Inr None)
        else (if rest xs = [] then fmdrop k s else fmupd k (List (rest xs), expiry) s, Inr (got xs))
    | Some _ \<Rightarrow> (s, Inl (IncorrectUsage cmd))
    | None \<Rightarrow> (s, Inr None))"
    and fresh: "\<not> stale_other s k now"
  shows "refines_at act s k now
    (cell_update as_list (\<lambda>xs. (keep_list (rest xs), Inr (got xs))) (None, Inr None) cmd)"
proof (cases "fmlookup s k")
  case None
  then show ?thesis
    by (auto simp: refines_at_def act cell_update_def live_def fun_eq_iff)
next
  case (Some e)
  obtain v x where e: "e = (v, x)" by (cases e)
  show ?thesis
  proof (cases v)
    case (List xs)
    with Some e show ?thesis
      by (auto simp: refines_at_def act cell_update_def keep_list_def entry_expired_def live_def
          alive_def fun_eq_iff split: option.splits)
  qed (use Some e fresh in
      \<open>auto simp: refines_at_def act cell_update_def stale_other_def live_def alive_def fun_eq_iff
        split: option.splits if_splits\<close>)
qed

lemma pop_stale:
  assumes act: "act s = (case fmlookup s k of
      Some (List xs, expiry) \<Rightarrow>
        if entry_expired expiry now then (fmdrop k s, Inr None)
        else (if rest xs = [] then fmdrop k s else fmupd k (List (rest xs), expiry) s, Inr (got xs))
    | Some _ \<Rightarrow> (s, Inl (IncorrectUsage cmd))
    | None \<Rightarrow> (s, Inr None))"
    and stale: "stale_other s k now"
  shows "act s = (s, Inl (IncorrectUsage cmd))" and "live now s k = None"
  using stale by (auto simp: act stale_other_def live_def split: op_splits)

lemma pop_let:
  "(let (element, xs') = pop_front xs in F element xs') = F (fst (pop_front xs)) (drop 1 xs)"
  "(let (element, xs') = pop_back xs in F element xs') = F (fst (pop_back xs)) (butlast xs)"
  "(let (popped, xs') = pop_front_loop n xs [] in G popped xs') = G (map Some (take n xs)) (drop n xs)"
  "(let (popped, xs') = pop_back_loop n xs [] in G popped xs') =
     G (map Some (take n (rev xs))) (take (length xs - n) xs)"
  by (cases xs, simp_all add: pop_back_def pop_front_loop_eq pop_back_loop_eq)

lemmas pop_shapes = soul_lpop_def soul_lpop_m_def soul_rpop_def soul_rpop_m_def pop_let

lemma lpop_refines_at:
  "\<not> stale_other s k now \<Longrightarrow> refines_at (\<lambda>s. soul_lpop s k now) s k now cell_lpop"
  unfolding cell_lpop_def by (rule pop_refines_at) (simp_all only: pop_shapes not_False_eq_True)

lemma lpop_m_refines_at:
  "\<not> stale_other s k now \<Longrightarrow> refines_at (\<lambda>s. soul_lpop_m s k n now) s k now (cell_lpop_m n)"
  unfolding cell_lpop_m_def by (rule pop_refines_at) (simp_all only: pop_shapes not_False_eq_True)

lemma rpop_refines_at:
  "\<not> stale_other s k now \<Longrightarrow> refines_at (\<lambda>s. soul_rpop s k now) s k now cell_rpop"
  unfolding cell_rpop_def by (rule pop_refines_at) (simp_all only: pop_shapes not_False_eq_True)

lemma rpop_m_refines_at:
  "\<not> stale_other s k now \<Longrightarrow> refines_at (\<lambda>s. soul_rpop_m s k n now) s k now (cell_rpop_m n)"
  unfolding cell_rpop_m_def by (rule pop_refines_at) (simp_all only: pop_shapes not_False_eq_True)

end
