(* ===== verification/SoulSets.thy ===== *)
theory SoulSets
  imports Keyspace
begin

section \<open>Set operations (\<open>src/temple/soul.rs\<close>)\<close>

text \<open>
  \<open>sadd\<close>, \<open>srem\<close>, \<open>sismember\<close> and \<open>smembers\<close>. A \<open>HashSet\<close> is a finite set; \<open>smembers\<close> takes its
  iteration order as the parameter \<open>iter\<close>. \<open>srem\<close> removes the key with its last member.
\<close>

fun sadd_loop :: "bytes fset \<Rightarrow> bytes list \<Rightarrow> nat \<Rightarrow> bytes fset \<times> nat" where
  "sadd_loop S [] count = (S, count)"
| "sadd_loop S (v # vs) count =
     sadd_loop (finsert v S) vs (if v |\<in>| S then count else count + 1)"

definition soul_sadd :: "soul \<Rightarrow> bytes \<Rightarrow> bytes list \<Rightarrow> u64 \<Rightarrow> soul \<times> nat outcome" where
  "soul_sadd soul key vs now =
     (case get_mut_valid_value soul key now of
        (soul', Some (Set S)) \<Rightarrow>
          (let (S', count) = sadd_loop S vs 0 in (write_value soul' key (Set S'), Inr count))
      | (soul', Some _) \<Rightarrow> (soul', Inl (IncorrectUsage SADD))
      | (soul', None) \<Rightarrow>
          (let (S', count) = sadd_loop {||} vs 0 in (fmupd key (Set S', None) soul', Inr count)))"

fun srem_loop :: "bytes fset \<Rightarrow> bytes list \<Rightarrow> nat \<Rightarrow> bytes fset \<times> nat" where
  "srem_loop S [] count = (S, count)"
| "srem_loop S (v # vs) count =
     srem_loop (S |-| {|v|}) vs (if v |\<in>| S then count + 1 else count)"

definition soul_srem :: "soul \<Rightarrow> bytes \<Rightarrow> bytes list \<Rightarrow> u64 \<Rightarrow> soul \<times> nat outcome" where
  "soul_srem soul key vs now =
     (case get_mut_valid_value soul key now of
        (soul', Some (Set S)) \<Rightarrow>
          (let (S', count) = srem_loop S vs 0;
               soul'' = write_value soul' key (Set S')
           in (if S' = {||} then fmdrop key soul'' else soul'', Inr count))
      | (soul', Some _) \<Rightarrow> (soul', Inl (IncorrectUsage SREM))
      | (soul', None) \<Rightarrow> (soul', Inr 0))"

definition soul_sismember :: "soul \<Rightarrow> bytes \<Rightarrow> bytes \<Rightarrow> u64 \<Rightarrow> soul \<times> nat outcome" where
  "soul_sismember soul key v now =
     (case get_valid_value soul key now of
        (soul', Some (Set S)) \<Rightarrow> (soul', if v |\<in>| S then Inr 1 else Inr 0)
      | (soul', Some _) \<Rightarrow> (soul', Inl (IncorrectUsage SISMEMBER))
      | (soul', None) \<Rightarrow> (soul', Inr 0))"

definition soul_smembers ::
  "(bytes fset \<Rightarrow> bytes list) \<Rightarrow> soul \<Rightarrow> bytes \<Rightarrow> u64 \<Rightarrow> soul \<times> bytes option list option outcome" where
  "soul_smembers iter soul key now =
     (case get_valid_value soul key now of
        (soul', Some (Set S)) \<Rightarrow> (soul', Inr (Some (map Some (iter S))))
      | (soul', Some _) \<Rightarrow> (soul', Inl (IncorrectUsage SMEMBERS))
      | (soul', None) \<Rightarrow> (soul', Inr None))"

lemmas [operations] = soul_sadd_def soul_srem_def soul_sismember_def soul_smembers_def

subsection \<open>The loops\<close>

lemma sadd_loop_correct:
  "sadd_loop S vs n = (S |\<union>| fset_of_list vs, n + card (set vs - fset S))"
proof (induction S vs n rule: sadd_loop.induct)
  case (1 S n)
  then show ?case by simp
next
  case (2 S v vs n)
  have U: "S |\<union>| fset_of_list (v # vs) = finsert v S |\<union>| fset_of_list vs" by auto
  show ?case
  proof (cases "v |\<in>| S")
    case True
    then have "set (v # vs) - fset S = set vs - fset (finsert v S)" by auto
    with True "2.IH" show ?thesis by (simp only: sadd_loop.simps U if_True)
  next
    case False
    then have "set (v # vs) - fset S = insert v (set vs - fset (finsert v S))" by auto
    then have "card (set (v # vs) - fset S) = Suc (card (set vs - fset (finsert v S)))" by simp
    with False "2.IH" show ?thesis by (simp only: sadd_loop.simps U if_False) simp
  qed
qed

lemma srem_loop_correct:
  "srem_loop S vs n = (S |-| fset_of_list vs, n + card (set vs \<inter> fset S))"
proof (induction S vs n rule: srem_loop.induct)
  case (1 S n)
  then show ?case by simp
next
  case (2 S v vs n)
  have S: "S |-| fset_of_list (v # vs) = S |-| {|v|} |-| fset_of_list vs" by auto
  show ?case
  proof (cases "v |\<in>| S")
    case True
    then have "set (v # vs) \<inter> fset S = insert v (set vs \<inter> fset (S |-| {|v|}))" by auto
    then have "card (set (v # vs) \<inter> fset S) = Suc (card (set vs \<inter> fset (S |-| {|v|})))" by simp
    with True "2.IH" S show ?thesis by simp
  next
    case False
    then have "set (v # vs) \<inter> fset S = set vs \<inter> fset (S |-| {|v|})" by auto
    with False "2.IH" S show ?thesis by simp
  qed
qed

subsection \<open>The cell functions and their refinement\<close>

definition cell_sadd :: "bytes list \<Rightarrow> entry option \<Rightarrow> entry option \<times> nat outcome" where
  "cell_sadd vs = cell_update as_set
     (\<lambda>S. (Some (Set (S |\<union>| fset_of_list vs)), Inr (card (set vs - fset S))))
     (Some (Set (fset_of_list vs)), Inr (card (set vs))) SADD"

definition cell_srem :: "bytes list \<Rightarrow> entry option \<Rightarrow> entry option \<times> nat outcome" where
  "cell_srem vs = cell_update as_set
     (\<lambda>S. (if S |\<subseteq>| fset_of_list vs then None else Some (Set (S |-| fset_of_list vs)),
           Inr (card (set vs \<inter> fset S))))
     (None, Inr 0) SREM"

definition cell_sismember :: "bytes \<Rightarrow> entry option \<Rightarrow> entry option \<times> nat outcome" where
  "cell_sismember v = cell_read as_set (\<lambda>S. if v |\<in>| S then 1 else 0) 0 SISMEMBER"

definition cell_smembers ::
  "(bytes fset \<Rightarrow> bytes list) \<Rightarrow> entry option \<Rightarrow> entry option \<times> bytes option list option outcome" where
  "cell_smembers iter = cell_read as_set (\<lambda>S. Some (map Some (iter S))) None SMEMBERS"

interpretation sismember: typed_reader live fmlookup get_valid_value
  "\<lambda>v s k now. soul_sismember s k v now" as_set "\<lambda>v S. if v |\<in>| S then 1 else 0" "\<lambda>_. 0" SISMEMBER
  by unfold_locales (auto simp: soul_sismember_def split: op_splits)

interpretation smembers: typed_reader live fmlookup get_valid_value
  "\<lambda>iter s k now. soul_smembers iter s k now" as_set "\<lambda>iter S. Some (map Some (iter S))" "\<lambda>_. None" SMEMBERS
  by unfold_locales (auto simp: soul_smembers_def split: op_splits)

interpretation sadd: typed_updater live fmlookup get_mut_valid_value write_value soul_set fmdrop
  "\<lambda>vs s k now. soul_sadd s k vs now" as_set
  "\<lambda>vs S. (Some (Set (S |\<union>| fset_of_list vs)), Inr (card (set vs - fset S)))"
  "\<lambda>vs. (Some (Set (fset_of_list vs)), Inr (card (set vs)))" SADD
  by unfold_locales (auto simp: soul_sadd_def soul_set_def sadd_loop_correct split: op_splits)

lemma fminus_empty_iff: "(S |-| T = {||}) = (S |\<subseteq>| T)"
  by auto

interpretation srem: typed_updater live fmlookup get_mut_valid_value write_value soul_set fmdrop
  "\<lambda>vs s k now. soul_srem s k vs now" as_set
  "\<lambda>vs S. (if S |\<subseteq>| fset_of_list vs then None else Some (Set (S |-| fset_of_list vs)),
      Inr (card (set vs \<inter> fset S)))" "\<lambda>_. (None, Inr 0)" SREM
  by unfold_locales
    (simp add: soul_srem_def srem_loop_correct fminus_empty_iff Let_def split: option.split prod.split Value.split)

lemma sismember_refines: "soul_refines (\<lambda>s. soul_sismember s k v now) k now (cell_sismember v)"
  unfolding cell_sismember_def by (rule sismember.act_refines)

lemma smembers_refines: "soul_refines (\<lambda>s. soul_smembers iter s k now) k now (cell_smembers iter)"
  unfolding cell_smembers_def by (rule smembers.act_refines)

lemma sadd_refines: "soul_refines (\<lambda>s. soul_sadd s k vs now) k now (cell_sadd vs)"
  unfolding cell_sadd_def by (rule sadd.act_refines)

lemma srem_refines: "soul_refines (\<lambda>s. soul_srem s k vs now) k now (cell_srem vs)"
  unfolding cell_srem_def by (rule srem.act_refines)

end
