(* ===== verification/PubSub.thy ===== *)
theory PubSub
  imports Protocol
begin

section \<open>Subscriptions (\<open>src/temple.rs\<close>: \<open>ClientMap\<close>, \<open>EventMap\<close>)\<close>

text \<open>
  The god thread keeps subscriptions twice: \<open>EventMap\<close> from a client to its events, \<open>ClientMap\<close> from
  an event to its clients, and the set \<open>subscribed_clients\<close>. This theory models the operations of
  both maps and states the invariant that ties the three together.
\<close>

type_synonym client_map = "(bytes, token fset) fmap"
type_synonym event_map = "(token, bytes fset) fmap"

subsection \<open>\<open>ClientMap\<close>\<close>

fun client_map_subscribe :: "client_map \<Rightarrow> token \<Rightarrow> bytes list \<Rightarrow> client_map" where
  "client_map_subscribe cm token [] = cm"
| "client_map_subscribe cm token (event # events) =
     (case fmlookup cm event of
        Some S \<Rightarrow> client_map_subscribe (fmupd event (finsert token S) cm) token events
      | None \<Rightarrow> client_map_subscribe (fmupd event {|token|} cm) token events)"

fun client_map_unsubscribe_loop :: "client_map \<Rightarrow> token \<Rightarrow> (bytes \<times> nat) list \<Rightarrow> client_map" where
  "client_map_unsubscribe_loop cm token [] = cm"
| "client_map_unsubscribe_loop cm token ((event, _) # events) =
     (case fmlookup cm event of
        Some S \<Rightarrow>
          (let S' = S |-| {|token|} in
           client_map_unsubscribe_loop
             (if S' = {||} then fmdrop event (fmupd event S' cm) else fmupd event S' cm) token events)
      | None \<Rightarrow> client_map_unsubscribe_loop cm token events)"

definition client_map_unsubscribe :: "client_map \<Rightarrow> token \<Rightarrow> (bytes \<times> nat) list option \<Rightarrow> client_map" where
  "client_map_unsubscribe cm token events =
     (case events of None \<Rightarrow> cm | Some evs \<Rightarrow> client_map_unsubscribe_loop cm token evs)"

definition client_map_publish :: "(token fset \<Rightarrow> token list) \<Rightarrow> client_map \<Rightarrow> bytes \<Rightarrow> token list" where
  "client_map_publish iter cm event =
     (case fmlookup cm event of Some clients \<Rightarrow> iter clients | None \<Rightarrow> [])"

subsection \<open>\<open>EventMap\<close>\<close>

fun subscribe_loop ::
  "bytes fset \<Rightarrow> bytes list \<Rightarrow> nat \<Rightarrow> (bytes \<times> nat) list \<Rightarrow> bytes fset \<times> (bytes \<times> nat) list" where
  "subscribe_loop S [] count result = (S, result)"
| "subscribe_loop S (event # events) count result =
     (if event |\<in>| S then subscribe_loop S events count result
      else subscribe_loop (finsert event S) events (count + 1) (result @ [(event, count + 1)]))"

definition event_map_subscribe ::
  "event_map \<Rightarrow> token \<Rightarrow> bytes list \<Rightarrow> event_map \<times> (bytes \<times> nat) list" where
  "event_map_subscribe em token events =
     (case fmlookup em token of
        Some S \<Rightarrow>
          (let (S', result) = subscribe_loop S events (fcard S) []
           in (fmupd token S' em, result))
      | None \<Rightarrow>
          (let (S', result) = subscribe_loop {||} events 0 []
           in (fmupd token S' em, result)))"

text \<open>\<open>count -= 1\<close> cannot underflow here: an event is removed only while the set holds it.\<close>

fun unsubscribe_loop ::
  "bytes fset \<Rightarrow> bytes list \<Rightarrow> nat \<Rightarrow> (bytes \<times> nat) list \<Rightarrow> bytes fset \<times> (bytes \<times> nat) list" where
  "unsubscribe_loop S [] count result = (S, result)"
| "unsubscribe_loop S (event # events) count result =
     (let count' = (if event |\<in>| S then count - 1 else count)
      in unsubscribe_loop (S |-| {|event|}) events count' (result @ [(event, count')]))"

fun unsubscribe_all_loop :: "bytes list \<Rightarrow> nat \<Rightarrow> (bytes \<times> nat) list \<Rightarrow> (bytes \<times> nat) list" where
  "unsubscribe_all_loop [] count result = result"
| "unsubscribe_all_loop (event # events) count result =
     unsubscribe_all_loop events (count - 1) (result @ [(event, count - 1)])"

definition event_map_unsubscribe ::
  "(bytes fset \<Rightarrow> bytes list) \<Rightarrow> event_map \<Rightarrow> bytes list \<Rightarrow> token \<Rightarrow> token fset \<Rightarrow>
   event_map \<times> token fset \<times> (bytes \<times> nat) list option" where
  "event_map_unsubscribe iter em events token subscribed_clients =
     (case fmlookup em token of
        Some existing \<Rightarrow>
          (if events \<noteq> [] then
             (let (S', result) = unsubscribe_loop existing events (fcard existing) [];
                  em' = fmupd token S' em
              in if S' = {||} then (fmdrop token em', subscribed_clients |-| {|token|}, Some result)
                 else (em', subscribed_clients, Some result))
           else
             (let unsubscribed = iter existing;
                  result = unsubscribe_all_loop unsubscribed (length unsubscribed) []
              in (fmdrop token em, subscribed_clients |-| {|token|}, Some result)))
      | None \<Rightarrow> (em, subscribed_clients, None))"

lemmas [operations] = client_map_unsubscribe_def client_map_publish_def event_map_subscribe_def
  event_map_unsubscribe_def

subsection \<open>What the operations do to the relation of clients and events\<close>

definition clients_of :: "client_map \<Rightarrow> bytes \<Rightarrow> token fset" where
  "clients_of cm event = (case fmlookup cm event of Some S \<Rightarrow> S | None \<Rightarrow> {||})"

definition events_of :: "event_map \<Rightarrow> token \<Rightarrow> bytes fset" where
  "events_of em token = (case fmlookup em token of Some S \<Rightarrow> S | None \<Rightarrow> {||})"

lemma clients_of_upd [simp]: "clients_of (fmupd e S cm) e' = (if e' = e then S else clients_of cm e')"
  by (simp add: clients_of_def)

lemma clients_of_drop [simp]: "clients_of (fmdrop e cm) e' = (if e' = e then {||} else clients_of cm e')"
  by (simp add: clients_of_def)

lemma events_of_upd [simp]: "events_of (fmupd t S em) t' = (if t' = t then S else events_of em t')"
  by (simp add: events_of_def)

lemma events_of_drop [simp]: "events_of (fmdrop t em) t' = (if t' = t then {||} else events_of em t')"
  by (simp add: events_of_def)

lemma client_map_subscribe_clients:
  "clients_of (client_map_subscribe cm t evs) e =
     (if e \<in> set evs then finsert t (clients_of cm e) else clients_of cm e)"
proof (induction cm t evs rule: client_map_subscribe.induct)
  case (2 cm t ev evs)
  have ev: "fmlookup cm ev = None \<Longrightarrow> clients_of cm ev = {||}"
    "fmlookup cm ev = Some S \<Longrightarrow> clients_of cm ev = S" for S by (simp_all add: clients_of_def)
  show ?case
  proof (cases "fmlookup cm ev")
    case None
    with "2.IH"(1)[OF None] ev(1)[OF None] show ?thesis by auto
  next
    case (Some S)
    with "2.IH"(2)[OF Some] ev(2)[OF Some] show ?thesis by auto
  qed
qed simp

lemma client_map_unsubscribe_loop_clients:
  "clients_of (client_map_unsubscribe_loop cm t evs) e =
     (if e \<in> fst ` set evs then clients_of cm e |-| {|t|} else clients_of cm e)"
proof (induction cm t evs rule: client_map_unsubscribe_loop.induct)
  case (2 cm t ev n evs)
  show ?case
  proof (cases "fmlookup cm ev")
    case None
    then have "clients_of cm ev = {||}" by (simp add: clients_of_def)
    with None "2.IH"(1)[OF None] show ?thesis by auto
  next
    case (Some S)
    then have "clients_of cm ev = S" by (simp add: clients_of_def)
    with Some "2.IH"(2)[OF Some refl] show ?thesis by (auto simp: Let_def)
  qed
qed simp

lemma subscribe_loop_set: "fst (subscribe_loop S evs n acc) = S |\<union>| fset_of_list evs"
  by (induction S evs n acc rule: subscribe_loop.induct) auto

lemma unsubscribe_loop_set: "fst (unsubscribe_loop S evs n acc) = S |-| fset_of_list evs"
  by (induction S evs n acc rule: unsubscribe_loop.induct) (auto simp: Let_def)

lemma unsubscribe_loop_events:
  "map fst (snd (unsubscribe_loop S evs n acc)) = map fst acc @ evs"
  by (induction S evs n acc rule: unsubscribe_loop.induct) (auto simp: Let_def)

lemma unsubscribe_all_loop_eq:
  "unsubscribe_all_loop evs n acc = acc @ zip evs (map (\<lambda>i. n - Suc i) [0..<length evs])"
proof (induction evs n acc rule: unsubscribe_all_loop.induct)
  case (2 ev evs n acc)
  have "map (\<lambda>i. n - Suc i) [0..<Suc (length evs)] =
      (n - 1) # map (\<lambda>i. n - 1 - Suc i) [0..<length evs]"
    by (simp add: map_upt_Suc del: upt_Suc)
  with "2.IH" show ?case by (simp del: upt_Suc)
qed simp

lemma event_map_subscribe_events:
  "events_of (fst (event_map_subscribe em t evs)) t' =
     (if t' = t then events_of em t |\<union>| fset_of_list evs else events_of em t')"
  by (auto simp: event_map_subscribe_def events_of_def Let_def subscribe_loop_set case_prod_unfold
      split: option.splits)

text \<open>The confirmations of a subscription: the new events, numbered on from the old count.\<close>

fun new_events :: "bytes fset \<Rightarrow> bytes list \<Rightarrow> bytes list" where
  "new_events S [] = []"
| "new_events S (e # es) = (if e |\<in>| S then new_events S es else e # new_events (finsert e S) es)"

lemma new_events_distinct: "distinct (new_events S es) \<and> set (new_events S es) = set es - fset S"
  by (induction S es rule: new_events.induct) auto

lemma subscribe_loop_result:
  "snd (subscribe_loop S evs n acc) =
     acc @ zip (new_events S evs) [Suc n ..< Suc n + length (new_events S evs)]"
proof (induction S evs n acc rule: subscribe_loop.induct)
  case (2 S e es n acc)
  then show ?case by (auto simp: upt_conv_Cons simp del: upt_Suc)
qed simp

text \<open>\<open>UNSUBSCRIBE\<close> removes exactly the events named, or all of them when none is named.\<close>

lemma unsubscribe_events:
  assumes "event_map_unsubscribe iter em evs t sc = (em', sc', r)"
  shows "events_of em' t' =
      (if t' = t then (if evs = [] then {||} else events_of em t |-| fset_of_list evs) else events_of em t')"
  using assms
  by (auto simp: event_map_unsubscribe_def events_of_def Let_def case_prod_unfold unsubscribe_loop_set
      split: option.splits if_splits)

lemma unsubscribe_None:
  "event_map_unsubscribe iter em evs t sc = (em', sc', None) \<Longrightarrow> em' = em \<and> sc' = sc \<and> fmlookup em t = None"
  by (auto simp: event_map_unsubscribe_def Let_def case_prod_unfold split: option.splits if_splits)

lemma reported_events:
  "fst ` set (snd (unsubscribe_loop S evs n [])) = set evs"
  "fst ` set (unsubscribe_all_loop us (length us) []) = set us"
  using unsubscribe_loop_events[of S evs n "[]"]
  by (simp_all add: unsubscribe_all_loop_eq flip: set_map)

lemma unsubscribe_reports:
  assumes "hash_iteration iter"
    and "event_map_unsubscribe iter em evs t sc = (em', sc', Some res)"
  shows "fst ` set res = (if evs = [] then fset (events_of em t) else set evs)"
proof -
  from assms(2) obtain S where S: "fmlookup em t = Some S"
    by (auto simp: event_map_unsubscribe_def split: option.splits)
  show ?thesis
  proof (cases "evs = []")
    case True
    with assms(2) S have "res = unsubscribe_all_loop (iter S) (length (iter S)) []"
      by (simp add: event_map_unsubscribe_def Let_def)
    with True S show ?thesis
      by (simp only: reported_events hash_iteration.iter_set[OF assms(1)] events_of_def option.case if_True simp_thms)
  next
    case False
    with assms(2) S have "res = snd (unsubscribe_loop S evs (fcard S) [])"
      by (auto simp: event_map_unsubscribe_def Let_def case_prod_unfold split: if_splits)
    with False show ?thesis by (simp only: reported_events if_False)
  qed
qed

lemma unsubscribe_presence:
  assumes "event_map_unsubscribe iter em evs t sc = (em', sc', r)" and "fmlookup em t \<noteq> Some {||}"
  shows "fmlookup em' t' =
      (if t' = t then (if events_of em' t = {||} then None else Some (events_of em' t)) else fmlookup em t')"
    and "sc' = (if events_of em' t = {||} \<and> fmlookup em t \<noteq> None then sc |-| {|t|} else sc)"
  using assms
  by (auto simp: event_map_unsubscribe_def events_of_def Let_def case_prod_unfold unsubscribe_loop_set
      split: option.splits if_splits)

subsection \<open>The invariant of the three structures\<close>

text \<open>
  The two maps are inverse to each other, neither stores an empty set, and \<open>subscribed_clients\<close> is
  the domain of \<open>EventMap\<close>.
\<close>

definition pubsub_consistent :: "client_map \<Rightarrow> event_map \<Rightarrow> token fset \<Rightarrow> bool" where
  "pubsub_consistent cm em sc \<longleftrightarrow>
     (\<forall>e t. t |\<in>| clients_of cm e \<longleftrightarrow> e |\<in>| events_of em t) \<and>
     (\<forall>e. fmlookup cm e \<noteq> Some {||}) \<and>
     (\<forall>t. fmlookup em t \<noteq> Some {||}) \<and>
     (\<forall>t. t |\<in>| sc \<longleftrightarrow> fmlookup em t \<noteq> None)"

lemma pubsub_consistentD:
  assumes "pubsub_consistent cm em sc"
  shows "t |\<in>| clients_of cm e \<longleftrightarrow> e |\<in>| events_of em t"
    and "fmlookup cm e \<noteq> Some {||}" and "fmlookup em t \<noteq> Some {||}"
    and "t |\<in>| sc \<longleftrightarrow> fmlookup em t \<noteq> None"
  using assms by (auto simp: pubsub_consistent_def)

lemma pubsub_consistent_empty: "pubsub_consistent fmempty fmempty {||}"
  by (simp add: pubsub_consistent_def clients_of_def events_of_def)

lemma client_map_subscribe_nonempty:
  "(\<And>e. fmlookup cm e \<noteq> Some {||}) \<Longrightarrow> fmlookup (client_map_subscribe cm t evs) e \<noteq> Some {||}"
proof (induction cm t evs rule: client_map_subscribe.induct)
  case (2 cm t ev evs)
  then show ?case by (cases "fmlookup cm ev") auto
qed simp

lemma client_map_unsubscribe_nonempty:
  "(\<And>e. fmlookup cm e \<noteq> Some {||}) \<Longrightarrow> fmlookup (client_map_unsubscribe_loop cm t evs) e \<noteq> Some {||}"
proof (induction cm t evs rule: client_map_unsubscribe_loop.induct)
  case (2 cm t ev n evs)
  show ?case
  proof (cases "fmlookup cm ev")
    case None
    with 2 show ?thesis by simp
  next
    case (Some S)
    with "2.IH"(2)[OF Some refl] "2.prems" show ?thesis by (auto simp: Let_def)
  qed
qed simp

lemma subscribe_consistent:
  assumes inv: "pubsub_consistent cm em sc" and evs: "evs \<noteq> []"
  shows "pubsub_consistent (client_map_subscribe cm t evs) (fst (event_map_subscribe em t evs))
    (finsert t sc)"
proof -
  let ?em = "fst (event_map_subscribe em t evs)"
  have em: "fmlookup ?em t' = (if t' = t then Some (events_of em t |\<union>| fset_of_list evs) else fmlookup em t')" for t'
    by (auto simp: event_map_subscribe_def events_of_def Let_def subscribe_loop_set case_prod_unfold
        split: option.splits)
  have "events_of em t |\<union>| fset_of_list evs \<noteq> {||}" using evs by (cases evs) auto
  then show ?thesis
    using inv client_map_subscribe_nonempty[of cm t evs]
    by (auto simp: pubsub_consistent_def client_map_subscribe_clients event_map_subscribe_events em
        fset_of_list_elem)
qed

lemma unsubscribe_consistent:
  assumes inv: "pubsub_consistent cm em sc" and it: "hash_iteration iter"
    and un: "event_map_unsubscribe iter em evs t sc = (em', sc', r)"
  shows "pubsub_consistent (client_map_unsubscribe cm t r) em' sc'"
proof (cases r)
  case None
  with inv un unsubscribe_None show ?thesis by (fastforce simp: client_map_unsubscribe_def)
next
  case (Some res)
  note em = unsubscribe_presence[OF un pubsub_consistentD(3)[OF inv]]
  note ev = unsubscribe_events[OF un]
  note reports = unsubscribe_reports[OF it un[unfolded Some]]
  have mem: "fmlookup em t \<noteq> None"
    using un Some by (auto simp: event_map_unsubscribe_def split: option.splits)
  show ?thesis
    unfolding pubsub_consistent_def
  proof (intro conjI allI)
    fix e t'
    show "t' |\<in>| clients_of (client_map_unsubscribe cm t r) e \<longleftrightarrow> e |\<in>| events_of em' t'"
      using pubsub_consistentD(1)[OF inv]
      by (auto simp: client_map_unsubscribe_def Some client_map_unsubscribe_loop_clients ev reports
          fset_of_list_elem)
    show "fmlookup (client_map_unsubscribe cm t r) e \<noteq> Some {||}"
      using pubsub_consistentD(2)[OF inv]
      by (simp add: client_map_unsubscribe_def Some client_map_unsubscribe_nonempty)
    show "fmlookup em' t' \<noteq> Some {||}"
      using pubsub_consistentD(3)[OF inv, of t'] by (auto simp: em(1))
    show "t' |\<in>| sc' \<longleftrightarrow> fmlookup em' t' \<noteq> None"
      using pubsub_consistentD(4)[OF inv] mem by (auto simp: em)
  qed
qed

end
