(* ===== verification/Snapshot.thy ===== *)
theory Snapshot
  imports Keyspace
begin

section \<open>Saving and loading the key space (\<open>src/temple/soul.rs\<close>, \<open>src/temple.rs\<close>)\<close>

text \<open>
  \<open>Soul::save\<close> archives the key space with \<open>rkyv\<close> and writes the file; the god thread reads the
  same file when it starts. \<open>rkyv\<close> is third-party code, so its two directions are parameters (an
  \<open>archiver\<close>). The file system is a map from paths to contents, with what a failing write reports
  and leaves behind; \<open>std::str::from_utf8\<close> is modelled in full, because an invalid path ends in
  an empty key space when loading and in a panic when saving.
\<close>

record archiver =
  to_bytes :: "soul \<Rightarrow> bytes + bytes"
  from_bytes :: "bytes \<Rightarrow> soul option"

datatype server_error =
    SerializationError bytes
  | FileWriteError bytes
  | ValueNotSet

subsection \<open>The file system\<close>

record disk =
  disk_files :: "bytes \<Rightarrow> bytes option"
  disk_failure :: "bytes \<Rightarrow> (bytes \<times> bytes option) option"

definition fs_read :: "disk \<Rightarrow> bytes \<Rightarrow> bytes option" where
  "fs_read disk path = disk_files disk path"

definition fs_write :: "disk \<Rightarrow> bytes \<Rightarrow> bytes \<Rightarrow> disk \<times> (bytes + unit)" where
  "fs_write disk path contents =
     (case disk_failure disk path of
        Some (message, left) \<Rightarrow> (disk\<lparr>disk_files := (disk_files disk)(path := left)\<rparr>, Inl message)
      | None \<Rightarrow> (disk\<lparr>disk_files := (disk_files disk)(path := Some contents)\<rparr>, Inr ()))"

subsection \<open>UTF-8\<close>

definition utf8_cont :: "u8 \<Rightarrow> bool" where
  "utf8_cont c = (0x80 \<le> c \<and> c \<le> 0xBF)"

text \<open>The ranges of the second byte of a three-byte and of a four-byte sequence.\<close>

definition utf8_second3 :: "u8 \<Rightarrow> u8 \<Rightarrow> bool" where
  "utf8_second3 b c = ((if b = 0xE0 then 0xA0 else 0x80) \<le> c \<and> c \<le> (if b = 0xED then 0x9F else 0xBF))"

definition utf8_second4 :: "u8 \<Rightarrow> u8 \<Rightarrow> bool" where
  "utf8_second4 b c = ((if b = 0xF0 then 0x90 else 0x80) \<le> c \<and> c \<le> (if b = 0xF4 then 0x8F else 0xBF))"

fun utf8_valid :: "bytes \<Rightarrow> bool" where
  "utf8_valid [] = True"
| "utf8_valid (b # bs) =
     (if b < 0x80 then utf8_valid bs
      else if 0xC2 \<le> b \<and> b \<le> 0xDF then
        (case bs of c # r \<Rightarrow> utf8_cont c \<and> utf8_valid r | _ \<Rightarrow> False)
      else if 0xE0 \<le> b \<and> b \<le> 0xEF then
        (case bs of c # d # r \<Rightarrow> utf8_second3 b c \<and> utf8_cont d \<and> utf8_valid r | _ \<Rightarrow> False)
      else if 0xF0 \<le> b \<and> b \<le> 0xF4 then
        (case bs of c # d # e # r \<Rightarrow> utf8_second4 b c \<and> utf8_cont d \<and> utf8_cont e \<and> utf8_valid r
         | _ \<Rightarrow> False)
      else False)"

text \<open>One rewrite rule per length of the first sequence, in place of the nested conditional.\<close>

lemma utf8_lead:
  "b < 0x80 \<Longrightarrow> utf8_valid (b # bs) = utf8_valid bs"
  "\<not> b < 0x80 \<Longrightarrow> 0xC2 \<le> b \<and> b \<le> 0xDF \<Longrightarrow>
     utf8_valid (b # bs) = (\<exists>c r. bs = c # r \<and> utf8_cont c \<and> utf8_valid r)"
  "\<not> b < 0x80 \<Longrightarrow> \<not> (0xC2 \<le> b \<and> b \<le> 0xDF) \<Longrightarrow> 0xE0 \<le> b \<and> b \<le> 0xEF \<Longrightarrow>
     utf8_valid (b # bs) = (\<exists>c d r. bs = c # d # r \<and> utf8_second3 b c \<and> utf8_cont d \<and> utf8_valid r)"
  "\<not> b < 0x80 \<Longrightarrow> \<not> (0xC2 \<le> b \<and> b \<le> 0xDF) \<Longrightarrow> \<not> (0xE0 \<le> b \<and> b \<le> 0xEF) \<Longrightarrow>
     utf8_valid (b # bs) = (0xF0 \<le> b \<and> b \<le> 0xF4 \<and>
       (\<exists>c d e r. bs = c # d # e # r \<and> utf8_second4 b c \<and> utf8_cont d \<and> utf8_cont e \<and> utf8_valid r))"
  by (simp, (simp only: utf8_valid.simps(2) if_False if_True simp_thms,
      (rule refl | simp only: if_False if_True split: list.split if_split, blast)?)+)

declare utf8_valid.simps(2) [simp del]

lemma utf8_valid_append: "utf8_valid xs \<Longrightarrow> utf8_valid ys \<Longrightarrow> utf8_valid (xs @ ys)"
proof (induction xs rule: utf8_valid.induct)
  case (2 b bs)
  consider "b < 0x80" | "\<not> b < 0x80" "0xC2 \<le> b \<and> b \<le> 0xDF"
    | "\<not> b < 0x80" "\<not> (0xC2 \<le> b \<and> b \<le> 0xDF)" "0xE0 \<le> b \<and> b \<le> 0xEF"
    | "\<not> b < 0x80" "\<not> (0xC2 \<le> b \<and> b \<le> 0xDF)" "\<not> (0xE0 \<le> b \<and> b \<le> 0xEF)"
    by blast
  then show ?case
  proof cases
    case 1
    with 2 show ?thesis by (simp only: utf8_lead(1) append_Cons)
  next
    case b: 2
    from "2.prems"(1) obtain c r where bs: "bs = c # r" "utf8_cont c" "utf8_valid r"
      unfolding utf8_lead(2)[OF b] by blast
    from "2.IH"(2)[OF b bs(1,3) "2.prems"(2)] bs(1,2) show ?thesis
      by (simp only: append_Cons utf8_lead(2)[OF b]) blast
  next
    case b: 3
    from "2.prems"(1) obtain c d r where bs: "bs = c # d # r" "utf8_second3 b c" "utf8_cont d" "utf8_valid r"
      unfolding utf8_lead(3)[OF b] by blast
    from "2.IH"(3)[OF b bs(1) refl bs(4) "2.prems"(2)] bs(1-3) show ?thesis
      by (simp only: append_Cons utf8_lead(3)[OF b]) blast
  next
    case b: 4
    from "2.prems"(1) obtain c d e r where b4: "0xF0 \<le> b \<and> b \<le> 0xF4" and
      bs: "bs = c # d # e # r" "utf8_second4 b c" "utf8_cont d" "utf8_cont e" "utf8_valid r"
      unfolding utf8_lead(4)[OF b] by blast
    from "2.IH"(4)[OF b b4 bs(1) refl refl bs(5) "2.prems"(2)] b4 bs(1-4) show ?thesis
      by (simp only: append_Cons utf8_lead(4)[OF b]) blast
  qed
qed simp

lemma utf8_valid_ascii: "\<forall>b \<in> set xs. b < 0x80 \<Longrightarrow> utf8_valid xs"
  by (induction xs) (simp_all add: utf8_lead(1))

subsection \<open>The operations\<close>

definition soul_save :: "archiver \<Rightarrow> disk \<Rightarrow> soul \<Rightarrow> bytes \<Rightarrow> disk \<times> (server_error + unit)" where
  "soul_save ar disk soul path =
     (case to_bytes ar soul of
        Inl err \<Rightarrow> (disk, Inl (SerializationError err))
      | Inr contents \<Rightarrow>
          (case fs_write disk path contents of
             (disk', Inl e) \<Rightarrow> (disk', Inl (FileWriteError e))
           | (disk', Inr _) \<Rightarrow> (disk', Inr ())))"

definition load_snapshot :: "archiver \<Rightarrow> disk \<Rightarrow> bytes \<Rightarrow> bytes \<Rightarrow> soul" where
  "load_snapshot ar disk dir dbfilename =
     (let path = dir @ bstr ''/'' @ dbfilename
      in if \<not> utf8_valid path then soul_new
         else (case fs_read disk path of
                 None \<Rightarrow> soul_new
               | Some contents \<Rightarrow>
                   (case from_bytes ar contents of None \<Rightarrow> soul_new | Some snapshot \<Rightarrow> snapshot)))"

lemmas [operations] = fs_read_def fs_write_def soul_save_def load_snapshot_def

text \<open>What is saved under a readable path is what the next start loads.\<close>

lemma save_then_load:
  assumes "to_bytes ar soul = Inr contents" "from_bytes ar contents = Some soul"
    and "utf8_valid (dir @ bstr ''/'' @ dbfilename)" "disk_failure disk (dir @ bstr ''/'' @ dbfilename) = None"
  shows "snd (soul_save ar disk soul (dir @ bstr ''/'' @ dbfilename)) = Inr () \<and>
    load_snapshot ar (fst (soul_save ar disk soul (dir @ bstr ''/'' @ dbfilename))) dir dbfilename = soul"
  using assms by (simp add: operations)

text \<open>A failed save reports the error, and touches the disk only at its path.\<close>

lemma save_frame: "p \<noteq> path \<Longrightarrow> disk_files (fst (soul_save ar disk soul path)) p = disk_files disk p"
  by (auto simp: operations split: sum.splits option.splits)

end
