(* ===== verification/Temple.thy ===== *)
theory Temple
  imports Wishes SoulStrings SoulHashes SoulLists SoulSets PubSub Snapshot
begin

section \<open>The god thread (\<open>src/temple.rs\<close>: \<open>Temple::worship\<close>)\<close>

text \<open>
  One thread owns the key space and the subscription maps and serves the wishes one after the other.
  Each arm of its match is one definition (\<open>serve_get\<close>, ...): what it does to the soul and the
  response it delivers, \<open>None\<close> standing for a panic of the thread. \<open>serve_database\<close> dispatches,
  \<open>serve_client\<close> adds the subscriber mode and the subscription commands, and every decree goes
  through the egress channel.
\<close>

subsection \<open>What the thread takes from libraries\<close>

text \<open>The integer printer (\<open>itoa\<close>) and the iteration orders of the hash tables.\<close>

record runtime =
  rt_itoa :: "int \<Rightarrow> bytes"
  rt_bytes :: "bytes fset \<Rightarrow> bytes list"
  rt_tokens :: "token fset \<Rightarrow> token list"

locale runtime_laws =
  fixes rt :: runtime
  assumes itoa_prints: "decimal_printer (rt_itoa rt)"
    and bytes_visits: "hash_iteration (rt_bytes rt)"
    and tokens_visits: "hash_iteration (rt_tokens rt)"

definition plain_runtime :: runtime where
  "plain_runtime = \<lparr>rt_itoa = decimal, rt_bytes = sorted_list_of_fset, rt_tokens = sorted_list_of_fset\<rparr>"

interpretation plain: runtime_laws plain_runtime
  by unfold_locales
    (simp_all add: plain_runtime_def sorted_iteration.iter_set sorted_iteration.iter_distinct
      decimal.itoa_digits decimal.itoa_value decimal.itoa_negative)

subsection \<open>The arms of the database commands\<close>

definition reply :: "('a \<Rightarrow> response) \<Rightarrow> soul \<times> 'a outcome \<Rightarrow> soul \<times> response" where
  "reply f r = (fst r, case snd r of Inl sacrilege \<Rightarrow> Error sacrilege | Inr a \<Rightarrow> f a)"

definition serve_get :: "soul \<Rightarrow> bytes \<Rightarrow> u64 \<Rightarrow> (soul \<times> response) option" where
  "serve_get soul key time =
     Some (reply BulkString (soul_get soul key time))"

definition serve_set :: "soul \<Rightarrow> bytes \<Rightarrow> entry \<Rightarrow> (soul \<times> response) option" where
  "serve_set soul key v =
     Some (soul_set soul key v, Info Ok)"

definition serve_del :: "soul \<Rightarrow> bytes list \<Rightarrow> u64 \<Rightarrow> (soul \<times> response) option" where
  "serve_del soul keys time =
     Some (let (soul', n) = soul_del soul keys time in (soul', Amount n))"

definition serve_append :: "soul \<Rightarrow> bytes \<Rightarrow> bytes \<Rightarrow> u64 \<Rightarrow> (soul \<times> response) option" where
  "serve_append soul key v time =
     Some (reply Length (soul_append soul key v time))"

definition serve_incr :: "runtime \<Rightarrow> soul \<Rightarrow> bytes \<Rightarrow> u64 \<Rightarrow> (soul \<times> response) option" where
  "serve_incr rt soul key time =
     Some (reply Number (soul_incr (rt_itoa rt) soul key time))"

definition serve_incrby :: "runtime \<Rightarrow> soul \<Rightarrow> bytes \<Rightarrow> int \<Rightarrow> u64 \<Rightarrow> (soul \<times> response) option" where
  "serve_incrby rt soul key number time =
     Some (reply Number (soul_incrby (rt_itoa rt) soul key number time))"

definition serve_decr :: "runtime \<Rightarrow> soul \<Rightarrow> bytes \<Rightarrow> u64 \<Rightarrow> (soul \<times> response) option" where
  "serve_decr rt soul key time =
     Some (reply Number (soul_decr (rt_itoa rt) soul key time))"

definition serve_strlen :: "soul \<Rightarrow> bytes \<Rightarrow> u64 \<Rightarrow> (soul \<times> response) option" where
  "serve_strlen soul key time =
     Some (reply Length (soul_strlen soul key time))"

definition serve_exists :: "soul \<Rightarrow> bytes list \<Rightarrow> u64 \<Rightarrow> (soul \<times> response) option" where
  "serve_exists soul keys time =
     Some (let (soul', n) = soul_exists soul keys time in (soul', Amount n))"

definition serve_hset :: "soul \<Rightarrow> bytes \<Rightarrow> (bytes \<times> bytes) list \<Rightarrow> u64 \<Rightarrow> (soul \<times> response) option" where
  "serve_hset soul key field_value_pairs time =
     Some (reply Amount (soul_hset soul key field_value_pairs time))"

definition serve_hget :: "soul \<Rightarrow> bytes \<Rightarrow> bytes \<Rightarrow> u64 \<Rightarrow> (soul \<times> response) option" where
  "serve_hget soul key field time =
     Some (reply BulkString (soul_hget soul key field time))"

definition serve_hmget :: "soul \<Rightarrow> bytes \<Rightarrow> bytes list \<Rightarrow> u64 \<Rightarrow> (soul \<times> response) option" where
  "serve_hmget soul key flds time =
     Some (reply BulkStringArray (soul_hmget soul key flds time))"

definition serve_hdel :: "soul \<Rightarrow> bytes \<Rightarrow> bytes list \<Rightarrow> u64 \<Rightarrow> (soul \<times> response) option" where
  "serve_hdel soul key flds time =
     Some (reply Amount (soul_hdel soul key flds time))"

definition serve_hexists :: "soul \<Rightarrow> bytes \<Rightarrow> bytes \<Rightarrow> u64 \<Rightarrow> (soul \<times> response) option" where
  "serve_hexists soul key field time =
     Some (reply Amount (soul_hexists soul key field time))"

definition serve_hlen :: "soul \<Rightarrow> bytes \<Rightarrow> u64 \<Rightarrow> (soul \<times> response) option" where
  "serve_hlen soul key time =
     Some (reply Length (soul_hlen soul key time))"

definition serve_lpush :: "soul \<Rightarrow> bytes \<Rightarrow> bytes list \<Rightarrow> u64 \<Rightarrow> (soul \<times> response) option" where
  "serve_lpush soul key elements time =
     Some (reply Length (soul_lpush soul key elements time))"

definition serve_lpop :: "soul \<Rightarrow> bytes \<Rightarrow> u64 \<Rightarrow> (soul \<times> response) option" where
  "serve_lpop soul key time =
     Some (reply BulkString (soul_lpop soul key time))"

definition serve_lpop_m :: "soul \<Rightarrow> bytes \<Rightarrow> nat \<Rightarrow> u64 \<Rightarrow> (soul \<times> response) option" where
  "serve_lpop_m soul key count time =
     Some (reply BulkStringArray (soul_lpop_m soul key count time))"

definition serve_rpush :: "soul \<Rightarrow> bytes \<Rightarrow> bytes list \<Rightarrow> u64 \<Rightarrow> (soul \<times> response) option" where
  "serve_rpush soul key elements time =
     Some (reply Length (soul_rpush soul key elements time))"

definition serve_rpop :: "soul \<Rightarrow> bytes \<Rightarrow> u64 \<Rightarrow> (soul \<times> response) option" where
  "serve_rpop soul key time =
     Some (reply BulkString (soul_rpop soul key time))"

definition serve_rpop_m :: "soul \<Rightarrow> bytes \<Rightarrow> nat \<Rightarrow> u64 \<Rightarrow> (soul \<times> response) option" where
  "serve_rpop_m soul key count time =
     Some (reply BulkStringArray (soul_rpop_m soul key count time))"

definition serve_llen :: "soul \<Rightarrow> bytes \<Rightarrow> u64 \<Rightarrow> (soul \<times> response) option" where
  "serve_llen soul key time =
     Some (reply Length (soul_llen soul key time))"

definition serve_lrange :: "soul \<Rightarrow> bytes \<Rightarrow> int \<Rightarrow> int \<Rightarrow> u64 \<Rightarrow> (soul \<times> response) option" where
  "serve_lrange soul key starting_index ending_index time =
     map_option (reply BulkStringArray) (soul_lrange soul key starting_index ending_index time)"

definition serve_lindex :: "soul \<Rightarrow> bytes \<Rightarrow> int \<Rightarrow> u64 \<Rightarrow> (soul \<times> response) option" where
  "serve_lindex soul key index time =
     Some (reply BulkString (soul_lindex soul key index time))"

definition serve_lset :: "soul \<Rightarrow> bytes \<Rightarrow> int \<Rightarrow> bytes \<Rightarrow> u64 \<Rightarrow> (soul \<times> response) option" where
  "serve_lset soul key index element time =
     map_option (reply (\<lambda>_. Info Ok)) (soul_lset soul key index element time)"

definition serve_lrem :: "soul \<Rightarrow> bytes \<Rightarrow> int \<Rightarrow> bytes \<Rightarrow> u64 \<Rightarrow> (soul \<times> response) option" where
  "serve_lrem soul key count element time =
     map_option (reply Length) (soul_lrem soul key count element time)"

definition serve_expire :: "soul \<Rightarrow> bytes \<Rightarrow> u64 \<Rightarrow> u64 \<Rightarrow> (soul \<times> response) option" where
  "serve_expire soul key expiry time =
     Some (let (soul', n) = soul_expire soul key expiry time in (soul', Amount n))"

definition serve_ttl :: "soul \<Rightarrow> bytes \<Rightarrow> system_time \<Rightarrow> (soul \<times> response) option" where
  "serve_ttl soul key time =
     map_option (\<lambda>(soul', n). (soul', Number n)) (soul_ttl soul key time)"

definition serve_mset :: "soul \<Rightarrow> bytes list \<Rightarrow> (soul \<times> response) option" where
  "serve_mset soul terms_iter =
     Some (soul_mset soul terms_iter, Info Ok)"

definition serve_mget :: "soul \<Rightarrow> bytes list \<Rightarrow> u64 \<Rightarrow> (soul \<times> response) option" where
  "serve_mget soul terms_iter time =
     Some (let (soul', array) = soul_mget soul terms_iter time in (soul', BulkStringArray array))"

definition serve_sadd :: "soul \<Rightarrow> bytes \<Rightarrow> bytes list \<Rightarrow> u64 \<Rightarrow> (soul \<times> response) option" where
  "serve_sadd soul key vals time =
     Some (reply Length (soul_sadd soul key vals time))"

definition serve_srem :: "soul \<Rightarrow> bytes \<Rightarrow> bytes list \<Rightarrow> u64 \<Rightarrow> (soul \<times> response) option" where
  "serve_srem soul key vals time =
     Some (reply Length (soul_srem soul key vals time))"

definition serve_sismember :: "soul \<Rightarrow> bytes \<Rightarrow> bytes \<Rightarrow> u64 \<Rightarrow> (soul \<times> response) option" where
  "serve_sismember soul key v time =
     Some (reply Length (soul_sismember soul key v time))"

definition serve_hgetall :: "runtime \<Rightarrow> soul \<Rightarrow> bytes \<Rightarrow> u64 \<Rightarrow> (soul \<times> response) option" where
  "serve_hgetall rt soul key time =
     Some (reply BulkStringArray (soul_hgetall (rt_bytes rt) soul key time))"

definition serve_smembers :: "runtime \<Rightarrow> soul \<Rightarrow> bytes \<Rightarrow> u64 \<Rightarrow> (soul \<times> response) option" where
  "serve_smembers rt soul key time =
     Some (reply BulkStringArray (soul_smembers (rt_bytes rt) soul key time))"

type_synonym config = "(bytes, bytes) fmap"

definition databases_entry :: "bytes option list" where
  "databases_entry = [Some (bstr ''databases''), Some (bstr ''1'')]"

fun config_get_loop :: "config \<Rightarrow> bytes list \<Rightarrow> bytes option list \<Rightarrow> bytes option list" where
  "config_get_loop config [] result = result"
| "config_get_loop config (property # properties) result =
     (case fmlookup config property of
        Some v \<Rightarrow> config_get_loop config properties (result @ [Some property, Some v])
      | None \<Rightarrow> config_get_loop config properties result)"

definition serve_config_get :: "runtime \<Rightarrow> config \<Rightarrow> soul \<Rightarrow> bytes list \<Rightarrow> (soul \<times> response) option" where
  "serve_config_get rt config soul properties =
     Some (soul, BulkStringArray (Some
       (if bstr ''*'' \<in> set properties then hash_entries (rt_bytes rt) config @ databases_entry
        else config_get_loop config properties []
          @ (if bstr ''databases'' \<in> set properties then databases_entry else []))))"

fun serve_database ::
  "runtime \<Rightarrow> config \<Rightarrow> soul \<Rightarrow> database_command \<Rightarrow> (soul \<times> response) option" where
  "serve_database rt config soul (Get key time) = serve_get soul key time"
| "serve_database rt config soul (database_command.Set key v) = serve_set soul key v"
| "serve_database rt config soul (Del keys time) = serve_del soul keys time"
| "serve_database rt config soul (Append key v time) = serve_append soul key v time"
| "serve_database rt config soul (Incr key time) = serve_incr rt soul key time"
| "serve_database rt config soul (Incrby key number time) = serve_incrby rt soul key number time"
| "serve_database rt config soul (Decr key time) = serve_decr rt soul key time"
| "serve_database rt config soul (Strlen key time) = serve_strlen soul key time"
| "serve_database rt config soul (Exists keys time) = serve_exists soul keys time"
| "serve_database rt config soul (Hset key field_value_pairs time) = serve_hset soul key field_value_pairs time"
| "serve_database rt config soul (Hget key field time) = serve_hget soul key field time"
| "serve_database rt config soul (Hmget key flds time) = serve_hmget soul key flds time"
| "serve_database rt config soul (Hdel key flds time) = serve_hdel soul key flds time"
| "serve_database rt config soul (Hexists key field time) = serve_hexists soul key field time"
| "serve_database rt config soul (Hlen key time) = serve_hlen soul key time"
| "serve_database rt config soul (Lpush key elements time) = serve_lpush soul key elements time"
| "serve_database rt config soul (Lpop key time) = serve_lpop soul key time"
| "serve_database rt config soul (LpopM key count time) = serve_lpop_m soul key count time"
| "serve_database rt config soul (Rpush key elements time) = serve_rpush soul key elements time"
| "serve_database rt config soul (Rpop key time) = serve_rpop soul key time"
| "serve_database rt config soul (RpopM key count time) = serve_rpop_m soul key count time"
| "serve_database rt config soul (Llen key time) = serve_llen soul key time"
| "serve_database rt config soul (Lrange key starting_index ending_index time) = serve_lrange soul key starting_index ending_index time"
| "serve_database rt config soul (Lindex key index time) = serve_lindex soul key index time"
| "serve_database rt config soul (Lset key index element time) = serve_lset soul key index element time"
| "serve_database rt config soul (Lrem key count element time) = serve_lrem soul key count element time"
| "serve_database rt config soul (Expire key expiry time) = serve_expire soul key expiry time"
| "serve_database rt config soul (Ttl key time) = serve_ttl soul key time"
| "serve_database rt config soul (Mset terms_iter) = serve_mset soul terms_iter"
| "serve_database rt config soul (Mget terms_iter time) = serve_mget soul terms_iter time"
| "serve_database rt config soul (Sadd key vals time) = serve_sadd soul key vals time"
| "serve_database rt config soul (Srem key vals time) = serve_srem soul key vals time"
| "serve_database rt config soul (Sismember key v time) = serve_sismember soul key v time"
| "serve_database rt config soul (Hgetall key time) = serve_hgetall rt soul key time"
| "serve_database rt config soul (Smembers key time) = serve_smembers rt soul key time"
| "serve_database rt config soul (ConfigGet properties) = serve_config_get rt config soul properties"

lemmas arms = serve_get_def serve_set_def serve_del_def serve_append_def serve_incr_def serve_incrby_def
  serve_decr_def serve_strlen_def serve_exists_def serve_hset_def serve_hget_def
  serve_hmget_def serve_hdel_def serve_hexists_def serve_hlen_def serve_lpush_def
  serve_lpop_def serve_lpop_m_def serve_rpush_def serve_rpop_def serve_rpop_m_def
  serve_llen_def serve_lrange_def serve_lindex_def serve_lset_def serve_lrem_def
  serve_expire_def serve_ttl_def serve_mset_def serve_mget_def serve_sadd_def serve_srem_def
  serve_sismember_def serve_hgetall_def serve_smembers_def serve_config_get_def

subsection \<open>The state of the thread\<close>

record god =
  g_soul :: soul
  g_clients :: client_map
  g_events :: event_map
  g_subscribed :: "token fset"
  g_config :: config

definition initialize_config ::
  "config \<Rightarrow> bytes \<Rightarrow> bytes \<Rightarrow> bytes \<Rightarrow> bytes \<Rightarrow> bytes \<Rightarrow> bytes \<Rightarrow> bytes \<Rightarrow> bytes \<Rightarrow> config" where
  "initialize_config config dir dbfilename ipv4_address port io_threads event_capacity max_memory append_only =
     fmupd (bstr ''append_only'') append_only
      (fmupd (bstr ''event_capacity'') event_capacity
        (fmupd (bstr ''max_memory'') max_memory
          (fmupd (bstr ''io_threads'') io_threads
            (fmupd (bstr ''port'') port
              (fmupd (bstr ''ipv4_address'') ipv4_address
                (fmupd (bstr ''dbfilename'') dbfilename
                  (fmupd (bstr ''dir'') dir config)))))))"

definition god_start ::
  "archiver \<Rightarrow> disk \<Rightarrow> bytes \<Rightarrow> bytes \<Rightarrow> bytes \<Rightarrow> bytes \<Rightarrow> bytes \<Rightarrow> bytes \<Rightarrow> bytes \<Rightarrow> bytes \<Rightarrow> god" where
  "god_start ar disk dir dbfilename ipv4_address port io_threads event_capacity max_memory append_only =
     \<lparr>g_soul = load_snapshot ar disk dir dbfilename, g_clients = fmempty, g_events = fmempty,
      g_subscribed = {||},
      g_config = initialize_config fmempty dir dbfilename ipv4_address port io_threads event_capacity
        max_memory append_only\<rparr>"

subsection \<open>Serving a client\<close>

type_synonym egress = "decree channel"

definition deliver :: "token \<Rightarrow> response \<Rightarrow> egress \<Rightarrow> egress" where
  "deliver token response tx = snd (send tx (Deliver \<lparr>gift_token = token, gift_response = response\<rparr>))"

fun serve_broadcast :: "runtime \<Rightarrow> god \<Rightarrow> egress \<Rightarrow> token \<Rightarrow> broadcast_command \<Rightarrow> god \<times> egress" where
  "serve_broadcast rt g tx token (Subscribe events) =
     (let (event_map, subscribed_channels) = event_map_subscribe (g_events g) token events;
          client_map = client_map_subscribe (g_clients g) token events
      in (g\<lparr>g_subscribed := finsert token (g_subscribed g), g_events := event_map, g_clients := client_map\<rparr>,
          deliver token (SubscribedChannels subscribed_channels) tx))"
| "serve_broadcast rt g tx token (Unsubscribe terms) =
     (let (event_map, subscribed_clients, unsubscribed_events) =
            event_map_unsubscribe (rt_bytes rt) (g_events g) terms token (g_subscribed g);
          client_map = client_map_unsubscribe (g_clients g) token unsubscribed_events
      in (g\<lparr>g_subscribed := subscribed_clients, g_events := event_map, g_clients := client_map\<rparr>,
          deliver token (UnsubscribedChannels unsubscribed_events) tx))"
| "serve_broadcast rt g tx token (Publish event message) =
     (let clients = client_map_publish (rt_tokens rt) (g_clients g) event
      in (g, snd (send tx (decree.Broadcast token event message clients))))"

fun serve_client ::
  "runtime \<Rightarrow> god \<Rightarrow> egress \<Rightarrow> token \<Rightarrow> client_command_type \<Rightarrow> (god \<times> egress) option" where
  "serve_client rt g tx token (Database cmd) =
     (if token |\<in>| g_subscribed g then Some (g, deliver token (Error SubscriberOnlyMode) tx)
      else (case serve_database rt (g_config g) (g_soul g) cmd of
              None \<Rightarrow> None
            | Some (soul, response) \<Rightarrow> Some (g\<lparr>g_soul := soul\<rparr>, deliver token response tx)))"
| "serve_client rt g tx token (client_command_type.Broadcast cmd) = Some (serve_broadcast rt g tx token cmd)"

subsection \<open>The loop\<close>

text \<open>
  The thread's surroundings: the disk, the egress channel and the answers to server commands. A
  step goes on (\<open>Running\<close>), ends the thread (\<open>Stopped\<close>) or panics.
\<close>

datatype answer =
    Saved "server_error + unit"
  | FilePath "server_error + bytes"

record world =
  w_god :: god
  w_disk :: disk
  w_egress :: egress
  w_answers :: "answer list"

datatype 'a progress = Running 'a | Stopped 'a | Panicked

definition answer :: "answer \<Rightarrow> world \<Rightarrow> world" where
  "answer a w = w\<lparr>w_answers := w_answers w @ [a]\<rparr>"

definition file_path :: "config \<Rightarrow> bytes option" where
  "file_path config =
     (case fmlookup config (bstr ''dir'') of
        None \<Rightarrow> None
      | Some dir \<Rightarrow>
          (case fmlookup config (bstr ''dbfilename'') of
             None \<Rightarrow> None
           | Some dbfilename \<Rightarrow> Some (dir @ bstr ''/'' @ dbfilename)))"

text \<open>The path the thread reports is the one it was started with.\<close>

lemma started_path: "file_path (initialize_config fmempty dir db ip port io ev mm ao) = Some (dir @ bstr ''/'' @ db)"
  by (simp only: file_path_def initialize_config_def bstr_inject fmupd_lookup if_True if_False
      option.case list.inject char.inject simp_thms list.distinct)

fun serve_server :: "archiver \<Rightarrow> world \<Rightarrow> server_command \<Rightarrow> world progress" where
  "serve_server ar w (Save path) =
     (let (disk, result) = soul_save ar (w_disk w) (g_soul (w_god w)) path
      in Stopped (answer (Saved result) (w\<lparr>w_disk := disk\<rparr>)))"
| "serve_server ar w GetFilePath =
     (case file_path (g_config (w_god w)) of
        None \<Rightarrow> Stopped (answer (FilePath (Inl ValueNotSet)) w)
      | Some path \<Rightarrow> Running (answer (FilePath (Inr path)) w))"

definition god_step :: "runtime \<Rightarrow> archiver \<Rightarrow> world \<Rightarrow> wish \<Rightarrow> world progress" where
  "god_step rt ar w wish =
     (case wish_command wish of
        Server cmd \<Rightarrow> serve_server ar w cmd
      | Client cmd \<Rightarrow>
          (case serve_client rt (w_god w) (w_egress w) (wish_token wish) cmd of
             None \<Rightarrow> Panicked
           | Some (g, tx) \<Rightarrow> Running (w\<lparr>w_god := g, w_egress := tx\<rparr>)))"

text \<open>The wishes in the order the channel delivers them; \<open>Running\<close> at the end waits for more.\<close>

fun god_loop :: "runtime \<Rightarrow> archiver \<Rightarrow> world \<Rightarrow> wish list \<Rightarrow> world progress" where
  "god_loop rt ar w [] = Running w"
| "god_loop rt ar w (wish # wishes) =
     (case god_step rt ar w wish of
        Running w' \<Rightarrow> god_loop rt ar w' wishes
      | Stopped w' \<Rightarrow> Stopped w'
      | Panicked \<Rightarrow> Panicked)"

lemma god_loop_append: "god_loop rt ar w ws = Running w1 \<Longrightarrow> god_loop rt ar w (ws @ ws') = god_loop rt ar w1 ws'"
  by (induction rt ar w ws rule: god_loop.induct) (auto split: progress.splits)

text \<open>
  \<open>Temple::save\<close> asks for the path, waits for the answer and then sends the save; a path that is
  not UTF-8 panics (\<open>None\<close>), an error prints a line and gives up.
\<close>

definition temple_save_ask :: "temple \<Rightarrow> token \<Rightarrow> temple" where
  "temple_save_ask temple token = snd (send temple \<lparr>wish_token = token, wish_command = Server GetFilePath\<rparr>)"

definition temple_save_path :: "temple \<Rightarrow> token \<Rightarrow> server_error + bytes \<Rightarrow> temple option" where
  "temple_save_path temple token ans =
     (case ans of
        Inl _ \<Rightarrow> Some temple
      | Inr path \<Rightarrow>
          if utf8_valid path then Some (snd (send temple \<lparr>wish_token = token, wish_command = Server (Save path)\<rparr>))
          else None)"

lemmas [operations] = god_step_def deliver_def file_path_def god_start_def

end
