(* ===== verification/Database.thy ===== *)
theory Database
  imports Temple
begin

section \<open>The database as an abstract map\<close>

text \<open>
  What the god thread promises: the key space is a map from keys to live entries, and every database
  command acts on it as \<open>database_spec\<close> says, whatever expired entries the hash map still holds. The
  main lemma, \<open>serve_database_implements\<close>, is the refinement of all commands at once; \<open>command_ok\<close>
  lists the inputs on which the code departs from it (a pop of an expired key of another type, a
  time-to-live beyond the clock's range).
\<close>

type_synonym view = "bytes \<Rightarrow> entry option"

definition at_key ::
  "bytes \<Rightarrow> (entry option \<Rightarrow> entry option \<times> 'a outcome) \<Rightarrow> ('a \<Rightarrow> response) \<Rightarrow> view \<Rightarrow> view \<times> response" where
  "at_key k cell f view =
     (view(k := fst (cell (view k))),
      case snd (cell (view k)) of Inl sacrilege \<Rightarrow> Error sacrilege | Inr a \<Rightarrow> f a)"

text \<open>
  \<open>TTL\<close> compares at the clock's resolution: in the last second of a key's life the entry counts as
  expired here, and is removed, although every other command still finds it.
\<close>

definition cell_ttl :: "system_time \<Rightarrow> entry option \<Rightarrow> entry option \<times> int" where
  "cell_ttl time x =
     (case x of
        None \<Rightarrow> (None, - 2)
      | Some (_, None) \<Rightarrow> (x, - 1)
      | Some (_, Some e) \<Rightarrow>
          if uint e * 1000000000 < time then (None, - 2)
          else (x, (uint e * 1000000000 - time) div 1000000000))"

definition config_answer :: "runtime \<Rightarrow> config \<Rightarrow> bytes list \<Rightarrow> bytes option list" where
  "config_answer rt config properties =
     (if bstr ''*'' \<in> set properties then hash_entries (rt_bytes rt) config @ databases_entry
      else concat (map (\<lambda>p. case fmlookup config p of Some v \<Rightarrow> [Some p, Some v] | None \<Rightarrow> []) properties)
        @ (if bstr ''databases'' \<in> set properties then databases_entry else []))"

fun database_spec ::
  "runtime \<Rightarrow> config \<Rightarrow> u64 \<Rightarrow> view \<Rightarrow> database_command \<Rightarrow> view \<times> response" where
  "database_spec rt config now view (Get key _) = at_key key (cell_get) BulkString view"
| "database_spec rt config now view (Append key v _) = at_key key (cell_append v) Length view"
| "database_spec rt config now view (Incr key _) = at_key key (cell_incr (rt_itoa rt)) Number view"
| "database_spec rt config now view (Incrby key number _) = at_key key (cell_incrby (rt_itoa rt) number) Number view"
| "database_spec rt config now view (Decr key _) = at_key key (cell_decr (rt_itoa rt)) Number view"
| "database_spec rt config now view (Strlen key _) = at_key key (cell_strlen) Length view"
| "database_spec rt config now view (Hset key field_value_pairs _) = at_key key (cell_hset field_value_pairs) Amount view"
| "database_spec rt config now view (Hget key field _) = at_key key (cell_hget field) BulkString view"
| "database_spec rt config now view (Hmget key flds _) = at_key key (cell_hmget flds) BulkStringArray view"
| "database_spec rt config now view (Hdel key flds _) = at_key key (cell_hdel flds) Amount view"
| "database_spec rt config now view (Hexists key field _) = at_key key (cell_hexists field) Amount view"
| "database_spec rt config now view (Hlen key _) = at_key key (cell_hlen) Length view"
| "database_spec rt config now view (Lpush key elements _) = at_key key (cell_lpush elements) Length view"
| "database_spec rt config now view (Lpop key _) = at_key key (cell_lpop) BulkString view"
| "database_spec rt config now view (LpopM key count _) = at_key key (cell_lpop_m count) BulkStringArray view"
| "database_spec rt config now view (Rpush key elements _) = at_key key (cell_rpush elements) Length view"
| "database_spec rt config now view (Rpop key _) = at_key key (cell_rpop) BulkString view"
| "database_spec rt config now view (RpopM key count _) = at_key key (cell_rpop_m count) BulkStringArray view"
| "database_spec rt config now view (Llen key _) = at_key key (cell_llen) Length view"
| "database_spec rt config now view (Lrange key starting_index ending_index _) = at_key key (cell_lrange starting_index ending_index) BulkStringArray view"
| "database_spec rt config now view (Lindex key index _) = at_key key (cell_lindex index) BulkString view"
| "database_spec rt config now view (Lset key index element _) = at_key key (cell_lset index element) (\<lambda>_. Info Ok) view"
| "database_spec rt config now view (Lrem key count element _) = at_key key (cell_lrem count element) Length view"
| "database_spec rt config now view (Sadd key vals _) = at_key key (cell_sadd vals) Length view"
| "database_spec rt config now view (Srem key vals _) = at_key key (cell_srem vals) Length view"
| "database_spec rt config now view (Sismember key v _) = at_key key (cell_sismember v) Length view"
| "database_spec rt config now view (Hgetall key _) = at_key key (cell_hgetall (rt_bytes rt)) BulkStringArray view"
| "database_spec rt config now view (Smembers key _) = at_key key (cell_smembers (rt_bytes rt)) BulkStringArray view"
| "database_spec rt config now view (database_command.Set key e) =
     (view(key := if alive now e then Some e else None), Info Ok)"
| "database_spec rt config now view (Del keys _) =
     (view |` (- set keys), Amount (of_nat (card {k \<in> set keys. view k \<noteq> None})))"
| "database_spec rt config now view (Exists keys _) =
     (view, Amount (of_nat (length (filter (\<lambda>k. view k \<noteq> None) keys))))"
| "database_spec rt config now view (Expire key expiry _) =
     (view(key := fst (cell_expire expiry now (view key))), Amount (snd (cell_expire expiry now (view key))))"
| "database_spec rt config now view (Ttl key time) =
     (view(key := fst (cell_ttl time (view key))), Number (snd (cell_ttl time (view key))))"
| "database_spec rt config now view (Mset terms) =
     (view ++ (map_option (\<lambda>v. (String v, None)) \<circ> map_of (rev (pairs_of terms))), Info Ok)"
| "database_spec rt config now view (Mget keys _) =
     (view, BulkStringArray (Some (map (\<lambda>k. case view k of Some (String v, _) \<Rightarrow> Some v | _ \<Rightarrow> None) keys)))"
| "database_spec rt config now view (ConfigGet properties) =
     (view, BulkStringArray (Some (config_answer rt config properties)))"

fun command_keys :: "database_command \<Rightarrow> bytes set" where
  "command_keys (Get key _) = {key}"
| "command_keys (Append key _ _) = {key}"
| "command_keys (Incr key _) = {key}"
| "command_keys (Incrby key _ _) = {key}"
| "command_keys (Decr key _) = {key}"
| "command_keys (Strlen key _) = {key}"
| "command_keys (Hset key _ _) = {key}"
| "command_keys (Hget key _ _) = {key}"
| "command_keys (Hmget key _ _) = {key}"
| "command_keys (Hdel key _ _) = {key}"
| "command_keys (Hexists key _ _) = {key}"
| "command_keys (Hlen key _) = {key}"
| "command_keys (Lpush key _ _) = {key}"
| "command_keys (Lpop key _) = {key}"
| "command_keys (LpopM key _ _) = {key}"
| "command_keys (Rpush key _ _) = {key}"
| "command_keys (Rpop key _) = {key}"
| "command_keys (RpopM key _ _) = {key}"
| "command_keys (Llen key _) = {key}"
| "command_keys (Lrange key _ _ _) = {key}"
| "command_keys (Lindex key _ _) = {key}"
| "command_keys (Lset key _ _ _) = {key}"
| "command_keys (Lrem key _ _ _) = {key}"
| "command_keys (Sadd key _ _) = {key}"
| "command_keys (Srem key _ _) = {key}"
| "command_keys (Sismember key _ _) = {key}"
| "command_keys (Hgetall key _) = {key}"
| "command_keys (Smembers key _) = {key}"
| "command_keys (database_command.Set key _) = {key}"
| "command_keys (Del keys _) = set keys"
| "command_keys (Exists keys _) = set keys"
| "command_keys (Expire key _ _) = {key}"
| "command_keys (Ttl key _) = {key}"
| "command_keys (Mset terms) = fst ` set (pairs_of terms)"
| "command_keys (Mget keys _) = set keys"
| "command_keys (ConfigGet _) = {}"

text \<open>The inputs on which the thread implements the specification.\<close>

definition ttl_in_range :: "soul \<Rightarrow> bytes \<Rightarrow> system_time \<Rightarrow> bool" where
  "ttl_in_range soul key time =
     (0 \<le> time \<and> time < 2 ^ 64 * 1000000000 \<and>
      (case fmlookup soul key of Some (_, Some e) \<Rightarrow> uint e < 2 ^ 63 | _ \<Rightarrow> True))"

fun command_ok :: "soul \<Rightarrow> u64 \<Rightarrow> database_command \<Rightarrow> bool" where
  "command_ok soul now (Lpop key _) = (\<not> stale_other soul key now)"
| "command_ok soul now (LpopM key _ _) = (\<not> stale_other soul key now)"
| "command_ok soul now (Rpop key _) = (\<not> stale_other soul key now)"
| "command_ok soul now (RpopM key _ _) = (\<not> stale_other soul key now)"
| "command_ok soul now (Lrange _ a b _) = (is_i32 a \<and> is_i32 b)"
| "command_ok soul now (Ttl key time) = ttl_in_range soul key time"
| "command_ok _ _ _ = True"

definition implements ::
  "u64 \<Rightarrow> soul \<Rightarrow> bytes set \<Rightarrow> (soul \<times> response) option \<Rightarrow> view \<times> response \<Rightarrow> bool" where
  "implements now soul keys result spec =
     (\<exists>soul'. result = Some (soul', snd spec) \<and> live now soul' = fst spec \<and>
        (\<forall>k. k \<notin> keys \<longrightarrow> fmlookup soul' k = fmlookup soul k))"

lemma implements_cell:
  assumes "refines_at act soul k now cell"
  shows "implements now soul {k} (Some (reply f (act soul))) (at_key k cell f (live now soul))"
  using assms by (simp add: implements_def refines_at_def at_key_def reply_def)

lemma implements_cell_total:
  assumes "refines_at (\<lambda>s. the (act s)) soul k now cell" "act soul \<noteq> None"
  shows "implements now soul {k} (map_option (reply f) (act soul)) (at_key k cell f (live now soul))"
  using implements_cell[OF assms(1), of f] assms(2) by auto

lemmas cell_refinements =
  refines_at_soul[OF get_refines] refines_at_soul[OF append_refines] refines_at_soul[OF
  incr_refines] refines_at_soul[OF incrby_refines] refines_at_soul[OF decr_refines]
  refines_at_soul[OF strlen_refines] refines_at_soul[OF hset_refines] refines_at_soul[OF
  hget_refines] refines_at_soul[OF hmget_refines] refines_at_soul[OF hdel_refines]
  refines_at_soul[OF hexists_refines] refines_at_soul[OF hlen_refines] refines_at_soul[OF
  lpush_refines] lpop_refines_at lpop_m_refines_at refines_at_soul[OF rpush_refines]
  rpop_refines_at rpop_m_refines_at refines_at_soul[OF llen_refines] refines_at_soul[OF
  lrange_refines] refines_at_soul[OF lindex_refines] refines_at_soul[OF sadd_refines] refines_at_soul[OF
  srem_refines] refines_at_soul[OF sismember_refines] refines_at_soul[OF hgetall_refines]
  refines_at_soul[OF smembers_refines]

lemmas arm_implements =
  cell_refinements[THEN implements_cell]
  refines_at_soul[OF lset_refines, THEN implements_cell_total, OF lset_total]
  refines_at_soul[OF lrem_refines, THEN implements_cell_total, OF lrem_total]
  refines_at_soul[OF lrange_refines, THEN implements_cell_total, OF _ _ lrange_total]

subsection \<open>The commands on several keys\<close>

lemma mset_frame: "k \<notin> fst ` set (pairs_of terms) \<Longrightarrow> fmlookup (soul_mset soul terms) k = fmlookup soul k"
  by (induction soul terms rule: soul_mset.induct) auto

lemma exists_frame: "k \<notin> set keys \<Longrightarrow> fmlookup (fst (exists_loop soul keys now n)) k = fmlookup soul k"
  by (induction soul keys now n rule: exists_loop.induct)
    (auto simp: get_valid_value_def split: option.splits if_splits)

lemma mget_frame: "k \<notin> set keys \<Longrightarrow> fmlookup (fst (mget_loop soul keys now acc)) k = fmlookup soul k"
  by (induction soul keys now acc rule: mget_loop.induct)
    (auto simp: get_valid_value_def split: op_splits)

lemma config_get_loop_eq:
  "config_get_loop config properties acc =
     acc @ concat (map (\<lambda>p. case fmlookup config p of Some v \<Rightarrow> [Some p, Some v] | None \<Rightarrow> []) properties)"
  by (induction config properties acc rule: config_get_loop.induct) (auto split: option.splits)

lemma ttl_refines:
  assumes "ttl_in_range soul key time" "now = as_secs time"
  shows "implements now soul {key} (serve_ttl soul key time)
    ((live now soul)(key := fst (cell_ttl time (live now soul key))), Number (snd (cell_ttl time (live now soul key))))"
proof -
  have now: "uint now = time div 1000000000"
    using assms by (auto simp: ttl_in_range_def as_secs_def uint_word_of_int take_bit_eq_mod)
  show ?thesis
  proof (cases "fmlookup soul key")
    case None
    then show ?thesis
      by (simp add: implements_def serve_ttl_def soul_ttl_def cell_ttl_def live_def fun_eq_iff)
  next
    case (Some e)
    obtain v x where e: "e = (v, x)" by (cases e)
    show ?thesis
    proof (cases x)
      case None
      with Some e show ?thesis
        by (auto simp: implements_def serve_ttl_def soul_ttl_def cell_ttl_def live_def fun_eq_iff)
    next
      case x: (Some t)
      have t: "uint t < 2 ^ 63" using assms Some e x by (simp add: ttl_in_range_def)
      have dead: "t < now \<Longrightarrow> uint t * 1000000000 < time" using now by (auto simp: word_less_def)
      have "\<not> uint t * 1000000000 < time \<Longrightarrow>
          (uint t * 1000000000 - time) div 1000000000 \<le> uint t \<and> 0 \<le> (uint t * 1000000000 - time) div 1000000000"
        using assms by (auto simp: ttl_in_range_def)
      then have secs: "\<not> uint t * 1000000000 < time \<Longrightarrow> is_i64 ((uint t * 1000000000 - time) div 1000000000)"
        using t by (auto simp: is_i64_def)
      from Some e x t dead secs show ?thesis
        by (auto simp: implements_def serve_ttl_def soul_ttl_def cell_ttl_def live_def epoch_plus_secs_def
            duration_since_def fun_eq_iff)
    qed
  qed
qed

subsection \<open>The refinement\<close>

lemma serve_database_implements:
  assumes time: "command_time cmd = None \<or> command_time cmd = Some now" and ok: "command_ok soul now cmd"
  shows "implements now soul (command_keys cmd) (serve_database rt config soul cmd)
    (database_spec rt config now (live now soul) cmd)"
proof (cases cmd)
  case (Ttl key t)
  with time ok ttl_refines[of soul key t now] show ?thesis by simp
next
  case (Del keys t)
  with time del_loop_correct[of now soul keys 0] show ?thesis
    by (simp add: implements_def serve_del_def soul_del_def case_prod_unfold)
next
  case (Exists keys t)
  with time exists_count[of now soul keys] exists_frame[where soul = soul and keys = keys and now = now and n = 0]
  show ?thesis
    by (simp add: implements_def serve_exists_def soul_exists_def case_prod_unfold)
next
  case (Mget keys t)
  with time mget_correct[of now soul keys] mget_frame[where soul = soul and keys = keys and now = now and acc = "[]"]
  show ?thesis
    by (simp add: implements_def serve_mget_def soul_mget_def case_prod_unfold)
next
  case (Mset terms)
  then show ?thesis by (simp add: implements_def serve_mset_def mset_live mset_frame)
next
  case (Expire key e t)
  with time refines_cellD[OF expire_refines[of key e now]] show ?thesis
    by (simp add: implements_def serve_expire_def case_prod_unfold)
next
  case (Set key e)
  then show ?thesis
    by (auto simp: implements_def serve_set_def soul_set_def)
next
  case (ConfigGet properties)
  then show ?thesis
    by (simp add: implements_def serve_config_get_def config_answer_def config_get_loop_eq)
qed (use time ok in \<open>simp_all add: arms arm_implements\<close>)

end
