(* ===== verification/Handlers.thy ===== *)
theory Handlers
  imports Temple
begin

section \<open>The request handlers (\<open>src/wish/grant.rs\<close>, \<open>src/wish/grant/\<close>)\<close>

text \<open>
  \<open>grant\<close> dispatches a parsed request on its first term to one handler per command; a handler checks
  the number and the form of its arguments and then either sends a wish to the god thread or answers
  with an error itself. The state a handler changes is an \<open>altar\<close>: the channel to the god thread and
  the egress channel. \<open>now\<close> is what \<open>SystemTime::now()\<close> returns to the handler.
\<close>

record altar =
  a_temple :: temple
  a_egress :: egress

definition respond :: "token \<Rightarrow> response \<Rightarrow> altar \<Rightarrow> altar" where
  "respond token response a = a\<lparr>a_egress := deliver token response (a_egress a)\<rparr>"

definition refuse :: "token \<Rightarrow> sacrilege \<Rightarrow> altar \<Rightarrow> altar" where
  "refuse token sacrilege a = respond token (Error sacrilege) a"

definition pray :: "(temple \<Rightarrow> temple) \<Rightarrow> altar \<Rightarrow> altar" where
  "pray f a = a\<lparr>a_temple := f (a_temple a)\<rparr>"

subsection \<open>One handler per command\<close>

definition grant_set :: "system_time \<Rightarrow> bytes list \<Rightarrow> token \<Rightarrow> altar \<Rightarrow> altar" where
  "grant_set now terms token a =
     (if length terms > 5 then refuse token (IncorrectNumberOfArguments SET) a
      else (case drop 1 terms of
              key # v # rest \<Rightarrow>
                (case rest of
                   [] \<Rightarrow> pray (\<lambda>t. temple_set t token key (String v, None)) a
                 | option # rest' \<Rightarrow>
                     if eq_ignore_ascii_case option (bstr ''EX'') then
                       (case rest' of
                          [] \<Rightarrow> refuse token (IncorrectUsage SET) a
                        | expiry # _ \<Rightarrow>
                            (case bytes_to_u64 expiry of
                               Inl _ \<Rightarrow> refuse token (IncorrectUsage SET) a
                             | Inr e \<Rightarrow> pray (\<lambda>t. temple_set t token key (String v, Some (as_secs now + e))) a))
                     else refuse token (IncorrectNumberOfArguments SET) a)
            | _ \<Rightarrow> refuse token (IncorrectNumberOfArguments SET) a))"

definition grant_get :: "system_time \<Rightarrow> bytes list \<Rightarrow> token \<Rightarrow> altar \<Rightarrow> altar" where
  "grant_get now terms token a =
     (if length terms \<noteq> 2 then refuse token (IncorrectNumberOfArguments GET) a
      else (case drop 1 terms of
              key # _ \<Rightarrow> pray (\<lambda>t. temple_get t token key (as_secs now)) a
            | _ \<Rightarrow> refuse token (IncorrectNumberOfArguments GET) a))"

definition grant_ping :: "bytes list \<Rightarrow> token \<Rightarrow> altar \<Rightarrow> altar" where
  "grant_ping terms token a =
     (if length terms \<noteq> 1 then refuse token (IncorrectNumberOfArguments PING) a
      else respond token (Info Pong) a)"

definition grant_del :: "system_time \<Rightarrow> bytes list \<Rightarrow> token \<Rightarrow> altar \<Rightarrow> altar" where
  "grant_del now terms token a =
     (if length terms < 2 then refuse token (IncorrectNumberOfArguments DEL) a
      else pray (\<lambda>t. temple_del t token (drop 1 terms) (as_secs now)) a)"

definition grant_exists :: "system_time \<Rightarrow> bytes list \<Rightarrow> token \<Rightarrow> altar \<Rightarrow> altar" where
  "grant_exists now terms token a =
     (if length terms < 2 then refuse token (IncorrectNumberOfArguments EXISTS) a
      else pray (\<lambda>t. temple_exists t token (drop 1 terms) (as_secs now)) a)"

definition grant_incrby :: "system_time \<Rightarrow> bytes list \<Rightarrow> token \<Rightarrow> altar \<Rightarrow> altar" where
  "grant_incrby now terms token a =
     (if length terms \<noteq> 3 then refuse token (IncorrectNumberOfArguments INCRBY) a
      else (case drop 1 terms of
              key # number # _ \<Rightarrow>
                (case bytes_to_i64 number of
                   Inr i \<Rightarrow> pray (\<lambda>t. temple_incrby t token key i (as_secs now)) a
                 | Inl _ \<Rightarrow> refuse token (IncorrectUsage INCRBY) a)
            | _ \<Rightarrow> a))"

definition grant_incr :: "system_time \<Rightarrow> bytes list \<Rightarrow> token \<Rightarrow> altar \<Rightarrow> altar" where
  "grant_incr now terms token a =
     (if length terms \<noteq> 2 then refuse token (IncorrectNumberOfArguments INCR) a
      else (case drop 1 terms of
              key # _ \<Rightarrow> pray (\<lambda>t. temple_incr t token key (as_secs now)) a
            | _ \<Rightarrow> refuse token (IncorrectNumberOfArguments INCR) a))"

definition grant_decr :: "system_time \<Rightarrow> bytes list \<Rightarrow> token \<Rightarrow> altar \<Rightarrow> altar" where
  "grant_decr now terms token a =
     (if length terms \<noteq> 2 then refuse token (IncorrectNumberOfArguments DECR) a
      else (case drop 1 terms of
              key # _ \<Rightarrow> pray (\<lambda>t. temple_decr t token key (as_secs now)) a
            | _ \<Rightarrow> refuse token (IncorrectNumberOfArguments DECR) a))"

definition grant_append :: "system_time \<Rightarrow> bytes list \<Rightarrow> token \<Rightarrow> altar \<Rightarrow> altar" where
  "grant_append now terms token a =
     (if length terms \<noteq> 3 then refuse token (IncorrectNumberOfArguments APPEND) a
      else (case drop 1 terms of
              key # v # _ \<Rightarrow> pray (\<lambda>t. temple_append t token key v (as_secs now)) a
            | _ \<Rightarrow> refuse token (IncorrectNumberOfArguments APPEND) a))"

fun field_value_loop :: "bytes list \<Rightarrow> (bytes \<times> bytes) list \<Rightarrow> (bytes \<times> bytes) list" where
  "field_value_loop (field # v # terms) acc = field_value_loop terms (acc @ [(field, v)])"
| "field_value_loop _ acc = acc"

definition grant_hset :: "system_time \<Rightarrow> bytes list \<Rightarrow> token \<Rightarrow> altar \<Rightarrow> altar" where
  "grant_hset now terms token a =
     (if length terms < 4 \<or> odd (length terms) then refuse token (IncorrectNumberOfArguments HSET) a
      else (case drop 1 terms of
              key # rest \<Rightarrow> pray (\<lambda>t. temple_hset t token key (field_value_loop rest []) (as_secs now)) a
            | _ \<Rightarrow> a))"

definition grant_hget :: "system_time \<Rightarrow> bytes list \<Rightarrow> token \<Rightarrow> altar \<Rightarrow> altar" where
  "grant_hget now terms token a =
     (if length terms \<noteq> 3 then refuse token (IncorrectNumberOfArguments HGET) a
      else (case drop 1 terms of
              key # field # _ \<Rightarrow> pray (\<lambda>t. temple_hget t token key field (as_secs now)) a
            | _ \<Rightarrow> refuse token (IncorrectNumberOfArguments HGET) a))"

definition grant_hmget :: "system_time \<Rightarrow> bytes list \<Rightarrow> token \<Rightarrow> altar \<Rightarrow> altar" where
  "grant_hmget now terms token a =
     (if length terms < 3 then refuse token (IncorrectNumberOfArguments HMGET) a
      else (case drop 1 terms of
              key # flds \<Rightarrow> pray (\<lambda>t. temple_hmget t token key flds (as_secs now)) a
            | _ \<Rightarrow> a))"

definition grant_strlen :: "system_time \<Rightarrow> bytes list \<Rightarrow> token \<Rightarrow> altar \<Rightarrow> altar" where
  "grant_strlen now terms token a =
     (if length terms \<noteq> 2 then refuse token (IncorrectNumberOfArguments STRLEN) a
      else (case drop 1 terms of
              key # _ \<Rightarrow> pray (\<lambda>t. temple_strlen t token key (as_secs now)) a
            | _ \<Rightarrow> refuse token (IncorrectNumberOfArguments STRLEN) a))"

definition grant_hdel :: "system_time \<Rightarrow> bytes list \<Rightarrow> token \<Rightarrow> altar \<Rightarrow> altar" where
  "grant_hdel now terms token a =
     (if length terms < 3 then refuse token (IncorrectNumberOfArguments HDEL) a
      else (case drop 1 terms of
              key # flds \<Rightarrow> pray (\<lambda>t. temple_hdel t token key flds (as_secs now)) a
            | _ \<Rightarrow> a))"

definition grant_hexists :: "system_time \<Rightarrow> bytes list \<Rightarrow> token \<Rightarrow> altar \<Rightarrow> altar" where
  "grant_hexists now terms token a =
     (if length terms \<noteq> 3 then refuse token (IncorrectNumberOfArguments HEXISTS) a
      else (case drop 1 terms of
              key # field # _ \<Rightarrow> pray (\<lambda>t. temple_hexists t token key field (as_secs now)) a
            | _ \<Rightarrow> refuse token (IncorrectNumberOfArguments HEXISTS) a))"

definition grant_hlen :: "system_time \<Rightarrow> bytes list \<Rightarrow> token \<Rightarrow> altar \<Rightarrow> altar" where
  "grant_hlen now terms token a =
     (if length terms \<noteq> 2 then refuse token (IncorrectNumberOfArguments HLEN) a
      else (case drop 1 terms of
              key # _ \<Rightarrow> pray (\<lambda>t. temple_hlen t token key (as_secs now)) a
            | _ \<Rightarrow> refuse token (IncorrectNumberOfArguments HLEN) a))"

definition grant_lpush :: "system_time \<Rightarrow> bytes list \<Rightarrow> token \<Rightarrow> altar \<Rightarrow> altar" where
  "grant_lpush now terms token a =
     (if length terms < 3 then refuse token (IncorrectNumberOfArguments LPUSH) a
      else (case drop 1 terms of
              key # elements \<Rightarrow> pray (\<lambda>t. temple_lpush t token key elements (as_secs now)) a
            | _ \<Rightarrow> a))"

definition grant_lpop :: "system_time \<Rightarrow> bytes list \<Rightarrow> token \<Rightarrow> altar \<Rightarrow> altar" where
  "grant_lpop now terms token a =
     (if length terms > 3 then refuse token (IncorrectNumberOfArguments LPOP) a
      else (case drop 1 terms of
              key # count # _ \<Rightarrow>
                (case bytes_to_usize count of
                   Inr c \<Rightarrow> pray (\<lambda>t. temple_lpop_m t token key c (as_secs now)) a
                 | Inl _ \<Rightarrow> refuse token (IncorrectUsage LPOP) a)
            | [key] \<Rightarrow> pray (\<lambda>t. temple_lpop t token key (as_secs now)) a
            | [] \<Rightarrow> refuse token (IncorrectNumberOfArguments LPOP) a))"

definition grant_rpush :: "system_time \<Rightarrow> bytes list \<Rightarrow> token \<Rightarrow> altar \<Rightarrow> altar" where
  "grant_rpush now terms token a =
     (if length terms < 3 then refuse token (IncorrectNumberOfArguments RPUSH) a
      else (case drop 1 terms of
              key # elements \<Rightarrow> pray (\<lambda>t. temple_rpush t token key elements (as_secs now)) a
            | _ \<Rightarrow> a))"

definition grant_rpop :: "system_time \<Rightarrow> bytes list \<Rightarrow> token \<Rightarrow> altar \<Rightarrow> altar" where
  "grant_rpop now terms token a =
     (if length terms > 3 then refuse token (IncorrectNumberOfArguments RPOP) a
      else (case drop 1 terms of
              key # count # _ \<Rightarrow>
                (case bytes_to_usize count of
                   Inr c \<Rightarrow> pray (\<lambda>t. temple_rpop_m t token key c (as_secs now)) a
                 | Inl _ \<Rightarrow> refuse token (IncorrectUsage RPOP) a)
            | [key] \<Rightarrow> pray (\<lambda>t. temple_rpop t token key (as_secs now)) a
            | [] \<Rightarrow> refuse token (IncorrectNumberOfArguments RPOP) a))"

definition grant_llen :: "system_time \<Rightarrow> bytes list \<Rightarrow> token \<Rightarrow> altar \<Rightarrow> altar" where
  "grant_llen now terms token a =
     (if length terms \<noteq> 2 then refuse token (IncorrectNumberOfArguments LLEN) a
      else (case drop 1 terms of
              key # _ \<Rightarrow> pray (\<lambda>t. temple_llen t token key (as_secs now)) a
            | _ \<Rightarrow> refuse token (IncorrectNumberOfArguments LLEN) a))"

definition grant_lrange :: "system_time \<Rightarrow> bytes list \<Rightarrow> token \<Rightarrow> altar \<Rightarrow> altar" where
  "grant_lrange now terms token a =
     (if length terms \<noteq> 4 then refuse token (IncorrectNumberOfArguments LRANGE) a
      else (case drop 1 terms of
              key # starting_index # ending_index # _ \<Rightarrow>
                (case (bytes_to_i32 starting_index, bytes_to_i32 ending_index) of
                   (Inr i, Inr j) \<Rightarrow> pray (\<lambda>t. temple_lrange t token key i j (as_secs now)) a
                 | _ \<Rightarrow> refuse token (IncorrectUsage LRANGE) a)
            | _ \<Rightarrow> refuse token (IncorrectNumberOfArguments LRANGE) a))"

definition grant_lindex :: "system_time \<Rightarrow> bytes list \<Rightarrow> token \<Rightarrow> altar \<Rightarrow> altar" where
  "grant_lindex now terms token a =
     (let (sent, tx) =
            (if length terms \<noteq> 3
             then send (a_egress a) (Deliver \<lparr>gift_token = token,
                    gift_response = Error (IncorrectNumberOfArguments LINDEX)\<rparr>)
             else (True, a_egress a));
          a = a\<lparr>a_egress := tx\<rparr>
      in if \<not> sent then a
         else (case drop 1 terms of
                 key # index # _ \<Rightarrow>
                   (case bytes_to_i32 index of
                      Inr i \<Rightarrow> pray (\<lambda>t. temple_lindex t token key i (as_secs now)) a
                    | Inl _ \<Rightarrow> refuse token (IncorrectUsage LINDEX) a)
               | _ \<Rightarrow> refuse token (IncorrectNumberOfArguments LINDEX) a))"

definition grant_lset :: "system_time \<Rightarrow> bytes list \<Rightarrow> token \<Rightarrow> altar \<Rightarrow> altar" where
  "grant_lset now terms token a =
     (if length terms \<noteq> 4 then refuse token (IncorrectNumberOfArguments LSET) a
      else (case drop 1 terms of
              key # index # element # _ \<Rightarrow>
                (case bytes_to_i32 index of
                   Inr i \<Rightarrow> pray (\<lambda>t. temple_lset t token key i element (as_secs now)) a
                 | Inl _ \<Rightarrow> refuse token (IncorrectUsage LSET) a)
            | _ \<Rightarrow> refuse token (IncorrectNumberOfArguments LSET) a))"

definition grant_lrem :: "system_time \<Rightarrow> bytes list \<Rightarrow> token \<Rightarrow> altar \<Rightarrow> altar" where
  "grant_lrem now terms token a =
     (if length terms \<noteq> 4 then refuse token (IncorrectNumberOfArguments LREM) a
      else (case drop 1 terms of
              key # count # element # _ \<Rightarrow>
                (case bytes_to_i32 count of
                   Inr i \<Rightarrow> pray (\<lambda>t. temple_lrem t token key i element (as_secs now)) a
                 | Inl _ \<Rightarrow> refuse token (IncorrectUsage LREM) a)
            | _ \<Rightarrow> refuse token (IncorrectNumberOfArguments LREM) a))"

definition grant_expire :: "system_time \<Rightarrow> bytes list \<Rightarrow> token \<Rightarrow> altar \<Rightarrow> altar" where
  "grant_expire now terms token a =
     (if length terms \<noteq> 3 then refuse token (IncorrectNumberOfArguments EXPIRE) a
      else (case drop 1 terms of
              key # expiry # _ \<Rightarrow>
                (case bytes_to_u64 expiry of
                   Inr e \<Rightarrow> pray (\<lambda>t. temple_expire t token key (as_secs now + e) (as_secs now)) a
                 | Inl _ \<Rightarrow> refuse token (IncorrectUsage EXPIRE) a)
            | _ \<Rightarrow> refuse token (IncorrectNumberOfArguments EXPIRE) a))"

definition grant_ttl :: "system_time \<Rightarrow> bytes list \<Rightarrow> token \<Rightarrow> altar \<Rightarrow> altar" where
  "grant_ttl now terms token a =
     (if length terms \<noteq> 2 then refuse token (IncorrectNumberOfArguments TTL) a
      else (case drop 1 terms of
              key # _ \<Rightarrow> pray (\<lambda>t. temple_ttl t token key now) a
            | _ \<Rightarrow> refuse token (IncorrectNumberOfArguments TTL) a))"

definition grant_subscribe :: "bytes list \<Rightarrow> token \<Rightarrow> altar \<Rightarrow> altar" where
  "grant_subscribe terms token a =
     (if length terms < 2 then refuse token (IncorrectNumberOfArguments SUBSCRIBE) a
      else pray (\<lambda>t. temple_subscribe t token (drop 1 terms)) a)"

definition grant_publish :: "bytes list \<Rightarrow> token \<Rightarrow> altar \<Rightarrow> altar" where
  "grant_publish terms token a =
     (if length terms \<noteq> 3 then refuse token (IncorrectNumberOfArguments PUBLISH) a
      else (case drop 1 terms of
              event # message # _ \<Rightarrow> pray (\<lambda>t. temple_publish t token event message) a
            | _ \<Rightarrow> refuse token (IncorrectNumberOfArguments PUBLISH) a))"

definition grant_mset :: "bytes list \<Rightarrow> token \<Rightarrow> altar \<Rightarrow> altar" where
  "grant_mset terms token a =
     (if length terms < 3 \<or> even (length terms) then refuse token (IncorrectNumberOfArguments MSET) a
      else pray (\<lambda>t. temple_mset t token (drop 1 terms)) a)"

definition grant_mget :: "system_time \<Rightarrow> bytes list \<Rightarrow> token \<Rightarrow> altar \<Rightarrow> altar" where
  "grant_mget now terms token a =
     (if length terms < 2 then refuse token (IncorrectNumberOfArguments MGET) a
      else pray (\<lambda>t. temple_mget t token (drop 1 terms) (as_secs now)) a)"

definition grant_sadd :: "system_time \<Rightarrow> bytes list \<Rightarrow> token \<Rightarrow> altar \<Rightarrow> altar" where
  "grant_sadd now terms token a =
     (if length terms < 3 then refuse token (IncorrectNumberOfArguments SADD) a
      else (case drop 1 terms of
              key # vals \<Rightarrow> pray (\<lambda>t. temple_sadd t token key vals (as_secs now)) a
            | _ \<Rightarrow> a))"

definition grant_srem :: "system_time \<Rightarrow> bytes list \<Rightarrow> token \<Rightarrow> altar \<Rightarrow> altar" where
  "grant_srem now terms token a =
     (if length terms < 3 then refuse token (IncorrectNumberOfArguments SREM) a
      else (case drop 1 terms of
              key # vals \<Rightarrow> pray (\<lambda>t. temple_srem t token key vals (as_secs now)) a
            | _ \<Rightarrow> a))"

definition grant_sismember :: "system_time \<Rightarrow> bytes list \<Rightarrow> token \<Rightarrow> altar \<Rightarrow> altar" where
  "grant_sismember now terms token a =
     (if length terms \<noteq> 3 then refuse token (IncorrectNumberOfArguments SISMEMBER) a
      else (case drop 1 terms of
              key # v # _ \<Rightarrow> pray (\<lambda>t. temple_sismember t token key v (as_secs now)) a
            | _ \<Rightarrow> refuse token (IncorrectNumberOfArguments SISMEMBER) a))"

definition grant_hgetall :: "system_time \<Rightarrow> bytes list \<Rightarrow> token \<Rightarrow> altar \<Rightarrow> altar" where
  "grant_hgetall now terms token a =
     (if length terms \<noteq> 2 then refuse token (IncorrectNumberOfArguments HGETALL) a
      else (case drop 1 terms of
              key # _ \<Rightarrow> pray (\<lambda>t. temple_hgetall t token key (as_secs now)) a
            | _ \<Rightarrow> refuse token (IncorrectNumberOfArguments HGETALL) a))"

definition grant_smembers :: "system_time \<Rightarrow> bytes list \<Rightarrow> token \<Rightarrow> altar \<Rightarrow> altar" where
  "grant_smembers now terms token a =
     (if length terms \<noteq> 2 then refuse token (IncorrectNumberOfArguments SMEMBERS) a
      else (case drop 1 terms of
              key # _ \<Rightarrow> pray (\<lambda>t. temple_smembers t token key (as_secs now)) a
            | _ \<Rightarrow> refuse token (IncorrectNumberOfArguments SMEMBERS) a))"

definition grant_unsubscribe :: "bytes list \<Rightarrow> token \<Rightarrow> altar \<Rightarrow> altar" where
  "grant_unsubscribe terms token a =
     pray (\<lambda>t. temple_unsubscribe t token (drop 1 terms)) a"

definition grant_config :: "bytes list \<Rightarrow> token \<Rightarrow> altar \<Rightarrow> altar" where
  "grant_config terms token a =
     (if length terms < 3 then refuse token (IncorrectNumberOfArguments CONFIG) a
      else (case drop 1 terms of
              [] \<Rightarrow> refuse token (IncorrectNumberOfArguments CONFIG) a
            | command # properties \<Rightarrow>
                if \<not> eq_ignore_ascii_case command (bstr ''GET'') then refuse token (IncorrectUsage CONFIG) a
                else pray (\<lambda>t. temple_config_get t token properties) a))"

definition grant_command :: "bytes list \<Rightarrow> token \<Rightarrow> altar \<Rightarrow> altar" where
  "grant_command terms token a =
     (if length terms \<noteq> 1 then refuse token (IncorrectNumberOfArguments COMMAND) a
      else respond token (Info Command) a)"

subsection \<open>The dispatch\<close>

text \<open>\<open>terms[0]\<close> panics on an empty request (\<open>None\<close>).\<close>

definition dispatch :: "bytes \<Rightarrow> system_time \<Rightarrow> bytes list \<Rightarrow> token \<Rightarrow> altar \<Rightarrow> altar" where
  "dispatch cmd now terms token a =
          (if eq_ignore_ascii_case cmd (bstr ''SET'') then grant_set now terms token a
           else if eq_ignore_ascii_case cmd (bstr ''GET'') then grant_get now terms token a
           else if eq_ignore_ascii_case cmd (bstr ''PING'') then grant_ping terms token a
           else if eq_ignore_ascii_case cmd (bstr ''DEL'') then grant_del now terms token a
           else if eq_ignore_ascii_case cmd (bstr ''EXISTS'') then grant_exists now terms token a
           else if eq_ignore_ascii_case cmd (bstr ''INCRBY'') then grant_incrby now terms token a
           else if eq_ignore_ascii_case cmd (bstr ''INCR'') then grant_incr now terms token a
           else if eq_ignore_ascii_case cmd (bstr ''DECR'') then grant_decr now terms token a
           else if eq_ignore_ascii_case cmd (bstr ''APPEND'') then grant_append now terms token a
           else if eq_ignore_ascii_case cmd (bstr ''HSET'') then grant_hset now terms token a
           else if eq_ignore_ascii_case cmd (bstr ''HGET'') then grant_hget now terms token a
           else if eq_ignore_ascii_case cmd (bstr ''HMGET'') then grant_hmget now terms token a
           else if eq_ignore_ascii_case cmd (bstr ''STRLEN'') then grant_strlen now terms token a
           else if eq_ignore_ascii_case cmd (bstr ''HDEL'') then grant_hdel now terms token a
           else if eq_ignore_ascii_case cmd (bstr ''HEXISTS'') then grant_hexists now terms token a
           else if eq_ignore_ascii_case cmd (bstr ''HLEN'') then grant_hlen now terms token a
           else if eq_ignore_ascii_case cmd (bstr ''LPUSH'') then grant_lpush now terms token a
           else if eq_ignore_ascii_case cmd (bstr ''LPOP'') then grant_lpop now terms token a
           else if eq_ignore_ascii_case cmd (bstr ''RPUSH'') then grant_rpush now terms token a
           else if eq_ignore_ascii_case cmd (bstr ''RPOP'') then grant_rpop now terms token a
           else if eq_ignore_ascii_case cmd (bstr ''LLEN'') then grant_llen now terms token a
           else if eq_ignore_ascii_case cmd (bstr ''LRANGE'') then grant_lrange now terms token a
           else if eq_ignore_ascii_case cmd (bstr ''LINDEX'') then grant_lindex now terms token a
           else if eq_ignore_ascii_case cmd (bstr ''LSET'') then grant_lset now terms token a
           else if eq_ignore_ascii_case cmd (bstr ''LREM'') then grant_lrem now terms token a
           else if eq_ignore_ascii_case cmd (bstr ''EXPIRE'') then grant_expire now terms token a
           else if eq_ignore_ascii_case cmd (bstr ''TTL'') then grant_ttl now terms token a
           else if eq_ignore_ascii_case cmd (bstr ''SUBSCRIBE'') then grant_subscribe terms token a
           else if eq_ignore_ascii_case cmd (bstr ''PUBLISH'') then grant_publish terms token a
           else if eq_ignore_ascii_case cmd (bstr ''MSET'') then grant_mset terms token a
           else if eq_ignore_ascii_case cmd (bstr ''MGET'') then grant_mget now terms token a
           else if eq_ignore_ascii_case cmd (bstr ''SADD'') then grant_sadd now terms token a
           else if eq_ignore_ascii_case cmd (bstr ''SREM'') then grant_srem now terms token a
           else if eq_ignore_ascii_case cmd (bstr ''SISMEMBER'') then grant_sismember now terms token a
           else if eq_ignore_ascii_case cmd (bstr ''HGETALL'') then grant_hgetall now terms token a
           else if eq_ignore_ascii_case cmd (bstr ''SMEMBERS'') then grant_smembers now terms token a
           else if eq_ignore_ascii_case cmd (bstr ''UNSUBSCRIBE'') then grant_unsubscribe terms token a
           else if eq_ignore_ascii_case cmd (bstr ''CONFIG'') then grant_config terms token a
           else if eq_ignore_ascii_case cmd (bstr ''QUIT'') then respond token (Info Ok) a
           else if eq_ignore_ascii_case cmd (bstr ''COMMAND'') then grant_command terms token a
           else refuse token UnknownCommand a)"

definition grant :: "system_time \<Rightarrow> bytes list \<Rightarrow> token \<Rightarrow> altar \<Rightarrow> altar option" where
  "grant now terms token a =
     (case terms of [] \<Rightarrow> None | cmd # _ \<Rightarrow> Some (dispatch cmd now terms token a))"

lemmas handlers = grant_set_def grant_get_def grant_ping_def grant_del_def grant_exists_def grant_incrby_def
  grant_incr_def grant_decr_def grant_append_def grant_hset_def grant_hget_def grant_hmget_def
  grant_strlen_def grant_hdel_def grant_hexists_def grant_hlen_def grant_lpush_def
  grant_lpop_def grant_rpush_def grant_rpop_def grant_llen_def grant_lrange_def
  grant_lindex_def grant_lset_def grant_lrem_def grant_expire_def grant_ttl_def
  grant_subscribe_def grant_publish_def grant_mset_def grant_mget_def grant_sadd_def
  grant_srem_def grant_sismember_def grant_hgetall_def grant_smembers_def
  grant_unsubscribe_def grant_config_def grant_command_def

lemmas [operations] = respond_def refuse_def pray_def

text \<open>A command word counts only up to the case of its letters.\<close>

lemma dispatch_case: "eq_ignore_ascii_case a b \<Longrightarrow> dispatch a now terms token al = dispatch b now terms token al"
  by (simp only: dispatch_def eq_ignore_ascii_case_def)

text \<open>A handler never looks at the command word itself.\<close>

lemma handlers_skip_word:
  "grant_set now (a # args) token al = grant_set now (b # args) token al"
  "grant_get now (a # args) token al = grant_get now (b # args) token al"
  "grant_ping (a # args) token al = grant_ping (b # args) token al"
  "grant_del now (a # args) token al = grant_del now (b # args) token al"
  "grant_exists now (a # args) token al = grant_exists now (b # args) token al"
  "grant_incrby now (a # args) token al = grant_incrby now (b # args) token al"
  "grant_incr now (a # args) token al = grant_incr now (b # args) token al"
  "grant_decr now (a # args) token al = grant_decr now (b # args) token al"
  "grant_append now (a # args) token al = grant_append now (b # args) token al"
  "grant_hset now (a # args) token al = grant_hset now (b # args) token al"
  "grant_hget now (a # args) token al = grant_hget now (b # args) token al"
  "grant_hmget now (a # args) token al = grant_hmget now (b # args) token al"
  "grant_strlen now (a # args) token al = grant_strlen now (b # args) token al"
  "grant_hdel now (a # args) token al = grant_hdel now (b # args) token al"
  "grant_hexists now (a # args) token al = grant_hexists now (b # args) token al"
  "grant_hlen now (a # args) token al = grant_hlen now (b # args) token al"
  "grant_lpush now (a # args) token al = grant_lpush now (b # args) token al"
  "grant_lpop now (a # args) token al = grant_lpop now (b # args) token al"
  "grant_rpush now (a # args) token al = grant_rpush now (b # args) token al"
  "grant_rpop now (a # args) token al = grant_rpop now (b # args) token al"
  "grant_llen now (a # args) token al = grant_llen now (b # args) token al"
  "grant_lrange now (a # args) token al = grant_lrange now (b # args) token al"
  "grant_lindex now (a # args) token al = grant_lindex now (b # args) token al"
  "grant_lset now (a # args) token al = grant_lset now (b # args) token al"
  "grant_lrem now (a # args) token al = grant_lrem now (b # args) token al"
  "grant_expire now (a # args) token al = grant_expire now (b # args) token al"
  "grant_ttl now (a # args) token al = grant_ttl now (b # args) token al"
  "grant_subscribe (a # args) token al = grant_subscribe (b # args) token al"
  "grant_publish (a # args) token al = grant_publish (b # args) token al"
  "grant_mset (a # args) token al = grant_mset (b # args) token al"
  "grant_mget now (a # args) token al = grant_mget now (b # args) token al"
  "grant_sadd now (a # args) token al = grant_sadd now (b # args) token al"
  "grant_srem now (a # args) token al = grant_srem now (b # args) token al"
  "grant_sismember now (a # args) token al = grant_sismember now (b # args) token al"
  "grant_hgetall now (a # args) token al = grant_hgetall now (b # args) token al"
  "grant_smembers now (a # args) token al = grant_smembers now (b # args) token al"
  "grant_unsubscribe (a # args) token al = grant_unsubscribe (b # args) token al"
  "grant_config (a # args) token al = grant_config (b # args) token al"
  "grant_command (a # args) token al = grant_command (b # args) token al"
  by (simp_all add: handlers Let_def split: prod.split)

lemma dispatch_lindex: "dispatch (bstr ''LINDEX'') now terms token al = grant_lindex now terms token al"
  by (simp add: dispatch_def evaluates)

lemma grant_case:
  assumes "eq_ignore_ascii_case a b"
  shows "grant now (a # args) token al = grant now (b # args) token al"
  unfolding grant_def list.case dispatch_case[OF assms]
  by (simp only: dispatch_def handlers_skip_word[where a = a and b = b and args = args and token = token and al = al])

lemma field_value_loop_eq: "field_value_loop terms acc = acc @ pairs_of terms"
  by (induction terms acc rule: field_value_loop.induct) simp_all

subsection \<open>What a handler sends\<close>

text \<open>
  A wish is well formed when it carries the handler's time, its integers are in range, and a
  subscription names an event.
\<close>

fun arguments_ok :: "database_command \<Rightarrow> bool" where
  "arguments_ok (Incrby _ n _) = is_i64 n"
| "arguments_ok (LpopM _ n _) = (n < 2 ^ 64)"
| "arguments_ok (RpopM _ n _) = (n < 2 ^ 64)"
| "arguments_ok (Lrange _ i j _) = (is_i32 i \<and> is_i32 j)"
| "arguments_ok (Lindex _ i _) = is_i32 i"
| "arguments_ok (Lset _ i _ _) = is_i32 i"
| "arguments_ok (Lrem _ i _ _) = is_i32 i"
| "arguments_ok (Hset _ ps _) = (ps \<noteq> [])"
| "arguments_ok _ = True"

fun client_ok :: "system_time \<Rightarrow> client_command_type \<Rightarrow> bool" where
  "client_ok now (Database cmd) \<longleftrightarrow>
     (command_time cmd = None \<or> command_time cmd = Some (as_secs now)) \<and> arguments_ok cmd"
| "client_ok now (client_command_type.Broadcast (Subscribe events)) \<longleftrightarrow> events \<noteq> []"
| "client_ok now _ \<longleftrightarrow> True"

text \<open>A request is answered once: by one well-formed wish or by one response, and nothing else.\<close>

definition answered :: "system_time \<Rightarrow> token \<Rightarrow> altar \<Rightarrow> altar \<Rightarrow> bool" where
  "answered now token a a' \<longleftrightarrow>
     (\<exists>cc. client_ok now cc \<and> a' = pray (\<lambda>t. temple_send t token cc) a) \<or>
     (\<exists>r. a' = respond token r a)"

lemma answered_refuse [intro, simp]: "answered now token a (refuse token s a)"
  by (auto simp: answered_def refuse_def)

lemma answered_respond [intro, simp]: "answered now token a (respond token r a)"
  by (auto simp: answered_def)

lemma answered_pray [intro]:
  "client_ok now cc \<Longrightarrow> answered now token a (pray (\<lambda>t. temple_send t token cc) a)"
  by (auto simp: answered_def)

lemma parsed_ranges:
  "bytes_to_i32 bs = Inr i \<Longrightarrow> is_i32 i"
  "bytes_to_i64 bs = Inr j \<Longrightarrow> is_i64 j"
  "bytes_to_usize bs = Inr n \<Longrightarrow> n < 18446744073709551616"
  by (auto simp: bytes_to_i32_def bytes_to_i64_def bytes_to_signed_iff bytes_to_usize_iff is_i32_def
      is_i64_def abs_le_iff)

lemma pairs_of_nonempty: "2 \<le> length terms \<Longrightarrow> pairs_of terms \<noteq> []"
  by (cases terms rule: pairs_of.cases) simp_all

lemma pairs_of_empty: "pairs_of terms = [] \<Longrightarrow> length terms < 2"
  using pairs_of_nonempty by (meson not_less)

lemma drop1_cons: "drop (Suc 0) terms = x # ys \<Longrightarrow> length terms = Suc (Suc (length ys))"
  by (cases terms) auto

lemma handlers_answer:
  "answered now token a (grant_set now terms token a)"
  "answered now token a (grant_get now terms token a)"
  "answered now token a (grant_ping terms token a)"
  "answered now token a (grant_del now terms token a)"
  "answered now token a (grant_exists now terms token a)"
  "answered now token a (grant_incrby now terms token a)"
  "answered now token a (grant_incr now terms token a)"
  "answered now token a (grant_decr now terms token a)"
  "answered now token a (grant_append now terms token a)"
  "answered now token a (grant_hset now terms token a)"
  "answered now token a (grant_hget now terms token a)"
  "answered now token a (grant_hmget now terms token a)"
  "answered now token a (grant_strlen now terms token a)"
  "answered now token a (grant_hdel now terms token a)"
  "answered now token a (grant_hexists now terms token a)"
  "answered now token a (grant_hlen now terms token a)"
  "answered now token a (grant_lpush now terms token a)"
  "answered now token a (grant_lpop now terms token a)"
  "answered now token a (grant_rpush now terms token a)"
  "answered now token a (grant_rpop now terms token a)"
  "answered now token a (grant_llen now terms token a)"
  "answered now token a (grant_lrange now terms token a)"
  "answered now token a (grant_lset now terms token a)"
  "answered now token a (grant_lrem now terms token a)"
  "answered now token a (grant_expire now terms token a)"
  "answered now token a (grant_ttl now terms token a)"
  "answered now token a (grant_subscribe terms token a)"
  "answered now token a (grant_publish terms token a)"
  "answered now token a (grant_mset terms token a)"
  "answered now token a (grant_mget now terms token a)"
  "answered now token a (grant_sadd now terms token a)"
  "answered now token a (grant_srem now terms token a)"
  "answered now token a (grant_sismember now terms token a)"
  "answered now token a (grant_hgetall now terms token a)"
  "answered now token a (grant_smembers now terms token a)"
  "answered now token a (grant_unsubscribe terms token a)"
  "answered now token a (grant_config terms token a)"
  "answered now token a (grant_command terms token a)"
  by (auto simp: handlers temple_senders field_value_loop_eq parsed_ranges
      split: list.split sum.split intro!: answered_pray dest!: drop1_cons pairs_of_empty)

lemma lindex_answers: "length terms = 3 \<Longrightarrow> answered now token a (grant_lindex now terms token a)"
  by (auto simp: grant_lindex_def temple_lindex_def parsed_ranges split: list.split sum.split
      intro!: answered_pray)

text \<open>
  With any other number of terms \<open>LINDEX\<close> reports the error and goes on: one term gives two errors,
  four or more give an error and the command's own answer.
\<close>

lemma lindex_continues:
  assumes "length terms \<noteq> 3" "receiver_alive (a_egress a)"
  shows "grant_lindex now terms token a =
    (let a' = refuse token (IncorrectNumberOfArguments LINDEX) a
     in case drop 1 terms of
          key # index # _ \<Rightarrow>
            (case bytes_to_i32 index of
               Inr i \<Rightarrow> pray (\<lambda>t. temple_lindex t token key i (as_secs now)) a'
             | Inl _ \<Rightarrow> refuse token (IncorrectUsage LINDEX) a')
        | _ \<Rightarrow> refuse token (IncorrectNumberOfArguments LINDEX) a')"
  using assms by (simp add: grant_lindex_def refuse_def respond_def deliver_def Let_def)

lemma lindex_wrong_arity:
  assumes "length terms \<noteq> 3" "receiver_alive (a_egress a)"
  shows "answered now token (refuse token (IncorrectNumberOfArguments LINDEX) a) (grant_lindex now terms token a)"
  unfolding lindex_continues[OF assms]
  by (auto simp: temple_lindex_def parsed_ranges Let_def split: list.split sum.split intro!: answered_pray)

definition lindex_arity_ok :: "bytes list \<Rightarrow> bool" where
  "lindex_arity_ok terms = (eq_ignore_ascii_case (hd terms) (bstr ''LINDEX'') \<longrightarrow> length terms = 3)"

lemma grant_answers:
  assumes "terms \<noteq> []" "lindex_arity_ok terms"
  shows "\<exists>a'. grant now terms token a = Some a' \<and> answered now token a a'"
proof -
  obtain cmd rest where t: "terms = cmd # rest" using assms(1) by (cases terms) auto
  have "answered now token a (dispatch cmd now terms token a)"
    unfolding dispatch_def
    using assms(2) t by (simp add: handlers_answer lindex_answers lindex_arity_ok_def split: if_split)
  then show ?thesis by (simp add: grant_def t)
qed

end
