(* ===== verification/Worship.thy ===== *)
theory Worship
  imports Database Handlers
begin

section \<open>What the god thread guarantees\<close>

text \<open>
  The invariant of the thread's state, the answers it sends, and the life of one request from the
  handler through the thread to the egress channel.
\<close>

subsection \<open>Invariant\<close>

definition god_wf :: "god \<Rightarrow> bool" where
  "god_wf g = pubsub_consistent (g_clients g) (g_events g) (g_subscribed g)"

fun events_named :: "client_command_type \<Rightarrow> bool" where
  "events_named (client_command_type.Broadcast (Subscribe events)) = (events \<noteq> [])"
| "events_named _ = True"

lemma client_ok_events: "client_ok now cc \<Longrightarrow> events_named cc"
  by (cases "(now, cc)" rule: client_ok.cases) simp_all

lemma god_start_wf: "god_wf (god_start ar disk dir f ip port io ec mm ao)"
  by (simp add: god_wf_def god_start_def pubsub_consistent_empty)

lemma serve_broadcast_wf:
  assumes "god_wf g" "hash_iteration (rt_bytes rt)" "events_named (client_command_type.Broadcast bc)"
  shows "god_wf (fst (serve_broadcast rt g tx token bc))"
proof (cases bc)
  case (Subscribe events)
  with assms subscribe_consistent[of "g_clients g" "g_events g" "g_subscribed g" events token] show ?thesis
    by (simp add: god_wf_def case_prod_unfold Let_def)
next
  case (Unsubscribe terms)
  obtain em sc r where u: "event_map_unsubscribe (rt_bytes rt) (g_events g) terms token (g_subscribed g) = (em, sc, r)"
    by (metis prod_cases3)
  with assms unsubscribe_consistent[OF _ _ u] Unsubscribe show ?thesis by (simp add: god_wf_def Let_def)
next
  case (Publish event message)
  with assms show ?thesis by (simp add: Let_def)
qed

lemma serve_client_wf:
  assumes "god_wf g" "hash_iteration (rt_bytes rt)" "events_named cc"
    and "serve_client rt g tx token cc = Some (g', tx')"
  shows "god_wf g'"
proof (cases cc)
  case (Database cmd)
  with assms show ?thesis by (auto simp: god_wf_def split: if_splits option.splits)
next
  case (Broadcast bc)
  with assms serve_broadcast_wf[of g rt bc tx token] show ?thesis by simp
qed

subsection \<open>Answers\<close>

lemma deliver_alive:
  "receiver_alive tx \<Longrightarrow> deliver token r tx =
     tx\<lparr>queue := queue tx @ [Deliver \<lparr>gift_token = token, gift_response = r\<rparr>]\<rparr>"
  by (simp add: deliver_def)

text \<open>Every client command that does not panic is answered by one decree about its token.\<close>

lemma serve_client_answers:
  assumes "receiver_alive tx" "serve_client rt g tx token cc = Some (g', tx')"
  shows "\<exists>d. tx' = tx\<lparr>queue := queue tx @ [d]\<rparr> \<and> decree_token d = token"
proof (cases cc)
  case (Database cmd)
  with assms show ?thesis
    by (auto simp: deliver_alive split: if_splits option.splits)
next
  case (Broadcast bc)
  with assms show ?thesis
    by (cases bc) (auto simp: deliver_alive case_prod_unfold Let_def)
qed

text \<open>The commands that cannot panic: all but \<open>TTL\<close> of an expiry beyond the clock.\<close>

fun safe_command :: "soul \<Rightarrow> database_command \<Rightarrow> bool" where
  "safe_command soul (Lrange _ i j _) = (is_i32 i \<and> is_i32 j)"
| "safe_command soul (Ttl key _) =
     (case fmlookup soul key of Some (_, Some e) \<Rightarrow> uint e < 2 ^ 63 | _ \<Rightarrow> True)"
| "safe_command soul _ = True"

lemma serve_database_total: "safe_command soul cmd \<Longrightarrow> serve_database rt config soul cmd \<noteq> None"
  by (cases cmd)
    (auto simp: arms lset_total lrem_total lrange_total serve_ttl_def soul_ttl_def epoch_plus_secs_def
      split: option.splits)

fun safe_client :: "god \<Rightarrow> client_command_type \<Rightarrow> bool" where
  "safe_client g (Database cmd) = safe_command (g_soul g) cmd"
| "safe_client g _ = True"

lemma serve_client_total: "safe_client g cc \<Longrightarrow> serve_client rt g tx token cc \<noteq> None"
  using serve_database_total[of "g_soul g" _ rt "g_config g"] by (cases cc) (fastforce split: option.splits)+

text \<open>A subscribed client's database command is refused and changes nothing.\<close>

lemma subscriber_mode:
  "token |\<in>| g_subscribed g \<Longrightarrow>
     serve_client rt g tx token (Database cmd) = Some (g, deliver token (Error SubscriberOnlyMode) tx)"
  by simp

text \<open>A broadcast goes to the clients of its event and to nobody else, once each.\<close>

lemma publish_recipients:
  assumes "god_wf g" "hash_iteration (rt_tokens rt)"
  shows "set (client_map_publish (rt_tokens rt) (g_clients g) event) =
      {t. event |\<in>| events_of (g_events g) t} \<and>
    distinct (client_map_publish (rt_tokens rt) (g_clients g) event)"
proof -
  have pub: "client_map_publish (rt_tokens rt) (g_clients g) event =
      (if fmlookup (g_clients g) event = None then [] else rt_tokens rt (clients_of (g_clients g) event))"
    by (auto simp: client_map_publish_def clients_of_def split: option.split)
  have "clients_of (g_clients g) event = {||}" if "fmlookup (g_clients g) event = None"
    using that by (simp add: clients_of_def)
  moreover have "t |\<in>| clients_of (g_clients g) event \<longleftrightarrow> event |\<in>| events_of (g_events g) t" for t
    using pubsub_consistentD(1)[OF assms(1)[unfolded god_wf_def]] .
  ultimately show ?thesis
    unfolding pub using hash_iteration.iter_set[OF assms(2)] hash_iteration.iter_distinct[OF assms(2)] by auto
qed

subsection \<open>The loop\<close>

definition client_wish :: "wish \<Rightarrow> bool" where
  "client_wish w = (case wish_command w of Client cc \<Rightarrow> events_named cc | Server _ \<Rightarrow> False)"

lemma god_step_client:
  assumes "client_wish wi" "god_wf (w_god w)" "hash_iteration (rt_bytes rt)" "receiver_alive (w_egress w)"
    and "god_step rt ar w wi = Running w'"
  shows "god_wf (w_god w') \<and>
    (\<exists>d. w_egress w' = (w_egress w)\<lparr>queue := queue (w_egress w) @ [d]\<rparr> \<and> decree_token d = wish_token wi)"
proof -
  obtain cc where cc: "wish_command wi = Client cc" "events_named cc"
    using assms(1) by (auto simp: client_wish_def split: command_type.splits)
  with assms(5) obtain g tx where s: "serve_client rt (w_god w) (w_egress w) (wish_token wi) cc = Some (g, tx)"
    "w' = w\<lparr>w_god := g, w_egress := tx\<rparr>" by (auto simp: god_step_def split: option.splits)
  from serve_client_wf[OF assms(2,3) cc(2) s(1)] serve_client_answers[OF assms(4) s(1)] s(2)
  show ?thesis by simp
qed

text \<open>Wishes are answered one for one, in the order they arrive.\<close>

lemma god_loop_answers:
  "list_all client_wish ws \<Longrightarrow> god_wf (w_god w) \<Longrightarrow> hash_iteration (rt_bytes rt) \<Longrightarrow>
   receiver_alive (w_egress w) \<Longrightarrow> god_loop rt ar w ws = Running w' \<Longrightarrow>
   god_wf (w_god w') \<and>
   (\<exists>ds. w_egress w' = (w_egress w)\<lparr>queue := queue (w_egress w) @ ds\<rparr> \<and> map decree_token ds = map wish_token ws)"
proof (induction ws arbitrary: w)
  case (Cons wi ws)
  obtain w1 where w1: "god_step rt ar w wi = Running w1" "god_loop rt ar w1 ws = Running w'"
    using Cons.prems(5) by (auto split: progress.splits)
  have "client_wish wi" "list_all client_wish ws" using Cons.prems(1) by simp_all
  from god_step_client[OF this(1) Cons.prems(2-4) w1(1)] obtain d where
    d: "god_wf (w_god w1)" "w_egress w1 = (w_egress w)\<lparr>queue := queue (w_egress w) @ [d]\<rparr>" "decree_token d = wish_token wi"
    by blast
  from Cons.IH[OF \<open>list_all client_wish ws\<close> d(1) Cons.prems(3) _ w1(2)] Cons.prems(4) d obtain ds where
    "god_wf (w_god w')" "w_egress w' = (w_egress w1)\<lparr>queue := queue (w_egress w1) @ ds\<rparr>"
    "map decree_token ds = map wish_token ws" by auto
  with d show ?case by (auto intro!: exI[of _ "d # ds"])
qed simp

subsection \<open>The life of a request\<close>

text \<open>
  A handler is given a request, and the god thread then serves what the handler sent (if anything).
\<close>

definition serve_request ::
  "runtime \<Rightarrow> archiver \<Rightarrow> world \<Rightarrow> system_time \<Rightarrow> token \<Rightarrow> bytes list \<Rightarrow> world progress" where
  "serve_request rt ar w now token terms =
     (case grant now terms token \<lparr>a_temple = \<lparr>receiver_alive = True, queue = []\<rparr>, a_egress = w_egress w\<rparr> of
        None \<Rightarrow> Panicked
      | Some a \<Rightarrow> god_loop rt ar (w\<lparr>w_egress := a_egress a\<rparr>) (queue (a_temple a)))"

text \<open>A request whose handler sends one database wish, from its effect to its reply.\<close>

lemma serve_request_wish:
  assumes "grant now terms token \<lparr>a_temple = \<lparr>receiver_alive = True, queue = []\<rparr>, a_egress = w_egress w\<rparr> =
      Some (pray (\<lambda>t. temple_send t token (Database cmd))
        \<lparr>a_temple = \<lparr>receiver_alive = True, queue = []\<rparr>, a_egress = w_egress w\<rparr>)"
    and "token |\<notin>| g_subscribed (w_god w)"
  shows "serve_request rt ar w now token terms =
    (case serve_database rt (g_config (w_god w)) (g_soul (w_god w)) cmd of
       None \<Rightarrow> Panicked
     | Some (soul, r) \<Rightarrow>
         Running (w\<lparr>w_god := (w_god w)\<lparr>g_soul := soul\<rparr>, w_egress := deliver token r (w_egress w)\<rparr>))"
  using assms
  by (simp add: serve_request_def pray_def temple_send_def god_step_def split: option.split prod.split)

lemma grant_common:
  "eq_ignore_ascii_case word (bstr ''GET'') \<Longrightarrow>
     grant now [word, key] token a = Some (pray (\<lambda>t. temple_send t token (Database (Get key (as_secs now)))) a)"
  "eq_ignore_ascii_case word (bstr ''TTL'') \<Longrightarrow>
     grant now [word, key] token a = Some (pray (\<lambda>t. temple_send t token (Database (Ttl key now))) a)"
  "eq_ignore_ascii_case word (bstr ''SET'') \<Longrightarrow> eq_ignore_ascii_case ex (bstr ''EX'') \<Longrightarrow> bytes_to_u64 secs = Inr e \<Longrightarrow>
     grant now [word, key, v, ex, secs] token a =
       Some (pray (\<lambda>t. temple_send t token (Database (database_command.Set key (String v, Some (as_secs now + e))))) a)"
  "eq_ignore_ascii_case word (bstr ''PING'') \<Longrightarrow> grant now [word] token a = Some (respond token (Info Pong) a)"
  by (simp_all add: grant_def dispatch_case[of word] grant_get_def grant_ttl_def grant_set_def grant_ping_def
      temple_get_def temple_set_def temple_ttl_def)
    (simp_all add: dispatch_def evaluates grant_get_def grant_ttl_def grant_set_def grant_ping_def
      temple_get_def temple_set_def temple_ttl_def)

text \<open>No stored expiry is beyond the range of the clock.\<close>

definition expiries_in_range :: "soul \<Rightarrow> bool" where
  "expiries_in_range soul = (\<forall>k v e. fmlookup soul k = Some (v, Some e) \<longrightarrow> uint e < 2 ^ 63)"

lemma client_ok_safe: "client_ok now cc \<Longrightarrow> expiries_in_range (g_soul g) \<Longrightarrow> safe_client g cc"
proof (cases cc)
  case (Database cmd)
  assume "client_ok now cc" "expiries_in_range (g_soul g)"
  with Database show ?thesis
    by (cases cmd) (auto simp: expiries_in_range_def split: option.splits)
qed simp

text \<open>What an answering handler left behind is served: one decree for the client, and no panic.\<close>

lemma answered_served:
  assumes "answered now token a a'" "queue (a_temple a) = []" "receiver_alive (a_temple a)"
    and "god_wf (w_god w)" "hash_iteration (rt_bytes rt)"
    and "receiver_alive (a_egress a)" "expiries_in_range (g_soul (w_god w))"
  shows "\<exists>w' d. god_loop rt ar (w\<lparr>w_egress := a_egress a'\<rparr>) (queue (a_temple a')) = Running w' \<and> god_wf (w_god w') \<and>
    w_egress w' = (a_egress a)\<lparr>queue := queue (a_egress a) @ [d]\<rparr> \<and> decree_token d = token"
proof -
  from assms(1) consider (wish) cc where "client_ok now cc" "a' = pray (\<lambda>t. temple_send t token cc) a"
    | (reply) r where "a' = respond token r a" by (auto simp: answered_def)
  then show ?thesis
  proof cases
    case wish
    let ?w = "\<lparr>wish_token = token, wish_command = Client cc\<rparr>"
    have a': "a_egress a' = a_egress a" "queue (a_temple a') = [?w]"
      using assms(2,3) by (simp_all add: wish(2) pray_def temple_send_def)
    obtain g' tx' where s: "serve_client rt (w_god w) (a_egress a) token cc = Some (g', tx')"
      using serve_client_total[OF client_ok_safe[OF wish(1) assms(7)]] by fastforce
    from serve_client_wf[OF assms(4,5) client_ok_events[OF wish(1)] s] serve_client_answers[OF assms(6) s] a' s
    show ?thesis by (auto simp: god_step_def)
  next
    case reply
    with assms show ?thesis
      by (intro exI[of _ "w\<lparr>w_egress := a_egress a'\<rparr>"]
          exI[of _ "Deliver \<lparr>gift_token = token, gift_response = r\<rparr>"])
        (simp add: respond_def deliver_alive)
  qed
qed

lemma serve_request_answers:
  assumes "terms \<noteq> []" "lindex_arity_ok terms" "god_wf (w_god w)" "hash_iteration (rt_bytes rt)"
    and "receiver_alive (w_egress w)" "expiries_in_range (g_soul (w_god w))"
  shows "\<exists>w' d. serve_request rt ar w now token terms = Running w' \<and> god_wf (w_god w') \<and>
    w_egress w' = (w_egress w)\<lparr>queue := queue (w_egress w) @ [d]\<rparr> \<and> decree_token d = token"
proof -
  let ?a = "\<lparr>a_temple = \<lparr>receiver_alive = True, queue = []\<rparr>, a_egress = w_egress w\<rparr>"
  obtain a' where g: "grant now terms token ?a = Some a'" "answered now token ?a a'"
    using grant_answers[OF assms(1,2)] by blast
  from answered_served[OF g(2) _ _ assms(3,4) _ assms(6)] assms(5) g(1)
  show ?thesis by (simp add: serve_request_def)
qed

end
