(* ===== verification/Resp.thy ===== *)
theory Resp
  imports Numerals
begin

section \<open>The wire protocol as a specification (RESP)\<close>

text \<open>
  What a client of the server speaks: the values of the protocol, the byte strings that encode them
  (\<open>encodes\<close>, an inductive grammar which leaves the spelling of numbers open), an encoder and a
  decoder. Nothing here models code of the repository; it is the reference the request parser and
  the response writer are proved against.
\<close>

datatype resp =
    Simple bytes
  | Failure bytes
  | Integer int
  | Bulk "bytes option"
  | Array "resp list"

subsection \<open>The grammar\<close>

definition spells :: "int \<Rightarrow> bytes \<Rightarrow> bool" where
  "spells n s \<longleftrightarrow> signed_syntax s \<and> signed_value s = n \<and> 13 \<notin> set s \<and> (0 \<le> n \<longrightarrow> all_digits s)"

inductive encodes :: "resp \<Rightarrow> bytes \<Rightarrow> bool"
  and encode_items :: "resp list \<Rightarrow> bytes \<Rightarrow> bool" where
  simple: "13 \<notin> set s \<Longrightarrow> encodes (Simple s) (43 # s @ crlf)"
| failure: "13 \<notin> set s \<Longrightarrow> encodes (Failure s) (45 # s @ crlf)"
| integer: "spells n s \<Longrightarrow> encodes (Integer n) (58 # s @ crlf)"
| null: "encodes (Bulk None) (36 # [45, 49] @ crlf)"
| bulk: "spells (int (length v)) s \<Longrightarrow> encodes (Bulk (Some v)) (36 # s @ crlf @ v @ crlf)"
| array: "spells (int (length rs)) s \<Longrightarrow> encode_items rs bs \<Longrightarrow> encodes (Array rs) (42 # s @ crlf @ bs)"
| items_nil: "encode_items [] []"
| items_cons: "encodes r a \<Longrightarrow> encode_items rs b \<Longrightarrow> encode_items (r # rs) (a @ b)"

lemma encode_items_append: "encode_items rs a \<Longrightarrow> encode_items qs b \<Longrightarrow> encode_items (rs @ qs) (a @ b)"
proof (induction rs arbitrary: a)
  case Nil
  then show ?case by (auto elim: encode_items.cases)
next
  case (Cons r rs)
  from Cons.prems(1) obtain x y where "a = x @ y" "encodes r x" "encode_items rs y"
    by (auto elim: encode_items.cases)
  with Cons.IH[of y] Cons.prems(2) show ?case by (simp add: items_cons)
qed

lemma encode_items_single: "encodes r a \<Longrightarrow> encode_items [r] a"
  using items_cons[OF _ items_nil, of r a] by simp

lemma encode_items_map:
  "(\<And>x. x \<in> set xs \<Longrightarrow> encodes (f x) (g x)) \<Longrightarrow> encode_items (map f xs) (concat (map g xs))"
  by (induction xs) (auto intro: items_nil items_cons)

subsection \<open>The decoder\<close>

definition take_line :: "bytes \<Rightarrow> (bytes \<times> bytes) option" where
  "take_line bs = map_option (\<lambda>i. (take i bs, drop (i + 2) bs)) (find_crlf bs)"

fun decode_items :: "(bytes \<Rightarrow> (resp \<times> bytes) option) \<Rightarrow> nat \<Rightarrow> bytes \<Rightarrow> (resp list \<times> bytes) option" where
  "decode_items d 0 bs = Some ([], bs)"
| "decode_items d (Suc n) bs =
     (case d bs of
        None \<Rightarrow> None
      | Some (r, rest) \<Rightarrow> map_option (\<lambda>(rs, rest'). (r # rs, rest')) (decode_items d n rest))"

definition decode_bulk :: "nat \<Rightarrow> bytes \<Rightarrow> (resp \<times> bytes) option" where
  "decode_bulk n rest =
     (if n + 2 \<le> length rest \<and> take 2 (drop n rest) = crlf
      then Some (Bulk (Some (take n rest)), drop (n + 2) rest) else None)"

text \<open>The first argument bounds the nesting of arrays; the server nests at most three deep, plus the leaves.\<close>

fun decode :: "nat \<Rightarrow> bytes \<Rightarrow> (resp \<times> bytes) option" where
  "decode 0 bs = None"
| "decode (Suc depth) bs =
     (case take_line bs of
        Some (t # s, rest) \<Rightarrow>
          if t = 43 then Some (Simple s, rest)
          else if t = 45 then Some (Failure s, rest)
          else if t = 58 then (if signed_syntax s then Some (Integer (signed_value s), rest) else None)
          else if t = 36 then
            (if s = [45, 49] then Some (Bulk None, rest)
             else if s \<noteq> [] \<and> all_digits s then decode_bulk (nat (digits_value s)) rest else None)
          else if t = 42 \<and> s \<noteq> [] \<and> all_digits s then
            map_option (\<lambda>(rs, rest'). (Array rs, rest')) (decode_items (decode depth) (nat (digits_value s)) rest)
          else None
      | _ \<Rightarrow> None)"

text \<open>What a client reads off a stream of replies: the replies, if the bytes are whole replies.\<close>

fun client_reads :: "nat \<Rightarrow> bytes \<Rightarrow> resp list option" where
  "client_reads fuel [] = Some []"
| "client_reads 0 bs = None"
| "client_reads (Suc fuel) bs =
     (case decode 4 bs of None \<Rightarrow> None | Some (r, rest) \<Rightarrow> map_option (\<lambda>rs. r # rs) (client_reads fuel rest))"

subsection \<open>The decoder reads what the grammar produces\<close>

fun depth :: "resp \<Rightarrow> nat" where
  "depth (Array rs) = Suc (fold max (map depth rs) 0)"
| "depth _ = 1"

lemma fold_max_le: "(fold max (xs :: nat list) a \<le> n) = (a \<le> n \<and> (\<forall>x \<in> set xs. x \<le> n))"
  by (induction xs arbitrary: a) auto

lemma take_line_eq: "13 \<notin> set s \<Longrightarrow> take_line (s @ crlf @ rest) = Some (s, rest)"
  using find_crlf_append[of s rest] by (simp add: take_line_def crlf_def)

lemma take_line_tag: "13 \<notin> set s \<Longrightarrow> t \<noteq> 13 \<Longrightarrow> take_line (t # s @ crlf @ rest) = Some (t # s, rest)"
  using take_line_eq[of "t # s" rest] by simp

lemma spellsD: "spells n s \<Longrightarrow> signed_syntax s \<and> signed_value s = n \<and> 13 \<notin> set s"
  by (simp add: spells_def)

lemma spells_nat: "spells (int n) s \<Longrightarrow> s \<noteq> [] \<and> all_digits s \<and> digits_value s = int n \<and> s \<noteq> [45, 49]"
  by (cases s) (auto simp: spells_def signed_syntax_def signed_value_def all_digits_Cons split: if_splits)

lemma decode_encodes:
  "encodes r bs \<Longrightarrow> depth r \<le> d \<Longrightarrow> decode d (bs @ rest) = Some (r, rest)"
  "encode_items rs bs \<Longrightarrow> (\<forall>r \<in> set rs. depth r \<le> d) \<Longrightarrow>
     decode_items (decode d) (length rs) (bs @ rest) = Some (rs, rest)"
proof (induction arbitrary: d rest and d rest rule: encodes_encode_items.inducts)
  case (simple s)
  then show ?case by (cases d) (simp_all add: take_line_tag)
next
  case (failure s)
  then show ?case by (cases d) (simp_all add: take_line_tag)
next
  case (integer n s)
  from spellsD[OF integer(1)] integer(2) show ?case by (cases d) (simp_all add: take_line_tag)
next
  case null
  then show ?case using take_line_tag[of "[45, 49]" 36 rest] by (cases d) simp_all
next
  case (bulk v s)
  from spells_nat[OF bulk(1)] spellsD[OF bulk(1)] bulk(2) show ?case
    by (cases d) (simp_all add: take_line_tag decode_bulk_def)
next
  case (array rs s bs)
  then obtain d' where d: "d = Suc d'" "\<forall>r \<in> set rs. depth r \<le> d'"
    by (cases d) (auto simp: fold_max_le)
  from spells_nat[OF array(1)] spellsD[OF array(1)] array.IH[OF d(2), of rest] d(1) show ?case
    by (simp add: take_line_tag)
qed simp_all

lemma encodes_nonempty: "encodes r bs \<Longrightarrow> bs \<noteq> []"
  by (auto elim: encodes.cases)

text \<open>A stream of encoded replies is read back as those replies.\<close>

lemma client_reads_items:
  "encode_items rs bs \<Longrightarrow> (\<forall>r \<in> set rs. depth r \<le> 4) \<Longrightarrow> length bs \<le> fuel \<Longrightarrow> client_reads fuel bs = Some rs"
proof (induction rs arbitrary: bs fuel)
  case Nil
  then show ?case by (auto elim: encode_items.cases)
next
  case (Cons r rs)
  from Cons.prems(1) obtain a b where bs: "bs = a @ b" "encodes r a" "encode_items rs b"
    by (auto elim: encode_items.cases)
  obtain x a' where a: "a = x # a'" using encodes_nonempty[OF bs(2)] by (cases a) auto
  with Cons.prems(3) bs(1) obtain f where f: "fuel = Suc f" "length b \<le> f" by (cases fuel) auto
  have "decode 4 bs = Some (r, b)" using decode_encodes(1)[OF bs(2), of 4 b] Cons.prems(2) bs(1) by simp
  moreover have "client_reads f b = Some rs" using Cons.IH[OF bs(3) _ f(2)] Cons.prems(2) by simp
  ultimately show ?case using a bs(1) f(1) by simp
qed

subsection \<open>The encoder\<close>

text \<open>Text that is a line of its own: no carriage return in it.\<close>

fun line_safe :: "resp \<Rightarrow> bool" where
  "line_safe (Simple s) = (13 \<notin> set s)"
| "line_safe (Failure s) = (13 \<notin> set s)"
| "line_safe (Array rs) = list_all line_safe rs"
| "line_safe _ = True"

fun encode :: "(int \<Rightarrow> bytes) \<Rightarrow> resp \<Rightarrow> bytes" where
  "encode itoa (Simple s) = 43 # s @ crlf"
| "encode itoa (Failure s) = 45 # s @ crlf"
| "encode itoa (Integer n) = 58 # itoa n @ crlf"
| "encode itoa (Bulk None) = 36 # [45, 49] @ crlf"
| "encode itoa (Bulk (Some v)) = 36 # itoa (int (length v)) @ crlf @ v @ crlf"
| "encode itoa (Array rs) = 42 # itoa (int (length rs)) @ crlf @ concat (map (encode itoa) rs)"

context decimal_printer
begin

lemma spells_itoa: "spells n (itoa n)"
  using signed_itoa[of n] itoa_no_cr[of n] itoa_digits[of n] by (simp add: spells_def)

lemma encodes_encode: "line_safe r \<Longrightarrow> encodes r (encode itoa r)"
proof (induction r)
  case (Bulk v)
  then show ?case by (cases v) (auto intro: null[simplified] bulk[OF spells_itoa])
next
  case (Array rs)
  then have "encode_items (map id rs) (concat (map (encode itoa) rs))"
    by (intro encode_items_map) (auto simp: list_all_iff)
  then show ?case by (auto intro: array[OF spells_itoa])
qed (auto intro: simple failure integer[OF spells_itoa])

end

end
