(* ===== verification/Replies.thy ===== *)
theory Replies
  imports Protocol Resp
begin

section \<open>Writing responses (\<open>src/egress.rs\<close>, \<open>src/egress/send.rs\<close>)\<close>

text \<open>
  The egress thread owns the writing half of every connection: it receives decrees, keeps the map
  from tokens to streams and writes each response as RESP. \<open>render\<close> is the body of \<open>send::send\<close>,
  \<open>egress_step\<close> one turn of the loop. A socket is the bytes it has accepted and the room it has
  left: the streams are non-blocking, so \<open>write_all\<close> fails with \<open>WouldBlock\<close> once the room is used
  up, having written what fitted.
\<close>

subsection \<open>The texts\<close>

text \<open>\<open>b"...\r\n"\<close>\<close>

definition line :: "string \<Rightarrow> bytes" where
  "line s = bstr s @ crlf"

text \<open>The reply to \<open>COMMAND\<close>, line by line.\<close>

definition command_lines :: "string list" where
  "command_lines =
    [''*37'',
     ''*6'', ''$3'', ''set'', '':-3'', ''*2'', ''+write'', ''+denyoom'', '':1'', '':1'', '':1'',
     ''*6'', ''$3'', ''get'', '':2'', ''*2'', ''+readonly'', ''+fast'', '':1'', '':1'', '':1'',
     ''*6'', ''$6'', ''append'', '':3'', ''*2'', ''+write'', ''+denyoom'', '':1'', '':1'', '':1'',
     ''*6'', ''$4'', ''incr'', '':2'', ''*2'', ''+write'', ''+denyoom'', '':1'', '':1'', '':1'',
     ''*6'', ''$4'', ''decr'', '':2'', ''*2'', ''+write'', ''+denyoom'', '':1'', '':1'', '':1'',
     ''*6'', ''$6'', ''strlen'', '':2'', ''*2'', ''+readonly'', ''+fast'', '':1'', '':1'', '':1'',
     ''*6'', ''$5'', ''lpush'', '':-3'', ''*2'', ''+write'', ''+denyoom'', '':1'', '':1'', '':1'',
     ''*6'', ''$5'', ''rpush'', '':-3'', ''*2'', ''+write'', ''+denyoom'', '':1'', '':1'', '':1'',
     ''*6'', ''$4'', ''lpop'', '':-2'', ''*2'', ''+write'', ''+fast'', '':1'', '':1'', '':1'',
     ''*6'', ''$4'', ''rpop'', '':-2'', ''*2'', ''+write'', ''+fast'', '':1'', '':1'', '':1'',
     ''*6'', ''$6'', ''lrange'', '':4'', ''*2'', ''+readonly'', ''+fast'', '':1'', '':1'', '':1'',
     ''*6'', ''$4'', ''lrem'', '':4'', ''*2'', ''+write'', ''+fast'', '':1'', '':1'', '':1'',
     ''*6'', ''$6'', ''lindex'', '':3'', ''*2'', ''+readonly'', ''+fast'', '':1'', '':1'', '':1'',
     ''*6'', ''$4'', ''llen'', '':2'', ''*2'', ''+readonly'', ''+fast'', '':1'', '':1'', '':1'',
     ''*6'', ''$4'', ''lset'', '':4'', ''*2'', ''+write'', ''+denyoom'', '':1'', '':1'', '':1'',
     ''*6'', ''$4'', ''hset'', '':-4'', ''*2'', ''+write'', ''+denyoom'', '':1'', '':1'', '':1'',
     ''*6'', ''$5'', ''hmget'', '':-3'', ''*2'', ''+readonly'', ''+fast'', '':1'', '':1'', '':1'',
     ''*6'', ''$4'', ''hget'', '':3'', ''*2'', ''+readonly'', ''+fast'', '':1'', '':1'', '':1'',
     ''*6'', ''$4'', ''hdel'', '':-3'', ''*2'', ''+write'', ''+fast'', '':1'', '':1'', '':1'',
     ''*6'', ''$7'', ''hexists'', '':3'', ''*2'', ''+readonly'', ''+fast'', '':1'', '':1'', '':1'',
     ''*6'', ''$4'', ''hlen'', '':2'', ''*2'', ''+readonly'', ''+fast'', '':1'', '':1'', '':1'',
     ''*6'', ''$7'', ''hgetall'', '':2'', ''*2'', ''+readonly'', ''+fast'', '':1'', '':1'', '':1'',
     ''*6'', ''$4'', ''sadd'', '':-3'', ''*2'', ''+write'', ''+denyoom'', '':1'', '':1'', '':1'',
     ''*6'', ''$4'', ''srem'', '':-3'', ''*2'', ''+write'', ''+fast'', '':1'', '':1'', '':1'',
     ''*6'', ''$9'', ''sismember'', '':3'', ''*2'', ''+readonly'', ''+fast'', '':1'', '':1'', '':1'',
     ''*6'', ''$8'', ''smembers'', '':2'', ''*2'', ''+readonly'', ''+sort_for_script'', '':1'', '':1'', '':1'',
     ''*6'', ''$6'', ''exists'', '':-2'', ''*2'', ''+readonly'', ''+fast'', '':1'', ''-1'', '':1'',
     ''*6'', ''$3'', ''del'', '':-2'', ''*2'', ''+write'', ''+fast'', '':1'', ''-1'', '':1'',
     ''*6'', ''$3'', ''ttl'', '':2'', ''*2'', ''+readonly'', ''+fast'', '':1'', '':1'', '':1'',
     ''*6'', ''$6'', ''expire'', '':3'', ''*2'', ''+write'', ''+fast'', '':1'', '':1'', '':1'',
     ''*6'', ''$7'', ''publish'', '':3'', ''*3'', ''+pubsub'', ''+loading'', ''+stale'', '':0'', '':0'', '':0'',
     ''*6'', ''$4'', ''ping'', '':-1'', ''*2'', ''+stale'', ''+fast'', '':0'', '':0'', '':0'',
     ''*6'', ''$9'', ''subscribe'', '':-2'', ''*3'', ''+pubsub'', ''+loading'', ''+stale'', '':0'', '':0'', '':0'',
     ''*6'', ''$11'', ''unsubscribe'', '':-1'', ''*3'', ''+pubsub'', ''+loading'', ''+stale'', '':0'', '':0'', '':0'',
     ''*6'', ''$4'', ''mset'', '':-3'', ''*2'', ''+write'', ''+denyoom'', '':1'', '':1'', '':1'',
     ''*6'', ''$4'', ''mget'', '':-2'', ''*2'', ''+readonly'', ''+fast'', '':1'', '':1'', '':1'',
     ''*6'', ''$6'', ''incrby'', '':3'', ''*2'', ''+write'', ''+denyoom'', '':1'', '':1'', '':1'']"

definition command_reply :: bytes where
  "command_reply = concat (map line command_lines)"

definition usage_message :: "command \<Rightarrow> bytes" where
  "usage_message c =
     (if c = INCR \<or> c = DECR \<or> c = INCRBY then line ''-ERR value is not an integer or out of range''
      else if c = LSET \<or> c = LINDEX then line ''-ERR index out of range''
      else if c = CONFIG then line (''-ERR Unknown Command after 'config'' @ [CHR 0x27])
      else line ''-WRONGTYPE Operation against a key holding the wrong kind of value'')"

fun command_word :: "command \<Rightarrow> string" where
  "command_word PING = ''ping''"
| "command_word SET = ''set''"
| "command_word GET = ''get''"
| "command_word command.EX = ''ex''"
| "command_word INCR = ''incr''"
| "command_word INCRBY = ''incrby''"
| "command_word DECR = ''decr''"
| "command_word APPEND = ''append''"
| "command_word STRLEN = ''strlen''"
| "command_word EXISTS = ''exists''"
| "command_word DEL = ''del''"
| "command_word HSET = ''hset''"
| "command_word HGET = ''hget''"
| "command_word HMGET = ''hmget''"
| "command_word HDEL = ''hdel''"
| "command_word HEXISTS = ''hexists''"
| "command_word HLEN = ''hlen''"
| "command_word LPUSH = ''lpush''"
| "command_word LPOP = ''lpop''"
| "command_word RPUSH = ''rpush''"
| "command_word RPOP = ''rpop''"
| "command_word LLEN = ''llen''"
| "command_word LRANGE = ''lrange''"
| "command_word LINDEX = ''lindex''"
| "command_word LSET = ''lset''"
| "command_word LREM = ''lrem''"
| "command_word EXPIRE = ''expire''"
| "command_word TTL = ''ttl''"
| "command_word SUBSCRIBE = ''subscribe''"
| "command_word PUBLISH = ''publish''"
| "command_word MSET = ''mset''"
| "command_word MGET = ''mget''"
| "command_word SADD = ''sadd''"
| "command_word SREM = ''srem''"
| "command_word SISMEMBER = ''sismember''"
| "command_word HGETALL = ''hgetall''"
| "command_word SMEMBERS = ''smembers''"
| "command_word CONFIG = ''config''"
| "command_word COMMAND = ''command''"

definition arity_message :: "command \<Rightarrow> bytes" where
  "arity_message c = line (''-ERR wrong number of arguments for '' @ [CHR 0x27] @ command_word c @ ''' command'')"

fun error_message :: "sacrilege \<Rightarrow> bytes" where
  "error_message UnknownCommand = line ''-ERR unknown command''"
| "error_message (IncorrectUsage c) = usage_message c"
| "error_message (IncorrectNumberOfArguments c) = arity_message c"
| "error_message SubscriberOnlyMode =
     line ''-ERR only SUBSCRIBE / UNSUBSCRIBE / PING / QUIT allowed in this context''"

subsection \<open>The body of \<open>send\<close>\<close>

fun render_bulk :: "(int \<Rightarrow> bytes) \<Rightarrow> bytes option \<Rightarrow> bytes" where
  "render_bulk itoa (Some v) = bstr ''$'' @ itoa (int (length v)) @ crlf @ v @ crlf"
| "render_bulk itoa None = line ''$-1''"

definition render_number :: "(int \<Rightarrow> bytes) \<Rightarrow> int \<Rightarrow> bytes" where
  "render_number itoa n = bstr '':'' @ itoa n @ crlf"

definition render_channel :: "(int \<Rightarrow> bytes) \<Rightarrow> bytes \<Rightarrow> bytes \<times> nat \<Rightarrow> bytes" where
  "render_channel itoa intro ch =
     (case ch of (channel, count) \<Rightarrow>
        intro @ itoa (int (length channel)) @ crlf @ channel @ crlf @ bstr '':'' @ itoa (int count) @ crlf)"

fun render :: "(int \<Rightarrow> bytes) \<Rightarrow> response \<Rightarrow> bytes" where
  "render itoa (Info Ok) = line ''+OK''"
| "render itoa (Info Pong) = line ''+PONG''"
| "render itoa (Info Command) = command_reply"
| "render itoa (BulkString b) = render_bulk itoa b"
| "render itoa (BulkStringArray (Some bs)) =
     bstr ''*'' @ itoa (int (length bs)) @ crlf @ concat (map (render_bulk itoa) bs)"
| "render itoa (BulkStringArray None) = line ''$-1''"
| "render itoa (Amount n) = render_number itoa (uint n)"
| "render itoa (Number n) = render_number itoa n"
| "render itoa (Length n) = render_number itoa (int n)"
| "render itoa (SubscribedChannels chs) =
     concat (map (render_channel itoa (line ''*3'' @ line ''$9'' @ line ''subscribe'' @ bstr ''$'')) chs)"
| "render itoa (UnsubscribedChannels (Some chs)) =
     concat (map (render_channel itoa (line ''*3'' @ line ''$11'' @ line ''unsubscribe'' @ bstr ''$'')) chs)"
| "render itoa (UnsubscribedChannels None) =
     line ''*3'' @ line ''$11'' @ line ''unsubscribe'' @ line ''$-1'' @ line '':0''"
| "render itoa (Error sacrilege) = error_message sacrilege"

definition render_message :: "(int \<Rightarrow> bytes) \<Rightarrow> bytes \<Rightarrow> bytes \<Rightarrow> bytes" where
  "render_message itoa event message =
     line ''*3'' @ line ''$7'' @ line ''message'' @ bstr ''$'' @ itoa (int (length event)) @ crlf @ event
       @ crlf @ bstr ''$'' @ itoa (int (length message)) @ crlf @ message @ crlf"

subsection \<open>The streams\<close>

record socket =
  sk_sent :: bytes
  sk_room :: "nat option"

type_synonym sockets = "stream \<Rightarrow> socket"

definition write_all :: "sockets \<Rightarrow> stream \<Rightarrow> bytes \<Rightarrow> bool \<times> sockets" where
  "write_all sks s bs =
     (case sk_room (sks s) of
        None \<Rightarrow> (True, sks(s := (sks s)\<lparr>sk_sent := sk_sent (sks s) @ bs\<rparr>))
      | Some room \<Rightarrow>
          (length bs \<le> room,
           sks(s := \<lparr>sk_sent = sk_sent (sks s) @ take room bs, sk_room = Some (room - length bs)\<rparr>)))"

definition send_gift :: "(int \<Rightarrow> bytes) \<Rightarrow> sockets \<Rightarrow> stream \<Rightarrow> gift \<Rightarrow> (sin + unit) \<times> sockets" where
  "send_gift itoa sks s gift =
     (case write_all sks s (render itoa (gift_response gift)) of
        (True, sks') \<Rightarrow> (Inr (), sks')
      | (False, sks') \<Rightarrow> (Inl Disconnected, sks'))"

subsection \<open>The loop\<close>

record egress_thread =
  e_map :: "(token, stream) fmap"
  e_sockets :: sockets
  e_tx :: "token channel"

fun broadcast_loop :: "(token, stream) fmap \<Rightarrow> sockets \<Rightarrow> bytes \<Rightarrow> token list \<Rightarrow> sockets" where
  "broadcast_loop streams sks response [] = sks"
| "broadcast_loop streams sks response (client # clients) =
     (case fmlookup streams client of
        Some s \<Rightarrow> broadcast_loop streams (snd (write_all sks s response)) response clients
      | None \<Rightarrow> broadcast_loop streams sks response clients)"

fun egress_step :: "(int \<Rightarrow> bytes) \<Rightarrow> egress_thread \<Rightarrow> decree \<Rightarrow> egress_thread" where
  "egress_step itoa e (Welcome token s) = e\<lparr>e_map := fmupd token s (e_map e)\<rparr>"
| "egress_step itoa e (Goodbye token) =
     e\<lparr>e_map := fmdrop token (e_map e), e_tx := snd (send (e_tx e) token)\<rparr>"
| "egress_step itoa e (Deliver gift) =
     (case fmlookup (e_map e) (gift_token gift) of
        None \<Rightarrow> e
      | Some s \<Rightarrow>
          (case send_gift itoa (e_sockets e) s gift of
             (Inr _, sks) \<Rightarrow> e\<lparr>e_sockets := sks\<rparr>
           | (Inl _, sks) \<Rightarrow> e\<lparr>e_sockets := sks, e_tx := snd (send (e_tx e) (gift_token gift))\<rparr>))"
| "egress_step itoa e (Broadcast token event message clients) =
     (let sks = broadcast_loop (e_map e) (e_sockets e) (render_message itoa event message) clients
      in case fmlookup (e_map e) token of
           None \<Rightarrow> e\<lparr>e_sockets := sks\<rparr>
         | Some s \<Rightarrow> e\<lparr>e_sockets := snd (write_all sks s (render_number itoa (int (length clients))))\<rparr>)"

text \<open>The decrees in the order the channel delivers them.\<close>

definition egress_loop :: "(int \<Rightarrow> bytes) \<Rightarrow> egress_thread \<Rightarrow> decree list \<Rightarrow> egress_thread" where
  "egress_loop itoa e decrees = foldl (egress_step itoa) e decrees"

subsection \<open>What a response says\<close>

text \<open>
  The protocol values a response stands for; a list of subscriptions gives one value each. The reply
  to \<open>COMMAND\<close> is an array of entries: name, arity, flags, first key, last key, step. The last key of
  \<open>EXISTS\<close> and \<open>DEL\<close> is written \<open>-1\<close> without the colon that makes an integer, so a client reads a
  protocol error \<open>1\<close> there (\<open>Inr\<close> below).
\<close>

type_synonym command_entry = "string \<times> int \<times> string list \<times> int \<times> (int + string) \<times> int"

definition command_table :: "command_entry list" where
  "command_table =
    [(''set'', -3, [''write'', ''denyoom''], 1, Inl 1, 1),
     (''get'', 2, [''readonly'', ''fast''], 1, Inl 1, 1),
     (''append'', 3, [''write'', ''denyoom''], 1, Inl 1, 1),
     (''incr'', 2, [''write'', ''denyoom''], 1, Inl 1, 1),
     (''decr'', 2, [''write'', ''denyoom''], 1, Inl 1, 1),
     (''strlen'', 2, [''readonly'', ''fast''], 1, Inl 1, 1),
     (''lpush'', -3, [''write'', ''denyoom''], 1, Inl 1, 1),
     (''rpush'', -3, [''write'', ''denyoom''], 1, Inl 1, 1),
     (''lpop'', -2, [''write'', ''fast''], 1, Inl 1, 1),
     (''rpop'', -2, [''write'', ''fast''], 1, Inl 1, 1),
     (''lrange'', 4, [''readonly'', ''fast''], 1, Inl 1, 1),
     (''lrem'', 4, [''write'', ''fast''], 1, Inl 1, 1),
     (''lindex'', 3, [''readonly'', ''fast''], 1, Inl 1, 1),
     (''llen'', 2, [''readonly'', ''fast''], 1, Inl 1, 1),
     (''lset'', 4, [''write'', ''denyoom''], 1, Inl 1, 1),
     (''hset'', -4, [''write'', ''denyoom''], 1, Inl 1, 1),
     (''hmget'', -3, [''readonly'', ''fast''], 1, Inl 1, 1),
     (''hget'', 3, [''readonly'', ''fast''], 1, Inl 1, 1),
     (''hdel'', -3, [''write'', ''fast''], 1, Inl 1, 1),
     (''hexists'', 3, [''readonly'', ''fast''], 1, Inl 1, 1),
     (''hlen'', 2, [''readonly'', ''fast''], 1, Inl 1, 1),
     (''hgetall'', 2, [''readonly'', ''fast''], 1, Inl 1, 1),
     (''sadd'', -3, [''write'', ''denyoom''], 1, Inl 1, 1),
     (''srem'', -3, [''write'', ''fast''], 1, Inl 1, 1),
     (''sismember'', 3, [''readonly'', ''fast''], 1, Inl 1, 1),
     (''smembers'', 2, [''readonly'', ''sort_for_script''], 1, Inl 1, 1),
     (''exists'', -2, [''readonly'', ''fast''], 1, Inr ''1'', 1),
     (''del'', -2, [''write'', ''fast''], 1, Inr ''1'', 1),
     (''ttl'', 2, [''readonly'', ''fast''], 1, Inl 1, 1),
     (''expire'', 3, [''write'', ''fast''], 1, Inl 1, 1),
     (''publish'', 3, [''pubsub'', ''loading'', ''stale''], 0, Inl 0, 0),
     (''ping'', -1, [''stale'', ''fast''], 0, Inl 0, 0),
     (''subscribe'', -2, [''pubsub'', ''loading'', ''stale''], 0, Inl 0, 0),
     (''unsubscribe'', -1, [''pubsub'', ''loading'', ''stale''], 0, Inl 0, 0),
     (''mset'', -3, [''write'', ''denyoom''], 1, Inl 1, 1),
     (''mget'', -2, [''readonly'', ''fast''], 1, Inl 1, 1),
     (''incrby'', 3, [''write'', ''denyoom''], 1, Inl 1, 1)]"

fun key_tree :: "int + string \<Rightarrow> resp" where
  "key_tree (Inl n) = Integer n"
| "key_tree (Inr s) = Failure (bstr s)"

fun entry_tree :: "command_entry \<Rightarrow> resp" where
  "entry_tree (name, arity, flags, start, final, step) =
     Array [Bulk (Some (bstr name)), Integer arity, Array (map (Simple \<circ> bstr) flags),
       Integer start, key_tree final, Integer step]"

definition command_tree :: resp where
  "command_tree = Array (map entry_tree command_table)"

definition channel_tree :: "string \<Rightarrow> bytes \<times> nat \<Rightarrow> resp" where
  "channel_tree kind ch = Array [Bulk (Some (bstr kind)), Bulk (Some (fst ch)), Integer (int (snd ch))]"

definition message_text :: "bytes \<Rightarrow> bytes" where
  "message_text l = tl (take (length l - 2) l)"

fun reply_trees :: "response \<Rightarrow> resp list" where
  "reply_trees (Info Ok) = [Simple (bstr ''OK'')]"
| "reply_trees (Info Pong) = [Simple (bstr ''PONG'')]"
| "reply_trees (Info Command) = [command_tree]"
| "reply_trees (BulkString b) = [Bulk b]"
| "reply_trees (BulkStringArray (Some bs)) = [Array (map Bulk bs)]"
| "reply_trees (BulkStringArray None) = [Bulk None]"
| "reply_trees (Amount n) = [Integer (uint n)]"
| "reply_trees (Number n) = [Integer n]"
| "reply_trees (Length n) = [Integer (int n)]"
| "reply_trees (SubscribedChannels chs) = map (channel_tree ''subscribe'') chs"
| "reply_trees (UnsubscribedChannels (Some chs)) = map (channel_tree ''unsubscribe'') chs"
| "reply_trees (UnsubscribedChannels None) = [Array [Bulk (Some (bstr ''unsubscribe'')), Bulk None, Integer 0]]"
| "reply_trees (Error sacrilege) = [Failure (message_text (error_message sacrilege))]"

definition message_tree :: "bytes \<Rightarrow> bytes \<Rightarrow> resp" where
  "message_tree event message = Array [Bulk (Some (bstr ''message'')), Bulk (Some event), Bulk (Some message)]"

lemma digit_spells:
  "spells 0 (bstr ''0'')" "spells 3 (bstr ''3'')" "spells 6 (bstr ''6'')" "spells 7 (bstr ''7'')"
  "spells 9 (bstr ''9'')" "spells 11 (bstr ''11'')" "spells 37 (bstr ''37'')"
  by (simp_all add: spells_def signed_syntax_def signed_value_def all_digits_def digits_value_def
      is_ascii_digit_def bstr_def)

lemma command_word_plain: "13 \<notin> set (bstr (command_word c))"
  by (cases c) (simp_all add: bstr_def)

lemma bstr_append: "bstr (s @ t) = bstr s @ bstr t"
  by (simp add: bstr_def)

lemma error_line: "\<exists>t. error_message sacrilege = 45 # t @ crlf \<and> 13 \<notin> set t"
proof (cases sacrilege)
  case (IncorrectNumberOfArguments c)
  have "error_message sacrilege = 45 #
      (bstr ''ERR wrong number of arguments for '' @ [39] @ bstr (command_word c) @ bstr ''' command'') @ crlf"
    by (simp add: IncorrectNumberOfArguments arity_message_def line_def bstr_append) (simp add: bstr_def)
  moreover have "13 \<notin> set (bstr ''ERR wrong number of arguments for '' @ [39] @ bstr (command_word c) @ bstr ''' command'')"
    using command_word_plain[of c] by simp (simp add: bstr_def)
  ultimately show ?thesis by blast
qed (auto simp: usage_message_def line_def bstr_def)

lemma error_encodes: "encodes (Failure (message_text (error_message sacrilege))) (error_message sacrilege)"
proof -
  obtain t where "error_message sacrilege = 45 # t @ crlf" "13 \<notin> set t" using error_line by blast
  then show ?thesis by (simp add: message_text_def crlf_def) (simp add: failure[unfolded crlf_def])
qed

text \<open>The table of \<open>COMMAND\<close>, from its entries: each line of the literal is accounted for.\<close>

definition small :: "int \<Rightarrow> string" where
  "small n = (if n < 0 then ''-'' else []) @
     [''0'', ''1'', ''2'', ''3'', ''4'', ''5'', ''6'', ''7'', ''8'', ''9'', ''10'', ''11''] ! nat \<bar>n\<bar>"

fun key_line :: "int + string \<Rightarrow> string" where
  "key_line (Inl n) = '':'' @ small n"
| "key_line (Inr s) = ''-'' @ s"

fun entry_lines :: "command_entry \<Rightarrow> string list" where
  "entry_lines (name, arity, flags, start, final, step) =
     [''*6'', ''$'' @ small (int (length name)), name, '':'' @ small arity, ''*'' @ small (int (length flags))]
     @ map (\<lambda>f. ''+'' @ f) flags @ ['':'' @ small start, key_line final, '':'' @ small step]"

fun key_ok :: "int + string \<Rightarrow> bool" where
  "key_ok (Inl n) \<longleftrightarrow> \<bar>n\<bar> \<le> 11"
| "key_ok (Inr s) \<longleftrightarrow> CHR 0x0D \<notin> set s"

fun entry_ok :: "command_entry \<Rightarrow> bool" where
  "entry_ok (name, arity, flags, start, final, step) \<longleftrightarrow>
     length name \<le> 11 \<and> \<bar>arity\<bar> \<le> 11 \<and> length flags \<le> 11 \<and> \<bar>start\<bar> \<le> 11 \<and> key_ok final \<and> \<bar>step\<bar> \<le> 11 \<and>
     list_all (\<lambda>f. CHR 0x0D \<notin> set f) flags"

lemma of_char_cr: "(of_char c = (13 :: 8 word)) = (c = CHR 0x0D)"
proof
  assume a: "of_char c = (13 :: 8 word)"
  have "unat (of_char c :: 8 word) = of_char c"
    using nat_of_char_less_256[of c] by (simp add: of_char_def)
  then have "(of_char c :: nat) = 13" using a by simp
  then have "c = char_of (13 :: nat)" by (metis char_of_char)
  moreover have "char_of (13 :: nat) = CHR 0x0D" by code_simp
  ultimately show "c = CHR 0x0D" by simp
qed simp

lemma bstr_no_cr: "13 \<in> set (bstr s) \<longleftrightarrow> CHR 0x0D \<in> set s"
  by (auto simp: bstr_def of_char_cr)

lemma command_lines_entries: "command_lines = ''*37'' # concat (map entry_lines command_table)"
  by (simp add: command_lines_def command_table_def small_def)

lemma command_table_ok: "list_all entry_ok command_table"
  by (simp add: command_table_def)

lemma small_cases:
  "\<bar>n\<bar> \<le> 11 \<Longrightarrow> n \<in> {-11, -10, -9, -8, -7, -6, -5, -4, -3, -2, -1, 0, 1, 2, 3, 4, 5, 6, 7, 8, 9, 10, 11}"
  for n :: int
  unfolding insert_iff empty_iff abs_le_iff by presburger

lemma concat_concat_map: "concat (concat xss) = concat (map concat xss)"
  by (induction xss) simp_all

lemma spells_small: "\<bar>n\<bar> \<le> 11 \<Longrightarrow> spells n (bstr (small n))"
  by (drule small_cases)
    (auto simp: small_def spells_def signed_syntax_def signed_value_def all_digits_def digits_value_def
      is_ascii_digit_def bstr_def)

lemma tag_line:
  "line (''$'' @ s) = 36 # bstr s @ crlf" "line ('':'' @ s) = 58 # bstr s @ crlf"
  "line (''*'' @ s) = 42 # bstr s @ crlf" "line (''+'' @ s) = 43 # bstr s @ crlf"
  "line (''-'' @ s) = 45 # bstr s @ crlf"
  by (simp_all add: line_def bstr_def)

lemma key_encodes: "key_ok k \<Longrightarrow> encodes (key_tree k) (line (key_line k))"
  by (cases k) (auto simp only: key_ok.simps key_tree.simps key_line.simps tag_line
      intro!: integer spells_small failure simp: bstr_no_cr)

lemma entry_encodes: "entry_ok e \<Longrightarrow> encodes (entry_tree e) (concat (map line (entry_lines e)))"
proof (cases e)
  case e: (fields name arity flags start final step)
  assume "entry_ok e"
  with e have ok: "length name \<le> 11" "\<bar>arity\<bar> \<le> 11" "length flags \<le> 11" "\<bar>start\<bar> \<le> 11" "key_ok final"
    "\<bar>step\<bar> \<le> 11" "list_all (\<lambda>f. CHR 0x0D \<notin> set f) flags" by simp_all
  have "encodes ((Simple \<circ> bstr) f) (line (''+'' @ f))" if "f \<in> set flags" for f
    using that ok(7) unfolding tag_line by (auto simp: list_all_iff bstr_no_cr intro: simple)
  then have flags: "encodes (Array (map (Simple \<circ> bstr) flags))
      (line (''*'' @ small (int (length flags))) @ concat (map (\<lambda>f. line (''+'' @ f)) flags))"
    using ok(3) unfolding tag_line by (auto intro!: array spells_small encode_items_map)
  have name: "encodes (Bulk (Some (bstr name))) (line (''$'' @ small (int (length name))) @ line name)"
    using bulk[of "bstr name"] spells_small[of "int (length name)"] ok(1)
    unfolding tag_line by (simp add: line_def)
  have int: "encodes (Integer n) (line ('':'' @ small n))" if "\<bar>n\<bar> \<le> 11" for n
    unfolding tag_line using that by (intro integer spells_small)
  from items_cons[OF name items_cons[OF int[OF ok(2)] items_cons[OF flags items_cons[OF int[OF ok(4)]
        items_cons[OF key_encodes[OF ok(5)] items_cons[OF int[OF ok(6)] items_nil]]]]]]
  have "encodes (entry_tree e) (line ''*6'' @ concat (map line (tl (entry_lines e))))"
    using array[of _ "bstr ''6''"] digit_spells(3)
    by (simp add: e tag_line(3)[of "''6''", simplified] comp_def)
  then show ?thesis by (simp add: e)
qed

lemma command_encodes: "encodes command_tree command_reply"
proof -
  have "encode_items (map entry_tree command_table) (concat (map (\<lambda>e. concat (map line (entry_lines e))) command_table))"
    using command_table_ok by (intro encode_items_map entry_encodes) (auto simp: list_all_iff)
  moreover have "length (map entry_tree command_table) = 37" by (simp add: command_table_def)
  ultimately have "encodes command_tree (42 # bstr ''37'' @ crlf
      @ concat (map (\<lambda>e. concat (map line (entry_lines e))) command_table))"
    unfolding command_tree_def using digit_spells(7) by (intro array) simp_all
  then show ?thesis
    unfolding command_reply_def command_lines_entries
    by (simp add: map_concat concat_concat_map tag_line(3)[of "''37''", simplified] comp_def)
qed

subsection \<open>Every response is well-formed RESP\<close>

context decimal_printer
begin

lemma bulk_encodes: "encodes (Bulk b) (render_bulk itoa b)"
  using null bulk[OF spells_itoa] by (cases b) (simp_all add: line_def bstr_def)

lemma number_encodes: "encodes (Integer n) (render_number itoa n)"
  using integer[OF spells_itoa, of n] by (simp add: render_number_def bstr_def)

lemma three_items:
  assumes "encodes a x" "encodes b y" "encodes c z"
  shows "encodes (Array [a, b, c]) (line ''*3'' @ x @ y @ z)"
  using array[OF _ items_cons[OF assms(1) items_cons[OF assms(2) encode_items_single[OF assms(3)]]],
      of "bstr ''3''"] digit_spells(2) by (simp add: line_def bstr_def)

lemma word_encodes:
  "encodes (Bulk (Some (bstr ''subscribe''))) (line ''$9'' @ line ''subscribe'')"
  "encodes (Bulk (Some (bstr ''unsubscribe''))) (line ''$11'' @ line ''unsubscribe'')"
  "encodes (Bulk (Some (bstr ''message''))) (line ''$7'' @ line ''message'')"
  using bulk[of "bstr ''subscribe''" "bstr ''9''"] bulk[of "bstr ''unsubscribe''" "bstr ''11''"]
    bulk[of "bstr ''message''" "bstr ''7''"] digit_spells
  by (simp_all add: line_def bstr_def)

lemma channel_encodes:
  "encodes (channel_tree ''subscribe'' ch)
     (render_channel itoa (line ''*3'' @ line ''$9'' @ line ''subscribe'' @ bstr ''$'') ch)"
  "encodes (channel_tree ''unsubscribe'' ch)
     (render_channel itoa (line ''*3'' @ line ''$11'' @ line ''unsubscribe'' @ bstr ''$'') ch)"
  using three_items[OF word_encodes(1) bulk_encodes[of "Some (fst ch)"] number_encodes[of "int (snd ch)"]]
    three_items[OF word_encodes(2) bulk_encodes[of "Some (fst ch)"] number_encodes[of "int (snd ch)"]]
  by (cases ch, simp add: channel_tree_def render_channel_def render_number_def)+

lemma message_encodes: "encodes (message_tree event message) (render_message itoa event message)"
  using three_items[OF word_encodes(3) bulk_encodes[of "Some event"] bulk_encodes[of "Some message"]]
  by (simp add: message_tree_def render_message_def)

lemma render_encodes: "encode_items (reply_trees r) (render itoa r)"
proof (cases r)
  case (Info i)
  then show ?thesis
    using simple[of "bstr ''OK''"] simple[of "bstr ''PONG''"] command_encodes
    by (cases i) (auto intro!: encode_items_single simp: line_def bstr_def)
next
  case (BulkStringArray b)
  show ?thesis
  proof (cases b)
    case None
    with BulkStringArray bulk_encodes[of None] show ?thesis by (simp add: encode_items_single)
  next
    case (Some bs)
    have "encode_items (map Bulk bs) (concat (map (render_bulk itoa) bs))"
      by (intro encode_items_map bulk_encodes)
    from array[OF _ this, of "itoa (int (length bs))"] show ?thesis
      by (auto simp: BulkStringArray Some spells_itoa bstr_def intro!: encode_items_single)
  qed
next
  case (UnsubscribedChannels u)
  then show ?thesis
    using three_items[OF word_encodes(2) null integer[OF digit_spells(1)]] channel_encodes(2)
    by (cases u) (auto intro!: encode_items_single encode_items_map simp: line_def bstr_def)
next
  case (SubscribedChannels chs)
  then show ?thesis by (simp add: encode_items_map channel_encodes(1))
qed (auto intro!: encode_items_single simp: error_encodes bulk_encodes number_encodes)

end

lemma command_tree_depth: "depth command_tree \<le> 4"
  by (auto simp: command_tree_def fold_max_le command_table_def)

lemma bulks_depth: "depth (Array (map Bulk bs)) \<le> 4"
  by (auto simp: fold_max_le)

lemma reply_depth: "\<forall>t \<in> set (reply_trees r). depth t \<le> 4"
proof (cases r)
  case (BulkStringArray b)
  then show ?thesis using bulks_depth by (cases b) auto
next
  case (Info i)
  then show ?thesis using command_tree_depth by (cases i) auto
next
  case (UnsubscribedChannels u)
  then show ?thesis by (cases u) (auto simp: channel_tree_def)
qed (auto simp: channel_tree_def)

lemma render_decodes:
  assumes "decimal_printer itoa"
  shows "client_reads (length (render itoa r)) (render itoa r) = Some (reply_trees r)"
  by (rule client_reads_items[OF decimal_printer.render_encodes[OF assms] reply_depth]) simp

subsection \<open>What the egress thread writes\<close>

text \<open>Two clients never share a stream.\<close>

definition streams_apart :: "egress_thread \<Rightarrow> bool" where
  "streams_apart e = (\<forall>t t' s. fmlookup (e_map e) t = Some s \<longrightarrow> fmlookup (e_map e) t' = Some s \<longrightarrow> t = t')"

text \<open>The bytes a decree means for a connected client.\<close>

fun traffic :: "(int \<Rightarrow> bytes) \<Rightarrow> token \<Rightarrow> decree \<Rightarrow> bytes" where
  "traffic itoa t (Deliver gift) = (if gift_token gift = t then render itoa (gift_response gift) else [])"
| "traffic itoa t (Broadcast token event message clients) =
     concat (replicate (count_list clients t) (render_message itoa event message))
       @ (if token = t then render_number itoa (int (length clients)) else [])"
| "traffic itoa t _ = []"

fun carries :: "decree \<Rightarrow> bool" where
  "carries (Deliver _) = True"
| "carries (Broadcast _ _ _ _) = True"
| "carries _ = False"

lemma write_all_other: "s' \<noteq> s \<Longrightarrow> snd (write_all sks s' bs) s = sks s"
  by (auto simp: write_all_def split: option.splits)

lemma write_all_roomy:
  "sk_room (sks s) = None \<Longrightarrow>
     fst (write_all sks s bs) \<and> snd (write_all sks s bs) s = (sks s)\<lparr>sk_sent := sk_sent (sks s) @ bs\<rparr>"
  by (simp add: write_all_def)

lemma broadcast_loop_writes:
  assumes "fmlookup streams t = Some s" "\<And>t'. fmlookup streams t' = Some s \<Longrightarrow> t' = t"
    and "sk_room (sks s) = None"
  shows "broadcast_loop streams sks response clients s =
    (sks s)\<lparr>sk_sent := sk_sent (sks s) @ concat (replicate (count_list clients t) response)\<rparr>"
  using assms(3)
proof (induction clients arbitrary: sks)
  case (Cons c clients)
  show ?case
  proof (cases "c = t")
    case True
    with Cons assms(1) write_all_roomy[of sks s response] show ?thesis by simp
  next
    case False
    show ?thesis
    proof (cases "fmlookup streams c")
      case None
      with Cons False show ?thesis by simp
    next
      case (Some s')
      with False assms(2) have "s' \<noteq> s" by auto
      with Cons False Some write_all_other[of s' s sks response] show ?thesis by simp
    qed
  qed
qed simp

lemma egress_step_writes:
  assumes "carries d" and uniq: "\<And>t'. fmlookup (e_map e) t' = Some s \<Longrightarrow> t' = t"
    and "fmlookup (e_map e) t = Some s" "sk_room (e_sockets e s) = None"
  shows "e_sockets (egress_step itoa e d) s =
      (e_sockets e s)\<lparr>sk_sent := sk_sent (e_sockets e s) @ traffic itoa t d\<rparr>"
    and "e_map (egress_step itoa e d) = e_map e"
proof -
  show "e_map (egress_step itoa e d) = e_map e"
    using assms(1) by (cases d) (auto simp: Let_def split: option.splits prod.splits sum.splits)
  show "e_sockets (egress_step itoa e d) s =
      (e_sockets e s)\<lparr>sk_sent := sk_sent (e_sockets e s) @ traffic itoa t d\<rparr>"
  proof (cases d)
    case (Deliver g)
    show ?thesis
    proof (cases "gift_token g = t")
      case True
      with Deliver assms(3,4) write_all_roomy[of "e_sockets e" s "render itoa (gift_response g)"] show ?thesis
        by (auto simp: send_gift_def split: prod.splits)
    next
      case False
      with Deliver uniq write_all_other[of _ s "e_sockets e" "render itoa (gift_response g)"] show ?thesis
        by (fastforce simp: send_gift_def split: prod.splits option.splits bool.splits)
    qed
  next
    case (Broadcast p ev msg cs)
    have bc: "broadcast_loop (e_map e) (e_sockets e) (render_message itoa ev msg) cs s = (e_sockets e s)
        \<lparr>sk_sent := sk_sent (e_sockets e s) @ concat (replicate (count_list cs t) (render_message itoa ev msg))\<rparr>"
      using assms(3) uniq assms(4) by (rule broadcast_loop_writes)
    show ?thesis
    proof (cases "p = t")
      case True
      with Broadcast assms(3,4) bc show ?thesis by (simp add: write_all_roomy Let_def)
    next
      case False
      have "s' \<noteq> s" if "fmlookup (e_map e) p = Some s'" for s' using uniq[of p] False that by auto
      with Broadcast False bc show ?thesis
        by (cases "fmlookup (e_map e) p") (auto simp: Let_def write_all_other)
    qed
  qed (use assms(1) in simp_all)
qed

text \<open>Over any sequence of responses a client with room receives exactly its own, in order.\<close>

lemma egress_loop_writes:
  assumes "list_all carries ds" "streams_apart e" "fmlookup (e_map e) t = Some s" "sk_room (e_sockets e s) = None"
  shows "sk_sent (e_sockets (egress_loop itoa e ds) s) =
    sk_sent (e_sockets e s) @ concat (map (traffic itoa t) ds)"
  using assms
proof (induction ds arbitrary: e)
  case (Cons d ds)
  have "t' = t" if "fmlookup (e_map e) t' = Some s" for t'
    using that Cons.prems(2,3) by (auto simp: streams_apart_def)
  note step = egress_step_writes[where e = e and d = d and itoa = itoa, OF _ this Cons.prems(3,4)]
  have "streams_apart (egress_step itoa e d)" using Cons.prems step(2) by (simp add: streams_apart_def)
  then show ?case using Cons.IH[of "egress_step itoa e d"] Cons.prems step by (simp add: egress_loop_def)
qed (simp add: egress_loop_def)

text \<open>A full socket: the response is cut off, and the client is reported to the server as lost.\<close>

lemma deliver_full:
  assumes "fmlookup (e_map e) (gift_token g) = Some s" "sk_room (e_sockets e s) = Some room"
    and "room < length (render itoa (gift_response g))"
  shows "sk_sent (e_sockets (egress_step itoa e (Deliver g)) s) =
      sk_sent (e_sockets e s) @ take room (render itoa (gift_response g)) \<and>
    e_tx (egress_step itoa e (Deliver g)) = snd (send (e_tx e) (gift_token g))"
  using assms by (simp add: send_gift_def write_all_def)

text \<open>A full subscriber of a broadcast is left connected, with part of the message.\<close>

lemma broadcast_full:
  assumes "fmlookup (e_map e) t = Some s" "sk_room (e_sockets e s) = Some room" "p \<noteq> t" "fmlookup (e_map e) p = None"
    and "room < length (render_message itoa event message)"
  shows "sk_sent (e_sockets (egress_step itoa e (Broadcast p event message [t])) s) =
      sk_sent (e_sockets e s) @ take room (render_message itoa event message) \<and>
    e_map (egress_step itoa e (Broadcast p event message [t])) = e_map e \<and>
    e_tx (egress_step itoa e (Broadcast p event message [t])) = e_tx e"
  using assms by (simp add: write_all_def)


end
