(* ===== verification/Ingress.thy ===== *)
theory Ingress
  imports Handlers
begin

section \<open>Reading requests (\<open>src/wish.rs\<close>)\<close>

text \<open>
  A connection that becomes readable is given to \<open>wish\<close>: it reads into a growing buffer (\<open>Virtue\<close>),
  parses RESP requests incrementally and hands each complete one to \<open>grant\<close>. The parser keeps its
  state between calls, so a request may arrive in any number of pieces.

  One turn of the loop is \<open>wish_step\<close>; \<open>wish_loop\<close> repeats it. The socket is the list of what its
  reads will return; an exhausted list means no data yet. Index and slice panics, and the
  arithmetic that wraps in a release build, are written out; \<open>Crash\<close> is a panic of the thread.
\<close>

datatype phase =
    Idle
  | AwaitingTermCount
  | GraspingMarker
  | AwaitingBulkStringLength
  | AwaitingBulkString nat

record virtue =
  v_backlog :: bytes
  v_read :: nat
  v_write :: nat
  v_terms :: "bytes list"
  v_expected :: nat
  v_phase :: phase

definition virtue_new :: virtue where
  "virtue_new = \<lparr>v_backlog = replicate 4096 0, v_read = 0, v_write = 0, v_terms = [], v_expected = 0,
     v_phase = Idle\<rparr>"

definition usize_sub :: "nat \<Rightarrow> nat \<Rightarrow> nat" where
  "usize_sub a b = (if b \<le> a then a - b else a + 2 ^ 64 - b)"

definition usize_add :: "nat \<Rightarrow> nat \<Rightarrow> nat" where
  "usize_add a b = (a + b) mod 2 ^ 64"

subsection \<open>The buffer\<close>

text \<open>\<open>copy_within(a..b, 0)\<close>\<close>

definition copy_within :: "bytes \<Rightarrow> nat \<Rightarrow> nat \<Rightarrow> bytes" where
  "copy_within xs a b = take (b - a) (drop a xs) @ drop (b - a) xs"

definition slice_ok :: "nat \<Rightarrow> nat \<Rightarrow> bytes \<Rightarrow> bool" where
  "slice_ok a b xs = (a \<le> b \<and> b \<le> length xs)"

definition compact :: "virtue \<Rightarrow> virtue option" where
  "compact v =
     (if v_read v > 0 then
        (let len = usize_sub (v_write v) (v_read v)
         in if slice_ok (v_read v) (v_write v) (v_backlog v)
            then Some (v\<lparr>v_backlog := copy_within (v_backlog v) (v_read v) (v_write v), v_read := 0, v_write := len\<rparr>)
            else None)
      else Some v)"

definition crowded :: "virtue \<Rightarrow> bool" where
  "crowded v = (v_write v > usize_sub (length (v_backlog v)) 1024)"

definition resize :: "bytes \<Rightarrow> nat \<Rightarrow> bytes" where
  "resize xs n = take n xs @ replicate (n - length xs) 0"

definition make_room :: "virtue \<Rightarrow> (virtue \<times> (sin + unit)) option" where
  "make_room v =
     (if crowded v then
        (case compact v of
           None \<Rightarrow> None
         | Some v \<Rightarrow>
             if crowded v then
               (let new_size = (length (v_backlog v) * 2) mod 2 ^ 64
                in if new_size > 64 * 1024 * 1024 then Some (v, Inl Blasphemy)
                   else Some (v\<lparr>v_backlog := resize (v_backlog v) new_size\<rparr>, Inr ()))
             else Some (v, Inr ()))
      else Some (v, Inr ()))"

text \<open>A read takes what is there, up to the space given; no bytes is the end of the stream.\<close>

datatype read_result =
    Chunk bytes
  | WouldBlock
  | Failed

definition write_at :: "bytes \<Rightarrow> nat \<Rightarrow> bytes \<Rightarrow> bytes" where
  "write_at xs i bs = take i xs @ bs @ drop (i + length bs) xs"

fun socket_read :: "read_result list \<Rightarrow> nat \<Rightarrow> read_result \<times> read_result list" where
  "socket_read [] space = (WouldBlock, [])"
| "socket_read (Chunk bs # rs) space =
     (Chunk (take space bs), if length bs \<le> space then rs else Chunk (drop space bs) # rs)"
| "socket_read (r # rs) space = (r, rs)"

definition potentially_resize_and_read ::
  "virtue \<Rightarrow> read_result list \<Rightarrow> (virtue \<times> read_result list \<times> (sin + bool)) option" where
  "potentially_resize_and_read v rs =
     (case make_room v of
        None \<Rightarrow> None
      | Some (v, Inl e) \<Rightarrow> Some (v, rs, Inl e)
      | Some (v, Inr _) \<Rightarrow>
          if v_write v > length (v_backlog v) then None
          else (case socket_read rs (length (v_backlog v) - v_write v) of
                  (Chunk bs, rs) \<Rightarrow>
                    if bs = [] then Some (v, rs, Inl Disconnected)
                    else Some (v\<lparr>v_backlog := write_at (v_backlog v) (v_write v) bs,
                                v_write := v_write v + length bs\<rparr>, rs, Inr False)
                | (WouldBlock, rs) \<Rightarrow> Some (v, rs, Inr True)
                | (Failed, rs) \<Rightarrow> Some (v, rs, Inl Disconnected)))"

subsection \<open>The parser\<close>

text \<open>
  A connection: its buffer, its socket, the channels its requests go to, and the times the clock
  will show to the handlers.
\<close>

record conn =
  c_virtue :: virtue
  c_reads :: "read_result list"
  c_altar :: altar
  c_clock :: "nat \<Rightarrow> system_time"

datatype turn =
    Continue
  | Return
  | Fall sin
  | Crash

definition await_bytes :: "conn \<Rightarrow> conn \<times> turn" where
  "await_bytes c =
     (case potentially_resize_and_read (c_virtue c) (c_reads c) of
        None \<Rightarrow> (c, Crash)
      | Some (v, rs, Inl e) \<Rightarrow> (c\<lparr>c_virtue := v, c_reads := rs\<rparr>, Fall e)
      | Some (v, rs, Inr True) \<Rightarrow> (c\<lparr>c_virtue := v, c_reads := rs\<rparr>, Return)
      | Some (v, rs, Inr False) \<Rightarrow> (c\<lparr>c_virtue := v, c_reads := rs\<rparr>, Continue))"

definition advance :: "nat \<Rightarrow> phase \<Rightarrow> conn \<Rightarrow> conn" where
  "advance n phase c =
     c\<lparr>c_virtue := (c_virtue c)\<lparr>v_read := v_read (c_virtue c) + n, v_phase := phase\<rparr>\<rparr>"

definition hand_over :: "token \<Rightarrow> conn \<Rightarrow> conn \<times> turn" where
  "hand_over token c =
     (case grant (c_clock c 0) (v_terms (c_virtue c)) token (c_altar c) of
        None \<Rightarrow> (c, Crash)
      | Some a \<Rightarrow>
          (c\<lparr>c_virtue := (c_virtue c)\<lparr>v_terms := [], v_phase := Idle\<rparr>, c_altar := a,
             c_clock := (\<lambda>i. c_clock c (Suc i))\<rparr>, Continue))"

fun parse_step :: "token \<Rightarrow> conn \<Rightarrow> bytes \<Rightarrow> phase \<Rightarrow> conn \<times> turn" where
  "parse_step token c window Idle =
     (if window ! 0 = 42 then (advance 1 AwaitingTermCount c, Continue) else (c, Fall Blasphemy))"
| "parse_step token c window AwaitingTermCount =
     (case find_crlf window of
        Some index \<Rightarrow>
          (case bytes_to_usize (take index window) of
             Inl e \<Rightarrow> (c, Fall e)
           | Inr n \<Rightarrow>
               (let c = c\<lparr>c_virtue := (c_virtue c)\<lparr>v_expected := n\<rparr>\<rparr>
                in (advance (index + 2) (if n = 0 then Idle else GraspingMarker) c, Continue)))
      | None \<Rightarrow> await_bytes c)"
| "parse_step token c window GraspingMarker =
     (if window ! 0 = 36 then (advance 1 AwaitingBulkStringLength c, Continue)
      else await_bytes (advance 1 GraspingMarker c))"
| "parse_step token c window AwaitingBulkStringLength =
     (case find_crlf window of
        Some index \<Rightarrow>
          (case bytes_to_usize (take index window) of
             Inl e \<Rightarrow> (c, Fall e)
           | Inr len \<Rightarrow> (advance (index + 2) (AwaitingBulkString len) c, Continue))
      | None \<Rightarrow> await_bytes c)"
| "parse_step token c window (AwaitingBulkString len) =
     (if length window \<ge> usize_add len 2 then
        (if \<not> len < length window then (c, Crash)
         else if window ! len \<noteq> 13 then (c, Fall Blasphemy)
         else if \<not> usize_add len 1 < length window then (c, Crash)
         else if window ! usize_add len 1 \<noteq> 10 then (c, Fall Blasphemy)
         else
           (let c = c\<lparr>c_virtue := (c_virtue c)\<lparr>v_terms := v_terms (c_virtue c) @ [take len window]\<rparr>\<rparr>;
                c = advance (usize_add len 2) GraspingMarker c
            in if length (v_terms (c_virtue c)) = v_expected (c_virtue c) then hand_over token c
               else (c, Continue)))
      else await_bytes c)"

definition wish_step :: "token \<Rightarrow> conn \<Rightarrow> conn \<times> turn" where
  "wish_step token c =
     (let v = c_virtue c
      in if \<not> slice_ok (v_read v) (v_write v) (v_backlog v) then (c, Crash)
         else (let window = take (v_write v - v_read v) (drop (v_read v) (v_backlog v))
               in if window = [] then (c, Return) else parse_step token c window (v_phase v)))"

subsection \<open>The loop ends\<close>

text \<open>Each turn either takes something from the socket, or consumes bytes of the window.\<close>

definition reads_size :: "read_result list \<Rightarrow> nat" where
  "reads_size rs = sum_list (map (\<lambda>r. case r of Chunk bs \<Rightarrow> Suc (length bs) | _ \<Rightarrow> 1) rs)"

definition unread :: "conn \<Rightarrow> nat" where
  "unread c = v_write (c_virtue c) - v_read (c_virtue c)"

definition bulk_rank :: "conn \<Rightarrow> nat" where
  "bulk_rank c = (case v_phase (c_virtue c) of AwaitingBulkString _ \<Rightarrow> 1 | _ \<Rightarrow> 0)"

lemma socket_read_size:
  "socket_read rs space = (Chunk bs, rs') \<Longrightarrow> bs \<noteq> [] \<Longrightarrow> reads_size rs' < reads_size rs"
  by (induction rs space rule: socket_read.induct) (auto simp: reads_size_def split: if_splits)

lemma read_size:
  "potentially_resize_and_read v rs = Some (v', rs', Inr False) \<Longrightarrow> reads_size rs' < reads_size rs"
  by (auto simp: potentially_resize_and_read_def socket_read_size
      split: option.splits prod.splits sum.splits read_result.splits if_splits)

lemma await_size: "await_bytes c = (c', Continue) \<Longrightarrow> reads_size (c_reads c') < reads_size (c_reads c)"
  by (auto simp: await_bytes_def dest!: read_size split: option.splits prod.splits sum.splits bool.splits)

lemma advance_simps [simp]:
  "c_reads (advance n p c) = c_reads c" "c_altar (advance n p c) = c_altar c"
  "c_clock (advance n p c) = c_clock c"
  "c_virtue (advance n p c) = (c_virtue c)\<lparr>v_read := v_read (c_virtue c) + n, v_phase := p\<rparr>"
  by (simp_all add: advance_def)

lemma hand_over_size:
  "hand_over token c = (c', Continue) \<Longrightarrow>
     c_reads c' = c_reads c \<and> unread c' = unread c \<and> bulk_rank c' = 0"
  by (auto simp: hand_over_def unread_def bulk_rank_def split: option.splits)

lemma parse_step_size:
  assumes "parse_step token c window (v_phase (c_virtue c)) = (c', Continue)" "0 < unread c"
  shows "(c', c) \<in> measures [\<lambda>c. reads_size (c_reads c), unread, bulk_rank]"
proof (cases "v_phase (c_virtue c)")
  case Idle
  with assms show ?thesis by (auto simp: unread_def split: if_splits)
next
  case AwaitingTermCount
  with assms show ?thesis
    by (auto simp: unread_def Let_def dest!: await_size split: option.splits sum.splits)
next
  case GraspingMarker
  with assms show ?thesis
    by (auto simp: unread_def dest!: await_size split: if_splits)
next
  case AwaitingBulkStringLength
  with assms show ?thesis
    by (auto simp: unread_def dest!: await_size split: option.splits sum.splits)
next
  case (AwaitingBulkString len)
  with assms show ?thesis
    by (auto simp: Let_def unread_def bulk_rank_def dest!: await_size hand_over_size split: if_splits)
qed

function wish_loop :: "token \<Rightarrow> conn \<Rightarrow> conn \<times> turn" where
  "wish_loop token c =
     (case wish_step token c of
        (c', Continue) \<Rightarrow> wish_loop token c'
      | (c', turn) \<Rightarrow> (c', turn))"
  by pat_completeness auto

termination
proof (relation "inv_image (measures [\<lambda>c. reads_size (c_reads c), unread, bulk_rank]) snd")
  fix token c c' turn
  assume "(c', turn) = wish_step token c" "turn = Continue"
  then show "((token, c'), token, c) \<in> inv_image (measures [\<lambda>c. reads_size (c_reads c), unread, bulk_rank]) snd"
    using parse_step_size[of token c _ c']
    by (auto simp: wish_step_def Let_def slice_ok_def unread_def split: if_splits)
qed simp

declare wish_loop.simps [simp del]

text \<open>
  \<open>wish\<close>: the first read creates the buffer if there is none; with nothing to read it returns.
\<close>

definition wish :: "token \<Rightarrow> virtue option \<Rightarrow> conn \<Rightarrow> conn \<times> turn" where
  "wish token pilgrim_virtue c =
     (let c = c\<lparr>c_virtue := (case pilgrim_virtue of None \<Rightarrow> virtue_new | Some v \<Rightarrow> v)\<rparr>
      in case await_bytes c of
           (c', Continue) \<Rightarrow> wish_loop token c'
         | (c', turn) \<Rightarrow> (c', turn))"

end
