(* ===== verification/IngressSpec.thy ===== *)
theory IngressSpec
  imports Ingress Resp
begin

section \<open>What the request parser guarantees\<close>

text \<open>
  The buffer invariant (\<open>virtue_wf\<close>), the requests a byte string contains (\<open>requests\<close>, a parser with
  the whole input at hand), and the theorem that the incremental parser grants exactly those, in
  order, however the bytes are cut into reads.
\<close>

subsection \<open>The buffer invariant\<close>

definition window :: "virtue \<Rightarrow> bytes" where
  "window v = take (v_write v - v_read v) (drop (v_read v) (v_backlog v))"

definition buffer_wf :: "virtue \<Rightarrow> bool" where
  "buffer_wf v \<longleftrightarrow> 4096 \<le> length (v_backlog v) \<and> length (v_backlog v) \<le> 64 * 1024 * 1024 \<and>
     v_read v \<le> v_write v \<and> v_write v \<le> length (v_backlog v)"

definition terms_wf :: "virtue \<Rightarrow> bool" where
  "terms_wf v \<longleftrightarrow>
     (if v_phase v = Idle \<or> v_phase v = AwaitingTermCount then v_terms v = []
      else length (v_terms v) < v_expected v) \<and>
     (\<forall>len. v_phase v = AwaitingBulkString len \<longrightarrow> len < 2 ^ 64)"

definition virtue_wf :: "virtue \<Rightarrow> bool" where
  "virtue_wf v \<longleftrightarrow> buffer_wf v \<and> terms_wf v"

lemma length_window: "buffer_wf v \<Longrightarrow> length (window v) = v_write v - v_read v"
  by (auto simp: window_def buffer_wf_def min_def)

lemma window_small: "buffer_wf v \<Longrightarrow> length (window v) \<le> 67108864"
  by (auto simp: length_window buffer_wf_def)

lemma virtue_new_wf: "virtue_wf virtue_new"
  by (simp add: virtue_wf_def buffer_wf_def terms_wf_def virtue_new_def)

lemma usize_sub_le: "b \<le> a \<Longrightarrow> usize_sub a b = a - b"
  by (simp add: usize_sub_def)

lemma compact_wf:
  assumes "buffer_wf v"
  shows "\<exists>v'. compact v = Some v' \<and> buffer_wf v' \<and> window v' = window v \<and>
    v_terms v' = v_terms v \<and> v_expected v' = v_expected v \<and> v_phase v' = v_phase v"
  using assms
  by (auto simp: compact_def Let_def slice_ok_def usize_sub_le copy_within_def buffer_wf_def window_def)

lemma make_room_wf:
  assumes "buffer_wf v"
  shows "\<exists>v' r. make_room v = Some (v', r) \<and> buffer_wf v' \<and> window v' = window v \<and>
    v_terms v' = v_terms v \<and> v_expected v' = v_expected v \<and> v_phase v' = v_phase v \<and>
    (r = Inr () \<longrightarrow> v_write v' + 1024 \<le> length (v_backlog v')) \<and> (r = Inr () \<or> r = Inl Blasphemy)"
proof -
  obtain v1 where c: "compact v = Some v1" "buffer_wf v1" "window v1 = window v" "v_terms v1 = v_terms v"
    "v_expected v1 = v_expected v" "v_phase v1 = v_phase v" using compact_wf[OF assms] by blast
  have small: "length (v_backlog v1) * 2 mod 2 ^ 64 = length (v_backlog v1) * 2"
    using c(2) by (simp add: buffer_wf_def)
  show ?thesis
    using assms c unfolding make_room_def crowded_def
    by (auto simp: Let_def small resize_def usize_sub_le buffer_wf_def window_def)
qed

subsection \<open>Reading\<close>

definition stream_bytes :: "read_result list \<Rightarrow> bytes" where
  "stream_bytes rs = concat (map (\<lambda>r. case r of Chunk bs \<Rightarrow> bs | _ \<Rightarrow> []) rs)"

lemma socket_read_bytes:
  "socket_read rs space = (r, rs') \<Longrightarrow>
     stream_bytes rs = (case r of Chunk bs \<Rightarrow> bs | _ \<Rightarrow> []) @ stream_bytes rs'"
  by (induction rs space rule: socket_read.induct) (auto simp: stream_bytes_def split: if_splits)

lemma socket_read_fits: "socket_read rs space = (Chunk bs, rs') \<Longrightarrow> length bs \<le> space"
  by (induction rs space rule: socket_read.induct) (auto split: if_splits)

lemma window_write:
  assumes "buffer_wf v" "v_write v + length bs \<le> length (v_backlog v)"
  shows "window (v\<lparr>v_backlog := write_at (v_backlog v) (v_write v) bs, v_write := v_write v + length bs\<rparr>)
    = window v @ bs"
  using assms
  by (auto simp: window_def write_at_def buffer_wf_def drop_take)

lemma read_wf:
  assumes "buffer_wf v"
  shows "\<exists>v' rs' r. potentially_resize_and_read v rs = Some (v', rs', r) \<and> buffer_wf v' \<and>
    v_terms v' = v_terms v \<and> v_expected v' = v_expected v \<and> v_phase v' = v_phase v \<and>
    window v' @ stream_bytes rs' = window v @ stream_bytes rs"
proof -
  obtain v1 e where m: "make_room v = Some (v1, e)" "buffer_wf v1" "window v1 = window v" "v_terms v1 = v_terms v"
    "v_expected v1 = v_expected v" "v_phase v1 = v_phase v"
    "e = Inr () \<longrightarrow> v_write v1 + 1024 \<le> length (v_backlog v1)" using make_room_wf[OF assms] by blast
  show ?thesis
  proof (cases e)
    case (Inl a)
    with m show ?thesis by (simp add: potentially_resize_and_read_def)
  next
    case (Inr u)
    obtain r rs' where s: "socket_read rs (length (v_backlog v1) - v_write v1) = (r, rs')" by fastforce
    note bytes = socket_read_bytes[OF s]
    have w: "v_write v1 \<le> length (v_backlog v1)" using m(2) by (simp add: buffer_wf_def)
    show ?thesis
    proof (cases r)
      case (Chunk bs)
      have fits: "v_write v1 + length bs \<le> length (v_backlog v1)"
        using socket_read_fits[OF s[unfolded Chunk]] w by simp
      have "buffer_wf (v1\<lparr>v_backlog := write_at (v_backlog v1) (v_write v1) bs, v_write := v_write v1 + length bs\<rparr>)"
        using m(2) fits by (simp add: buffer_wf_def write_at_def)
      with m Inr s w Chunk bytes window_write[OF m(2) fits] show ?thesis
        by (cases "bs = []") (simp_all add: potentially_resize_and_read_def not_less)
    qed (use m Inr s w bytes in \<open>simp_all add: potentially_resize_and_read_def not_less\<close>)
  qed
qed

subsection \<open>The requests in a byte string\<close>

function requests :: "phase \<Rightarrow> bytes list \<Rightarrow> nat \<Rightarrow> bytes \<Rightarrow> bytes list list" where
  "requests phase terms expected [] = []"
| "requests Idle terms expected (b # bs) =
     (if b = 42 then requests AwaitingTermCount terms expected bs else [])"
| "requests AwaitingTermCount terms expected (b # bs) =
     (case find_crlf (b # bs) of
        None \<Rightarrow> []
      | Some i \<Rightarrow>
          (case bytes_to_usize (take i (b # bs)) of
             Inl _ \<Rightarrow> []
           | Inr n \<Rightarrow> requests (if n = 0 then Idle else GraspingMarker) terms n (drop (i + 2) (b # bs))))"
| "requests GraspingMarker terms expected (b # bs) =
     requests (if b = 36 then AwaitingBulkStringLength else GraspingMarker) terms expected bs"
| "requests AwaitingBulkStringLength terms expected (b # bs) =
     (case find_crlf (b # bs) of
        None \<Rightarrow> []
      | Some i \<Rightarrow>
          (case bytes_to_usize (take i (b # bs)) of
             Inl _ \<Rightarrow> []
           | Inr len \<Rightarrow> requests (AwaitingBulkString len) terms expected (drop (i + 2) (b # bs))))"
| "requests (AwaitingBulkString len) terms expected (b # bs) =
     (if length (b # bs) < len + 2 \<or> (b # bs) ! len \<noteq> 13 \<or> (b # bs) ! (len + 1) \<noteq> 10 then []
      else (let terms' = terms @ [take len (b # bs)]; rest = drop (len + 2) (b # bs)
            in if length terms' = expected then terms' # requests Idle [] expected rest
               else requests GraspingMarker terms' expected rest))"
  by pat_completeness auto

termination by (relation "measure (\<lambda>(_, _, _, bs). length bs)") auto

definition pending :: "conn \<Rightarrow> bytes" where
  "pending c = window (c_virtue c) @ stream_bytes (c_reads c)"

definition conn_requests :: "conn \<Rightarrow> bytes list list" where
  "conn_requests c = requests (v_phase (c_virtue c)) (v_terms (c_virtue c)) (v_expected (c_virtue c)) (pending c)"

text \<open>Granting a sequence of requests, one clock reading each.\<close>

fun grant_all :: "token \<Rightarrow> bytes list list \<Rightarrow> altar \<times> (nat \<Rightarrow> system_time) \<Rightarrow> (altar \<times> (nat \<Rightarrow> system_time)) option" where
  "grant_all token [] s = Some s"
| "grant_all token (terms # rest) (a, clock) =
     (case grant (clock 0) terms token a of
        None \<Rightarrow> None
      | Some a' \<Rightarrow> grant_all token rest (a', \<lambda>i. clock (Suc i)))"

lemma grant_all_append:
  "grant_all token (xs @ ys) s = Option.bind (grant_all token xs s) (grant_all token ys)"
  by (induction token xs s rule: grant_all.induct) (auto split: option.splits)

definition grants :: "token \<Rightarrow> bytes list list \<Rightarrow> conn \<Rightarrow> conn \<Rightarrow> bool" where
  "grants token done c c' \<longleftrightarrow>
     grant_all token done (c_altar c, c_clock c) = Some (c_altar c', c_clock c')"

lemma grants_refl: "c_altar c' = c_altar c \<Longrightarrow> c_clock c' = c_clock c \<Longrightarrow> grants token [] c c'"
  by (simp add: grants_def)

lemma grants_trans: "grants token xs a b \<Longrightarrow> grants token ys b c \<Longrightarrow> grants token (xs @ ys) a c"
  by (simp add: grants_def grant_all_append)

subsection \<open>One turn\<close>

text \<open>
  What a turn does: it keeps the invariant, grants a list of requests, and these are the first of
  the requests the connection had pending; unless it failed, the rest are still pending.
\<close>

definition turn_does :: "token \<Rightarrow> bytes list list \<Rightarrow> conn \<Rightarrow> conn \<Rightarrow> turn \<Rightarrow> bool" where
  "turn_does token done c c' t \<longleftrightarrow>
     virtue_wf (c_virtue c') \<and> grants token done c c' \<and>
     (\<exists>rest. conn_requests c = done @ rest \<and> (t = Continue \<or> t = Return \<longrightarrow> rest = conn_requests c'))"

definition turn_ok :: "token \<Rightarrow> conn \<Rightarrow> conn \<Rightarrow> turn \<Rightarrow> bool" where
  "turn_ok token c c' t \<longleftrightarrow> (\<exists>done. turn_does token done c c' t)"

text \<open>The request a turn completes, if any.\<close>

definition handed :: "conn \<Rightarrow> bytes list list" where
  "handed c =
     (let v = c_virtue c; w = window v
      in case v_phase v of
           AwaitingBulkString len \<Rightarrow>
             if len + 2 \<le> length w \<and> w ! len = 13 \<and> w ! (len + 1) = 10 \<and> Suc (length (v_terms v)) = v_expected v
             then [v_terms v @ [take len w]] else []
         | _ \<Rightarrow> [])"

lemma turn_does_same:
  assumes "virtue_wf (c_virtue c')" "c_altar c' = c_altar c" "c_clock c' = c_clock c"
    and "t = Continue \<or> t = Return \<Longrightarrow> conn_requests c' = conn_requests c"
  shows "turn_does token [] c c' t"
  using assms grants_refl[OF assms(2,3), of token] unfolding turn_does_def by fastforce

lemma turn_okI: "turn_does token done c c' t \<Longrightarrow> turn_ok token c c' t"
  by (auto simp: turn_ok_def)

lemma turn_ok_alt:
  "turn_ok token c c' t \<longleftrightarrow>
     virtue_wf (c_virtue c') \<and>
     (\<exists>done rest. grants token done c c' \<and> conn_requests c = done @ rest \<and>
        (t = Continue \<or> t = Return \<longrightarrow> rest = conn_requests c'))"
  by (auto simp: turn_ok_def turn_does_def)

lemma turn_ok_same:
  assumes "virtue_wf (c_virtue c')" "c_altar c' = c_altar c" "c_clock c' = c_clock c"
    and "t = Continue \<or> t = Return \<Longrightarrow> conn_requests c' = conn_requests c"
  shows "turn_ok token c c' t"
  using turn_does_same[OF assms] by (rule turn_okI)

lemma find_crlf_extend: "find_crlf w = Some i \<Longrightarrow> find_crlf (w @ x) = Some i"
proof (induction w arbitrary: i rule: find_crlf.induct)
  case (1 a b rest)
  then show ?case by (auto split: if_splits)
qed simp_all

lemma await_ok:
  assumes "virtue_wf (c_virtue c)"
  shows "\<exists>c' t. await_bytes c = (c', t) \<and> t \<noteq> Crash \<and> virtue_wf (c_virtue c') \<and> c_altar c' = c_altar c \<and>
    c_clock c' = c_clock c \<and> conn_requests c' = conn_requests c"
proof -
  obtain v rs r where r: "potentially_resize_and_read (c_virtue c) (c_reads c) = Some (v, rs, r)" "buffer_wf v"
    "v_terms v = v_terms (c_virtue c)" "v_expected v = v_expected (c_virtue c)" "v_phase v = v_phase (c_virtue c)"
    "window v @ stream_bytes rs = window (c_virtue c) @ stream_bytes (c_reads c)"
    using read_wf[of "c_virtue c" "c_reads c"] assms unfolding virtue_wf_def by blast
  then have "virtue_wf v" using assms by (simp add: virtue_wf_def terms_wf_def)
  with r show ?thesis
    by (cases r rule: sum.exhaust; cases "projr r")
      (auto simp: await_bytes_def conn_requests_def pending_def split: sum.split bool.split)
qed

lemma window_advance:
  assumes "buffer_wf v" "n \<le> length (window v)"
  shows "window (v\<lparr>v_read := v_read v + n, v_phase := p\<rparr>) = drop n (window v)"
    and "buffer_wf (v\<lparr>v_read := v_read v + n, v_phase := p\<rparr>)"
  using assms by (auto simp: window_def buffer_wf_def drop_take algebra_simps min_def split: if_splits)

text \<open>Consuming bytes of the window, up to a change of the terms.\<close>

lemma await_turn:
  assumes "virtue_wf (c_virtue c1)" "c_altar c1 = c_altar c" "c_clock c1 = c_clock c"
    and "conn_requests c1 = conn_requests c" "await_bytes c1 = (c', t)"
  shows "turn_does token [] c c' t \<and> t \<noteq> Crash"
proof -
  from await_ok[OF assms(1)] assms(5) have a: "t \<noteq> Crash" "virtue_wf (c_virtue c')" "c_altar c' = c_altar c1"
    "c_clock c' = c_clock c1" "conn_requests c' = conn_requests c1" by auto
  with assms show ?thesis by (auto intro!: turn_does_same)
qed

lemma pending_cons:
  "window (c_virtue c) = b # w \<Longrightarrow> pending c = b # (w @ stream_bytes (c_reads c))"
  by (simp add: pending_def)

lemma conn_requests_advance:
  assumes "buffer_wf (c_virtue c)" "n \<le> length (window (c_virtue c))"
  shows "conn_requests (advance n p c) =
    requests p (v_terms (c_virtue c)) (v_expected (c_virtue c)) (drop n (pending c))"
  using assms by (simp add: conn_requests_def pending_def window_advance)

lemma advance_turn:
  assumes "buffer_wf (c_virtue c)" "n \<le> length (window (c_virtue c))"
    and "terms_wf (c_virtue (advance n p c))"
    and "requests p (v_terms (c_virtue c)) (v_expected (c_virtue c)) (drop n (pending c)) = conn_requests c0"
    and "c_altar c = c_altar c0" "c_clock c = c_clock c0"
  shows "turn_does token [] c0 (advance n p c) Continue"
  using assms conn_requests_advance[OF assms(1,2), of p]
  by (intro turn_does_same) (simp_all add: virtue_wf_def window_advance)

lemma bulk_bounds:
  assumes "buffer_wf v" "usize_add len 2 \<le> length (window v)" "len < length (window v)"
  shows "usize_add len 2 = len + 2" "usize_add len 1 = len + 1" "len + 2 \<le> length (window v)"
  using assms(2,3) window_small[OF assms(1)] by (auto simp: usize_add_def)

lemma fall_turn: "virtue_wf (c_virtue c) \<Longrightarrow> turn_does token [] c c (Fall e)"
  by (rule turn_does_same) simp_all

lemma grant_some: "terms \<noteq> [] \<Longrightarrow> \<exists>a'. grant now terms token a = Some a'"
  by (cases terms) (simp_all add: grant_def)

text \<open>A length line of the window, seen in the whole pending input.\<close>

lemma pending_line:
  assumes "find_crlf (window (c_virtue c)) = Some i"
  shows "find_crlf (pending c) = Some i" "take i (pending c) = take i (window (c_virtue c))"
    "i + 2 \<le> length (window (c_virtue c))"
  using find_crlf_extend[OF assms] find_crlf_SomeD[OF assms] by (simp_all add: pending_def)

lemma step_idle:
  assumes wf: "virtue_wf (c_virtue c)" and phase: "v_phase (c_virtue c) = Idle"
    and w: "window (c_virtue c) = b # w" and st: "parse_step token c (b # w) Idle = (c', t)"
  shows "turn_does token [] c c' t \<and> t \<noteq> Crash"
proof (cases "b = 42")
  case True
  have "turn_does token [] c (advance 1 AwaitingTermCount c) Continue"
    using wf phase w True pending_cons[OF w]
    by (intro advance_turn) (simp_all add: virtue_wf_def terms_wf_def conn_requests_def)
  with st True show ?thesis by auto
next
  case False
  with st wf fall_turn show ?thesis by auto
qed

lemma step_term_count:
  assumes wf: "virtue_wf (c_virtue c)" and phase: "v_phase (c_virtue c) = AwaitingTermCount"
    and w: "window (c_virtue c) = b # w" and st: "parse_step token c (b # w) AwaitingTermCount = (c', t)"
  shows "turn_does token [] c c' t \<and> t \<noteq> Crash"
proof (cases "find_crlf (b # w)")
  case None
  with st wf await_turn[OF wf refl refl refl] show ?thesis by simp
next
  case (Some i)
  note l = pending_line[of c i, unfolded w, OF Some]
  show ?thesis
  proof (cases "bytes_to_usize (take i (b # w))")
    case (Inl e)
    with st Some wf fall_turn show ?thesis by auto
  next
    case (Inr n)
    let ?c = "c\<lparr>c_virtue := (c_virtue c)\<lparr>v_expected := n\<rparr>\<rparr>"
    have wv: "window (c_virtue ?c) = window (c_virtue c)" by (simp add: window_def)
    have "turn_does token [] c (advance (i + 2) (if n = 0 then Idle else GraspingMarker) ?c) Continue"
    proof (rule advance_turn)
      show "buffer_wf (c_virtue ?c)" using wf by (simp add: virtue_wf_def buffer_wf_def)
      show "i + 2 \<le> length (window (c_virtue ?c))" unfolding wv w using l(3) by simp
      show "terms_wf (c_virtue (advance (i + 2) (if n = 0 then Idle else GraspingMarker) ?c))"
        using wf phase by (simp add: virtue_wf_def terms_wf_def)
      have "pending ?c = pending c" by (simp add: pending_def window_def)
      with l Inr phase pending_cons[OF w]
      show "requests (if n = 0 then Idle else GraspingMarker) (v_terms (c_virtue ?c)) (v_expected (c_virtue ?c))
          (drop (i + 2) (pending ?c)) = conn_requests c"
        by (simp add: conn_requests_def)
    qed simp_all
    with st Some Inr show ?thesis by auto
  qed
qed

lemma step_bulk_length:
  assumes wf: "virtue_wf (c_virtue c)" and phase: "v_phase (c_virtue c) = AwaitingBulkStringLength"
    and w: "window (c_virtue c) = b # w" and st: "parse_step token c (b # w) AwaitingBulkStringLength = (c', t)"
  shows "turn_does token [] c c' t \<and> t \<noteq> Crash"
proof (cases "find_crlf (b # w)")
  case None
  with st wf await_turn[OF wf refl refl refl] show ?thesis by simp
next
  case (Some i)
  note l = pending_line[of c i, unfolded w, OF Some]
  show ?thesis
  proof (cases "bytes_to_usize (take i (b # w))")
    case (Inl e)
    with st Some wf fall_turn show ?thesis by auto
  next
    case (Inr len)
    have "turn_does token [] c (advance (i + 2) (AwaitingBulkString len) c) Continue"
      using wf phase w l Inr pending_cons[OF w] bytes_to_usize_iff[of "take i (b # w)" len]
      by (intro advance_turn) (simp_all add: virtue_wf_def terms_wf_def conn_requests_def)
    with st Some Inr show ?thesis by auto
  qed
qed

lemma step_marker:
  assumes wf: "virtue_wf (c_virtue c)" and phase: "v_phase (c_virtue c) = GraspingMarker"
    and w: "window (c_virtue c) = b # w" and st: "parse_step token c (b # w) GraspingMarker = (c', t)"
  shows "turn_does token [] c c' t \<and> t \<noteq> Crash"
proof (cases "b = 36")
  case True
  have "turn_does token [] c (advance 1 AwaitingBulkStringLength c) Continue"
    using wf phase w True pending_cons[OF w]
    by (intro advance_turn) (simp_all add: virtue_wf_def terms_wf_def conn_requests_def)
  with st True show ?thesis by auto
next
  case False
  have b: "buffer_wf (c_virtue c)" "1 \<le> length (window (c_virtue c))" using wf w by (simp_all add: virtue_wf_def)
  have "virtue_wf (c_virtue (advance 1 GraspingMarker c))"
    using wf phase window_advance(2)[OF b] by (simp add: virtue_wf_def terms_wf_def)
  moreover have "conn_requests (advance 1 GraspingMarker c) = conn_requests c"
    using False phase pending_cons[OF w] unfolding conn_requests_advance[OF b] by (simp add: conn_requests_def)
  ultimately show ?thesis using False st by (intro await_turn) simp_all
qed

text \<open>
  A complete bulk string: its bytes become a term; the last one grants the request. Only a length
  within two of \<open>usize::MAX\<close> crashes.
\<close>

lemma step_bulk_wait:
  assumes wf: "virtue_wf (c_virtue c)" and w: "window (c_virtue c) = b # w"
    and short: "\<not> length (b # w) \<ge> usize_add len 2"
    and st: "parse_step token c (b # w) (AwaitingBulkString len) = (c', t)"
  shows "turn_does token [] c c' t \<and> t \<noteq> Crash"
  using st short by (intro await_turn[OF wf refl refl refl]) simp

lemma bulk_requests:
  assumes wf: "virtue_wf (c_virtue c)" and phase: "v_phase (c_virtue c) = AwaitingBulkString len"
    and len: "len + 2 \<le> length (window (c_virtue c))"
    and ends: "window (c_virtue c) ! len = 13" "window (c_virtue c) ! (len + 1) = 10"
  shows "conn_requests c =
    (let terms' = v_terms (c_virtue c) @ [take len (window (c_virtue c))]; rest = drop (len + 2) (pending c)
     in if length terms' = v_expected (c_virtue c) then terms' # requests Idle [] (v_expected (c_virtue c)) rest
        else requests GraspingMarker terms' (v_expected (c_virtue c)) rest)"
proof -
  obtain b w where w: "window (c_virtue c) = b # w" using len by (cases "window (c_virtue c)") auto
  have p: "take len (pending c) = take len (window (c_virtue c))" "pending c ! len = 13"
    "pending c ! (len + 1) = 10" "len + 2 \<le> length (pending c)"
    using len ends by (simp_all add: pending_def nth_append)
  then show ?thesis
    using phase pending_cons[OF w] by (simp add: conn_requests_def Let_def)
qed

lemma step_bulk:
  assumes wf: "virtue_wf (c_virtue c)" and phase: "v_phase (c_virtue c) = AwaitingBulkString len"
    and w: "window (c_virtue c) = b # w" and ok: "len + 2 < 2 ^ 64"
    and st: "parse_step token c (b # w) (AwaitingBulkString len) = (c', t)"
  shows "turn_does token (handed c) c c' t \<and> t \<noteq> Crash"
proof -
  let ?v = "c_virtue c"
  let ?ts = "v_terms ?v @ [take len (window ?v)]"
  have bw: "buffer_wf ?v" using wf by (simp add: virtue_wf_def)
  have add: "usize_add len 2 = len + 2" "usize_add len (Suc 0) = Suc len" using ok by (simp_all add: usize_add_def)
  show ?thesis
  proof (cases "len + 2 \<le> length (window ?v) \<and> window ?v ! len = 13 \<and> window ?v ! (len + 1) = 10")
    case False
    then have "handed c = []" by (auto simp: handed_def phase Let_def)
    with False st wf step_bulk_wait[OF wf w _ st] fall_turn[OF wf] show ?thesis
      unfolding w by (auto simp: add split: if_splits)
  next
    case complete: True
    note True = complete
    note reqs = bulk_requests[OF wf phase, of, OF conjunct1[OF True] conjunct1[OF conjunct2[OF True]]
        conjunct2[OF conjunct2[OF True]]]
    define c1 where "c1 = c\<lparr>c_virtue := ?v\<lparr>v_terms := ?ts\<rparr>\<rparr>"
    define c2 where "c2 = advance (len + 2) GraspingMarker c1"
    have w1: "window (c_virtue c1) = window ?v" "buffer_wf (c_virtue c1)" "pending c1 = pending c"
      "v_terms (c_virtue c1) = ?ts" "v_expected (c_virtue c1) = v_expected ?v"
      using bw by (simp_all add: c1_def window_def buffer_wf_def pending_def)
    have adv: "buffer_wf (c_virtue c2)" "pending c2 = drop (len + 2) (pending c)"
      using True window_advance[OF w1(2), of "len + 2" GraspingMarker] w1(1,3)
      by (simp_all add: c2_def pending_def)
    have st': "(c', t) = (if length ?ts = v_expected ?v then hand_over token c2 else (c2, Continue))"
      using st True w by (auto simp add: add Let_def c1_def c2_def)
    show ?thesis
    proof (cases "length ?ts = v_expected ?v")
      case False
      with wf phase have tw: "terms_wf (c_virtue c2)"
        by (auto simp: virtue_wf_def terms_wf_def c2_def w1)
      have "conn_requests c2 = conn_requests c"
        unfolding reqs conn_requests_def[of c2] using False adv(2) by (simp add: c2_def w1 Let_def)
      moreover have "handed c = []" using False by (auto simp: handed_def phase Let_def)
      ultimately show ?thesis using False st' adv(1) tw
        by (auto intro!: turn_does_same simp: virtue_wf_def c2_def c1_def)
    next
      case True
      obtain a' where a': "grant (c_clock c 0) ?ts token (c_altar c) = Some a'" using grant_some[of ?ts] by blast
      have c': "c' = c2\<lparr>c_virtue := (c_virtue c2)\<lparr>v_terms := [], v_phase := Idle\<rparr>, c_altar := a',
             c_clock := (\<lambda>i. c_clock c (Suc i))\<rparr>" "t = Continue"
        using st' True a' by (simp_all add: hand_over_def c2_def c1_def)
      have "virtue_wf (c_virtue c')"
        using adv(1) by (simp add: c' virtue_wf_def terms_wf_def buffer_wf_def)
      moreover have "grants token [?ts] c c'" using a' by (simp add: grants_def c')
      moreover have "pending c' = pending c2" by (simp add: pending_def c' window_def)
      then have "conn_requests c = ?ts # conn_requests c'"
        unfolding reqs conn_requests_def[of c'] using True adv(2) by (simp add: c' c2_def w1)
      moreover have "handed c = [?ts]" using complete True by (simp add: handed_def phase Let_def)
      ultimately show ?thesis unfolding turn_does_def using c'(2) by force
    qed
  qed
qed

subsection \<open>The loop\<close>

definition giant_length :: "conn \<Rightarrow> bool" where
  "giant_length c = (\<exists>len. v_phase (c_virtue c) = AwaitingBulkString len \<and> 2 ^ 64 \<le> len + 2)"

lemma step_giant:
  assumes "parse_step token c (b # w) (AwaitingBulkString len) = (c', t)" "2 ^ 64 \<le> len + 2" "len < 2 ^ 64"
    and "length (b # w) \<le> 67108864"
  shows "t = Crash \<and> c' = c"
proof -
  have "len = 2 ^ 64 - 1 \<or> len = 2 ^ 64 - 2" using assms(2,3) by auto
  then have "usize_add len 2 = 0 \<or> usize_add len 2 = 1" by (auto simp: usize_add_def)
  then have "usize_add len 2 \<le> length (b # w)" by auto
  moreover have "\<not> len < length (b # w)" using assms(2,4) by simp
  ultimately show ?thesis using assms(1) by auto
qed

lemma wish_step_does:
  assumes wf: "virtue_wf (c_virtue c)" and st: "wish_step token c = (c', t)"
  shows "if t = Crash then c' = c \<and> giant_length c \<and> handed c = [] else turn_does token (handed c) c c' t"
proof -
  let ?v = "c_virtue c"
  have bw: "buffer_wf ?v" using wf by (simp add: virtue_wf_def)
  have ok: "slice_ok (v_read ?v) (v_write ?v) (v_backlog ?v)" using bw by (simp add: buffer_wf_def slice_ok_def)
  show ?thesis
  proof (cases "window ?v")
    case Nil
    with st ok have "c' = c" "t = Return" by (auto simp: wish_step_def Let_def window_def split: if_splits)
    moreover have "handed c = []" using Nil by (simp add: handed_def Let_def split: phase.split)
    ultimately show ?thesis using wf by (auto intro: turn_does_same)
  next
    case (Cons b w)
    have ps: "parse_step token c (b # w) (v_phase ?v) = (c', t)"
      using st ok Cons by (simp add: wish_step_def Let_def window_def[symmetric])
    show ?thesis
    proof (cases "v_phase ?v")
      case (AwaitingBulkString len)
      show ?thesis
      proof (cases "len + 2 < 2 ^ 64")
        case True
        with step_bulk[OF wf AwaitingBulkString Cons True] ps AwaitingBulkString show ?thesis by auto
      next
        case False
        with step_giant[of token c b w len c' t] ps AwaitingBulkString wf window_small[OF bw] Cons show ?thesis
          by (auto simp: virtue_wf_def terms_wf_def giant_length_def handed_def Let_def)
      qed
    qed (use ps wf Cons step_idle step_term_count step_marker step_bulk_length in \<open>fastforce simp: handed_def\<close>)+
  qed
qed

lemma wish_step_ok:
  assumes "virtue_wf (c_virtue c)" "wish_step token c = (c', t)"
  shows "if t = Crash then c' = c \<and> giant_length c else turn_ok token c c' t"
  using wish_step_does[OF assms] by (auto intro: turn_okI)

lemma turn_ok_trans:
  assumes "turn_ok token a b Continue" "turn_ok token b c t"
  shows "turn_ok token a c t"
proof -
  obtain xs where x: "grants token xs a b" "conn_requests a = xs @ conn_requests b"
    using assms(1) by (auto simp: turn_ok_alt)
  obtain ys rest where y: "grants token ys b c" "conn_requests b = ys @ rest"
    "t = Continue \<or> t = Return \<longrightarrow> rest = conn_requests c" using assms(2) by (auto simp: turn_ok_alt)
  have "grants token (xs @ ys) a c" using x(1) y(1) by (rule grants_trans)
  moreover have "conn_requests a = (xs @ ys) @ rest" using x(2) y(2) by simp
  ultimately show ?thesis using assms(2) y(3) unfolding turn_ok_alt by blast
qed

lemma wish_loop_ok:
  "virtue_wf (c_virtue c) \<Longrightarrow> wish_loop token c = (c', t) \<Longrightarrow>
     if t = Crash then virtue_wf (c_virtue c') \<and> giant_length c' else turn_ok token c c' t \<and> t \<noteq> Continue"
proof (induction token c arbitrary: c' t rule: wish_loop.induct)
  case (1 token c)
  obtain c1 t1 where st: "wish_step token c = (c1, t1)" by fastforce
  note ok = wish_step_ok[OF "1.prems"(1) st]
  have run: "wish_loop token c = (if t1 = Continue then wish_loop token c1 else (c1, t1))"
    by (subst wish_loop.simps) (simp add: st split: turn.split)
  show ?case
  proof (cases "t1 = Continue")
    case True
    with ok have t: "turn_ok token c c1 Continue" by simp
    then have wf1: "virtue_wf (c_virtue c1)" by (simp add: turn_ok_alt)
    from "1.IH"[OF st[symmetric] True wf1] "1.prems"(2) run True t show ?thesis
      by (auto dest: turn_ok_trans split: if_splits)
  next
    case False
    with run "1.prems" ok show ?thesis by (auto split: if_splits)
  qed
qed

lemma wish_ok:
  assumes wf: "virtue_wf (c_virtue c)" and run: "wish token (Some (c_virtue c)) c = (c', t)"
  shows "if t = Crash then giant_length c' else turn_ok token c c' t \<and> t \<noteq> Continue"
proof -
  obtain c1 t1 where a: "await_bytes c = (c1, t1)" by fastforce
  have run: "(c', t) = (if t1 = Continue then wish_loop token c1 else (c1, t1))"
    using run by (cases t1) (auto simp add: wish_def Let_def a)
  have ok: "turn_ok token c c1 t1" "t1 \<noteq> Crash" using await_turn[OF wf refl refl refl a, of token] by (auto intro: turn_okI)
  show ?thesis
  proof (cases "t1 = Continue")
    case True
    have "virtue_wf (c_virtue c1)" using ok(1) by (simp add: turn_ok_alt)
    from wish_loop_ok[OF this, of token c' t] run True ok(1) show ?thesis
      by (auto dest: turn_ok_trans split: if_splits)
  next
    case False
    with run ok show ?thesis by simp
  qed
qed

subsection \<open>Well-formed requests\<close>

text \<open>A client's request: an array of bulk strings.\<close>

definition request_resp :: "bytes list \<Rightarrow> resp" where
  "request_resp terms = Array (map (Bulk \<circ> Some) terms)"

definition request_ok :: "bytes list \<Rightarrow> bool" where
  "request_ok terms \<longleftrightarrow> terms \<noteq> [] \<and> length terms < 2 ^ 64 \<and> (\<forall>t \<in> set terms. length t < 2 ^ 64)"

lemma requests_Idle_expected: "requests Idle ts n bs = requests Idle ts m bs"
proof (cases bs)
  case (Cons b r)
  then show ?thesis by (cases r) (auto split: option.split sum.split)
qed simp

context decimal_printer
begin

lemma length_line:
  assumes "n < 2 ^ 64"
  shows "requests AwaitingTermCount ts m (itoa (int n) @ crlf @ rest) =
      requests (if n = 0 then Idle else GraspingMarker) ts n rest"
    and "requests AwaitingBulkStringLength ts m (itoa (int n) @ crlf @ rest) =
      requests (AwaitingBulkString n) ts m rest"
proof -
  obtain b bs where c: "itoa (int n) @ crlf @ rest = b # bs" by (cases "itoa (int n) @ crlf @ rest") (auto simp: crlf_def)
  have f: "find_crlf (b # bs) = Some (length (itoa (int n)))" "take (length (itoa (int n))) (b # bs) = itoa (int n)"
    "drop (length (itoa (int n)) + 2) (b # bs) = rest"
    unfolding c[symmetric] using find_crlf_itoa[of "int n" rest] by (simp_all add: crlf_def)
  show "requests AwaitingTermCount ts m (itoa (int n) @ crlf @ rest) =
      requests (if n = 0 then Idle else GraspingMarker) ts n rest"
    "requests AwaitingBulkStringLength ts m (itoa (int n) @ crlf @ rest) =
      requests (AwaitingBulkString n) ts m rest"
    unfolding c using f parse_itoa_usize[OF assms] by (simp_all del: drop_Suc_Cons add: f)
qed

lemma bulk_term:
  assumes "length v < 2 ^ 64"
  shows "requests GraspingMarker ts n (encode itoa (Bulk (Some v)) @ rest) =
    (if length ts + 1 = n then (ts @ [v]) # requests Idle [] n rest else requests GraspingMarker (ts @ [v]) n rest)"
proof -
  have "requests (AwaitingBulkString (length v)) ts n (v @ crlf @ rest) =
      (if length ts + 1 = n then (ts @ [v]) # requests Idle [] n rest else requests GraspingMarker (ts @ [v]) n rest)"
  proof -
    obtain b bs where c: "v @ crlf @ rest = b # bs" by (cases "v @ crlf @ rest") (auto simp: crlf_def)
    have f: "\<not> length (b # bs) < length v + 2" "(b # bs) ! length v = 13" "(b # bs) ! (length v + 1) = 10"
      "take (length v) (b # bs) = v" "drop (length v + 2) (b # bs) = rest"
      unfolding c[symmetric] by (simp_all add: crlf_def nth_append)
    show ?thesis unfolding c requests.simps(6) by (simp only: f Let_def) simp
  qed
  then show ?thesis using length_line(2)[OF assms, of ts n "v @ crlf @ rest"] by simp
qed

lemma bulk_terms:
  assumes "vs \<noteq> []" "\<forall>v \<in> set vs. length v < 2 ^ 64" "n = length ts + length vs"
  shows "requests GraspingMarker ts n (concat (map (encode itoa \<circ> (Bulk \<circ> Some)) vs) @ rest) =
    (ts @ vs) # requests Idle [] n rest"
  using assms
proof (induction vs arbitrary: ts)
  case (Cons v vs)
  have "length v < 2 ^ 64" using Cons.prems(2) by simp
  note one = bulk_term[OF this, of ts n "concat (map (encode itoa \<circ> (Bulk \<circ> Some)) vs) @ rest"]
  show ?case
  proof (cases "vs = []")
    case True
    with one Cons.prems(3) show ?thesis by simp
  next
    case False
    with one Cons.prems Cons.IH[of "ts @ [v]"] show ?thesis by (simp add: comp_def)
  qed
qed simp

lemma request_granted:
  assumes "request_ok terms"
  shows "requests Idle [] m (encode itoa (request_resp terms) @ rest) = terms # requests Idle [] m rest"
proof -
  have enc: "encode itoa (request_resp terms) @ rest =
      42 # (itoa (int (length terms)) @ crlf @ (concat (map (encode itoa \<circ> (Bulk \<circ> Some)) terms) @ rest))"
    by (simp add: request_resp_def)
  have "length terms < 2 ^ 64" "terms \<noteq> []" using assms by (simp_all add: request_ok_def)
  then have "requests Idle [] m (encode itoa (request_resp terms) @ rest) =
      requests GraspingMarker [] (length terms) (concat (map (encode itoa \<circ> (Bulk \<circ> Some)) terms) @ rest)"
    unfolding enc using length_line(1)[of "length terms" "[]" m] by simp
  also have "... = terms # requests Idle [] (length terms) rest"
    using assms bulk_terms[of terms "length terms" "[]" rest] by (simp add: request_ok_def)
  finally show ?thesis using requests_Idle_expected by simp
qed

text \<open>A stream of well-formed requests contains exactly those requests.\<close>

lemma requests_roundtrip:
  "list_all request_ok rs \<Longrightarrow> requests Idle [] m (concat (map (encode itoa \<circ> request_resp) rs)) = rs"
  by (induction rs) (simp_all add: request_granted)

end

subsection \<open>A connection over many calls\<close>

text \<open>The I/O thread calls \<open>wish\<close> once per readiness event until it returns an error.\<close>

fun wish_calls :: "token \<Rightarrow> nat \<Rightarrow> conn \<Rightarrow> conn \<times> turn" where
  "wish_calls token 0 c = (c, Return)"
| "wish_calls token (Suc n) c =
     (case wish token (Some (c_virtue c)) c of
        (c', Return) \<Rightarrow> wish_calls token n c'
      | (c', turn) \<Rightarrow> (c', turn))"

lemma turn_ok_cont: "turn_ok token a b Return \<Longrightarrow> turn_ok token a b Continue"
  by (simp add: turn_ok_alt)

lemma turn_ok_refl: "virtue_wf (c_virtue c) \<Longrightarrow> turn_ok token c c t"
  by (rule turn_ok_same) simp_all

lemma wish_calls_ok:
  "virtue_wf (c_virtue c) \<Longrightarrow> wish_calls token n c = (c', t) \<Longrightarrow>
     if t = Crash then giant_length c' else turn_ok token c c' t"
proof (induction n arbitrary: c)
  case 0
  then show ?case by (simp add: turn_ok_refl)
next
  case (Suc n)
  obtain c1 t1 where w: "wish token (Some (c_virtue c)) c = (c1, t1)" by fastforce
  note ok = wish_ok[OF Suc.prems(1) w]
  show ?case
  proof (cases "t1 = Return")
    case True
    with ok have c1: "turn_ok token c c1 Continue" by (auto intro: turn_ok_cont)
    then have "virtue_wf (c_virtue c1)" by (simp add: turn_ok_alt)
    from Suc.IH[OF this] Suc.prems(2) w True c1 show ?thesis by (auto dest: turn_ok_trans split: if_splits)
  next
    case False
    with w Suc.prems(2) have "c' = c1" "t = t1" by (cases t1; simp)+
    with ok show ?thesis by (auto split: if_splits)
  qed
qed

text \<open>A new connection, with everything the client will ever send.\<close>

definition new_conn :: "read_result list \<Rightarrow> altar \<Rightarrow> (nat \<Rightarrow> system_time) \<Rightarrow> conn" where
  "new_conn rs a clock = \<lparr>c_virtue = virtue_new, c_reads = rs, c_altar = a, c_clock = clock\<rparr>"

lemma new_conn_requests: "conn_requests (new_conn rs a clock) = requests Idle [] 0 (stream_bytes rs)"
  by (simp add: conn_requests_def new_conn_def virtue_new_def pending_def window_def)

lemma session_grants:
  assumes printer: "decimal_printer itoa" and reqs: "list_all request_ok reqs"
    and bytes: "stream_bytes rs = concat (map (encode itoa \<circ> request_resp) reqs)"
    and run: "wish_calls token n (new_conn rs a clock) = (c', t)" and ok: "t \<noteq> Crash"
  shows "\<exists>done rest. reqs = done @ rest \<and>
    grant_all token done (a, clock) = Some (c_altar c', c_clock c') \<and>
    (t = Return \<longrightarrow> rest = conn_requests c')"
proof -
  have "virtue_wf (c_virtue (new_conn rs a clock))" by (simp add: new_conn_def virtue_new_wf)
  from wish_calls_ok[OF this run] ok have t: "turn_ok token (new_conn rs a clock) c' t" by simp
  moreover have "conn_requests (new_conn rs a clock) = reqs"
    using decimal_printer.requests_roundtrip[OF printer reqs] by (simp add: new_conn_requests bytes)
  ultimately show ?thesis by (auto simp: turn_ok_alt grants_def new_conn_def)
qed

end
