(* ===== verification/IngressProgress.thy ===== *)
theory IngressProgress
  imports IngressSpec
begin

section \<open>Complete requests do not wait\<close>

text \<open>
  The equivalence of \<open>IngressSpec\<close> says that what is granted is right; this theory shows that
  everything complete is granted. A connection is \<open>tidy\<close> for a list of requests when the bytes it has
  yet to parse are exactly what is left of them in the phase it is in. A turn on a tidy connection
  leaves it tidy and goes on, or stops with bytes still in the socket; so once the socket is read
  out no request is left. The bound on the size of a request keeps the buffer below its limit.
\<close>

subsection \<open>Reads that bring bytes\<close>

text \<open>The peer neither closes the connection nor breaks it; \<open>Chunk []\<close> is the end of the stream.\<close>

definition open_reads :: "read_result list \<Rightarrow> bool" where
  "open_reads rs = list_all (\<lambda>r. case r of Chunk bs \<Rightarrow> bs \<noteq> [] | WouldBlock \<Rightarrow> True | Failed \<Rightarrow> False) rs"

definition size_limit :: nat where
  "size_limit = 33553408"

lemma make_room_small:
  assumes "buffer_wf v" "length (window v) \<le> size_limit"
  shows "\<exists>v'. make_room v = Some (v', Inr ())"
proof -
  obtain v1 where c: "compact v = Some v1" "buffer_wf v1" "window v1 = window v" using compact_wf[OF assms(1)] by blast
  have "v_read v1 = 0" using c(1) by (auto simp: compact_def Let_def split: if_splits)
  then have "v_write v1 = length (window v)" using length_window[OF c(2)] c(3) by simp
  then have "length (v_backlog v1) * 2 \<le> 67108864" if "crowded v1"
    using that assms(2) c(2) by (simp add: crowded_def usize_sub_le buffer_wf_def size_limit_def)
  moreover have "length (v_backlog v1) * 2 mod 2 ^ 64 \<le> length (v_backlog v1) * 2" by (rule mod_less_eq_dividend)
  ultimately have "length (v_backlog v1) * 2 mod 2 ^ 64 \<le> 64 * 1024 * 1024" if "crowded v1"
    using that by simp
  then show ?thesis unfolding make_room_def using c(1) by (auto simp: Let_def)
qed

lemma make_room_refuses:
  assumes "buffer_wf v" "make_room v = Some (v', Inl e)"
  shows "32 * 1024 * 1024 < length (v_backlog v) \<and> length (v_backlog v) - 1024 < length (window v)"
proof -
  obtain v1 where c: "compact v = Some v1" "buffer_wf v1" "window v1 = window v" using compact_wf[OF assms(1)] by blast
  have v1: "v_read v1 = 0" "length (v_backlog v1) = length (v_backlog v)"
    using c(1) assms(1) by (auto simp: compact_def Let_def copy_within_def buffer_wf_def slice_ok_def split: if_splits)
  then have "v_write v1 = length (window v)" using length_window[OF c(2)] c(3) by simp
  moreover from assms(2) c(1) have "crowded v1" "64 * 1024 * 1024 < length (v_backlog v1) * 2 mod 2 ^ 64"
    by (auto simp: make_room_def Let_def split: if_splits)
  ultimately show ?thesis using c(2) v1 by (simp add: crowded_def usize_sub_le buffer_wf_def)
qed

lemma socket_read_open:
  assumes "open_reads rs" "0 < space" "socket_read rs space = (r, rs')"
  shows "open_reads rs' \<and> (r = WouldBlock \<or> (\<exists>bs. r = Chunk bs \<and> bs \<noteq> [])) \<and>
    reads_size rs' \<le> reads_size rs - 1 \<and> (r = WouldBlock \<longrightarrow> stream_bytes rs' = stream_bytes rs)"
proof (cases rs)
  case Nil
  with assms show ?thesis by (auto simp: reads_size_def)
next
  case (Cons a rest)
  show ?thesis
  proof (cases a)
    case (Chunk bs)
    with Cons assms have "bs \<noteq> []" "open_reads rest" by (simp_all add: open_reads_def)
    moreover have "open_reads rs'" "r = Chunk (take space bs)"
      "rs' = (if length bs \<le> space then rest else Chunk (drop space bs) # rest)"
      using Cons Chunk assms calculation by (auto simp: open_reads_def split: if_splits)
    ultimately show ?thesis using Cons Chunk assms(2) by (auto simp: reads_size_def)
  qed (use Cons assms in \<open>auto simp: open_reads_def reads_size_def stream_bytes_def\<close>)
qed

text \<open>A read on an open connection succeeds and uses up something of the socket, if there is anything.\<close>

lemma await_progress:
  assumes "virtue_wf (c_virtue c)" "length (window (c_virtue c)) \<le> size_limit" "open_reads (c_reads c)"
    and "await_bytes c = (c', t)"
  shows "(t = Continue \<or> t = Return) \<and> open_reads (c_reads c') \<and> reads_size (c_reads c') \<le> reads_size (c_reads c) - 1 \<and>
    v_phase (c_virtue c') = v_phase (c_virtue c) \<and> v_terms (c_virtue c') = v_terms (c_virtue c) \<and>
    v_expected (c_virtue c') = v_expected (c_virtue c) \<and> pending c' = pending c \<and>
    (t = Return \<longrightarrow> stream_bytes (c_reads c') = stream_bytes (c_reads c))"
proof -
  have bw: "buffer_wf (c_virtue c)" using assms(1) by (simp add: virtue_wf_def)
  obtain v where m: "make_room (c_virtue c) = Some (v, Inr ())" using make_room_small[OF bw assms(2)] by blast
  from make_room_wf[OF bw] m have room: "buffer_wf v" "v_write v + 1024 \<le> length (v_backlog v)" by auto
  obtain r rs where s: "socket_read (c_reads c) (length (v_backlog v) - v_write v) = (r, rs)" by fastforce
  have "0 < length (v_backlog v) - v_write v" using room(2) by simp
  note o = socket_read_open[OF assms(3) this s]
  obtain v' rs' b where p: "potentially_resize_and_read (c_virtue c) (c_reads c) = Some (v', rs', b)"
    "v_terms v' = v_terms (c_virtue c)" "v_expected v' = v_expected (c_virtue c)" "v_phase v' = v_phase (c_virtue c)"
    "window v' @ stream_bytes rs' = window (c_virtue c) @ stream_bytes (c_reads c)"
    using read_wf[OF bw, of "c_reads c"] by blast
  have fits: "\<not> length (v_backlog v) < v_write v" using room(2) by simp
  from o consider "r = WouldBlock" | bs where "r = Chunk bs" "bs \<noteq> []" by blast
  then have "rs' = rs \<and> ((b = Inr True \<and> r = WouldBlock) \<or> b = Inr False)"
    by cases (use p(1) m s fits in \<open>simp_all add: potentially_resize_and_read_def\<close>)
  then consider "rs' = rs" "b = Inr True" "r = WouldBlock" | "rs' = rs" "b = Inr False" by blast
  then show ?thesis
    by cases (use p o assms(4) in \<open>simp_all add: await_bytes_def pending_def, auto\<close>)
qed

subsection \<open>How many turns a call takes\<close>

text \<open>\<open>wish_turns\<close> is the loop with a bound on its turns; \<open>None\<close> is running out of them.\<close>

fun wish_turns :: "nat \<Rightarrow> token \<Rightarrow> conn \<Rightarrow> (conn \<times> turn) option" where
  "wish_turns 0 token c = None"
| "wish_turns (Suc n) token c =
     (case wish_step token c of
        (c', Continue) \<Rightarrow> wish_turns n token c'
      | (c', turn) \<Rightarrow> Some (c', turn))"

definition work :: "conn \<Rightarrow> nat" where
  "work c = 3 * reads_size (c_reads c) + 2 * unread c + bulk_rank c"

lemma reads_size_bytes: "reads_size rs = length (stream_bytes rs) + length rs"
  by (induction rs) (auto simp: reads_size_def stream_bytes_def split: read_result.splits)

lemma unread_window: "buffer_wf (c_virtue c) \<Longrightarrow> unread c = length (window (c_virtue c))"
  by (simp add: unread_def length_window)

lemma read_shortens: "potentially_resize_and_read v rs = Some (v', rs', r) \<Longrightarrow> length rs' \<le> length rs"
proof -
  have "socket_read rs space = (x, rs') \<Longrightarrow> length rs' \<le> length rs" for space x
    by (induction rs space rule: socket_read.induct) (auto split: if_splits)
  then show "potentially_resize_and_read v rs = Some (v', rs', r) \<Longrightarrow> length rs' \<le> length rs"
    by (auto simp: potentially_resize_and_read_def split: option.splits prod.splits sum.splits read_result.splits if_splits)
qed

lemma await_work:
  assumes "virtue_wf (c_virtue c)" "await_bytes c = (c', Continue)"
  shows "work c' < work c"
proof -
  have bw: "buffer_wf (c_virtue c)" using assms(1) by (simp add: virtue_wf_def)
  obtain v rs r where r: "potentially_resize_and_read (c_virtue c) (c_reads c) = Some (v, rs, r)" "buffer_wf v"
    "v_phase v = v_phase (c_virtue c)" "window v @ stream_bytes rs = window (c_virtue c) @ stream_bytes (c_reads c)"
    using read_wf[OF bw, of "c_reads c"] by blast
  then have c': "c' = c\<lparr>c_virtue := v, c_reads := rs\<rparr>" "r = Inr False"
    using assms(2) by (auto simp: await_bytes_def split: sum.splits bool.splits)
  have "reads_size rs < reads_size (c_reads c)" using read_size r(1) c'(2) by blast
  moreover have "length (window v) + length (stream_bytes rs) = length (window (c_virtue c)) + length (stream_bytes (c_reads c))"
    using arg_cong[OF r(4), of length] by simp
  moreover have "length rs \<le> length (c_reads c)" using read_shortens r(1) by blast
  ultimately show ?thesis
    using r(2,3) bw by (simp add: work_def unread_window c'(1) bulk_rank_def reads_size_bytes)
qed

lemma advance_work: "0 < unread c \<Longrightarrow> 0 < n \<Longrightarrow> work (advance n p c) < work c"
  by (auto simp: work_def unread_def bulk_rank_def split: phase.split)

lemma hand_over_work: "hand_over token c = (c', Continue) \<Longrightarrow> work c' \<le> work c"
  using hand_over_size[of token c c'] by (simp add: work_def)

lemma work_fields:
  "work (c\<lparr>c_virtue := (c_virtue c)\<lparr>v_expected := n\<rparr>\<rparr>) = work c" "work (c\<lparr>c_virtue := (c_virtue c)\<lparr>v_terms := ts\<rparr>\<rparr>) = work c"
  "unread (c\<lparr>c_virtue := (c_virtue c)\<lparr>v_expected := n\<rparr>\<rparr>) = unread c"
  "unread (c\<lparr>c_virtue := (c_virtue c)\<lparr>v_terms := ts\<rparr>\<rparr>) = unread c"
  by (simp_all add: work_def unread_def bulk_rank_def)

lemma wish_step_work:
  assumes wf: "virtue_wf (c_virtue c)" and st: "wish_step token c = (c', Continue)"
  shows "work c' < work c"
proof -
  let ?v = "c_virtue c"
  have bw: "buffer_wf ?v" using wf by (simp add: virtue_wf_def)
  then have ok: "slice_ok (v_read ?v) (v_write ?v) (v_backlog ?v)" by (simp add: buffer_wf_def slice_ok_def)
  with st have w: "window ?v \<noteq> []" and ps: "parse_step token c (window ?v) (v_phase ?v) = (c', Continue)"
    by (auto simp: wish_step_def Let_def window_def[symmetric] split: if_splits)
  have u: "0 < unread c" using w unread_window[OF bw] by simp
  note adv = advance_work[of c, OF u] advance_work[of "c\<lparr>c_virtue := (c_virtue c)\<lparr>v_expected := n\<rparr>\<rparr>" for n, simplified work_fields, OF u]
    advance_work[of "c\<lparr>c_virtue := (c_virtue c)\<lparr>v_terms := ts\<rparr>\<rparr>" for ts, simplified work_fields, OF u]
  show ?thesis
  proof (cases "v_phase ?v")
    case GraspingMarker
    let ?a = "advance 1 GraspingMarker c"
    have "1 \<le> length (window ?v)" using w by (cases "window ?v") auto
    then have "virtue_wf (c_virtue ?a)"
      using wf GraspingMarker window_advance(2)[OF bw, of 1 GraspingMarker] by (simp add: virtue_wf_def terms_wf_def)
    with GraspingMarker ps adv(1)[of 1] await_work[of ?a c'] show ?thesis
      by (auto split: if_splits intro: order.strict_trans)
  next
    case (AwaitingBulkString len)
    show ?thesis
    proof (cases "length (window ?v) \<ge> usize_add len 2")
      case False
      with ps AwaitingBulkString await_work[OF wf] show ?thesis by simp
    next
      case True
      let ?a = "advance (usize_add len 2) GraspingMarker
        (c\<lparr>c_virtue := (c_virtue c)\<lparr>v_terms := v_terms (c_virtue c) @ [take len (window ?v)]\<rparr>\<rparr>)"
      from True ps AwaitingBulkString have fits: "len < length (window ?v)" and
        turn: "hand_over token ?a = (c', Continue) \<or> c' = ?a"
        by (simp_all add: Let_def split: if_splits)
      from bulk_bounds(1)[OF bw True fits] have "0 < usize_add len 2" by simp
      from adv(3)[OF this] have "work ?a < work c" .
      from turn show ?thesis
      proof
        assume "hand_over token ?a = (c', Continue)"
        from hand_over_work[OF this] \<open>work ?a < work c\<close> show ?thesis by (rule order.strict_trans1)
      next
        assume "c' = ?a"
        with \<open>work ?a < work c\<close> show ?thesis by (simp only:)
      qed
    qed
  qed (use ps adv(1,2) await_work[OF wf] in \<open>auto simp: Let_def split: if_splits option.splits sum.splits\<close>)
qed

text \<open>So a call is over after at most \<open>work\<close> turns and one more.\<close>

lemma wish_loop_turns:
  "virtue_wf (c_virtue c) \<Longrightarrow> work c < n \<Longrightarrow> wish_turns n token c = Some (wish_loop token c)"
proof (induction n arbitrary: c)
  case (Suc n)
  obtain c1 t1 where st: "wish_step token c = (c1, t1)" by fastforce
  show ?case
  proof (cases "t1 = Continue")
    case True
    have "virtue_wf (c_virtue c1)" using wish_step_ok[OF Suc.prems(1) st] True by (simp add: turn_ok_alt)
    moreover have "work c1 < n" using wish_step_work[OF Suc.prems(1)] st True Suc.prems(2) by fastforce
    ultimately show ?thesis using Suc.IH st True by (subst wish_loop.simps) simp
  next
    case False
    then show ?thesis using st by (subst wish_loop.simps) (simp split: turn.split)
  qed
qed simp

subsection \<open>Tidy connections\<close>

lemma pending_advance:
  assumes "buffer_wf (c_virtue c)" "n \<le> length (window (c_virtue c))"
  shows "pending (advance n p c) = drop n (pending c)"
  using assms by (simp add: pending_def window_advance)

text \<open>A line of which not all bytes have arrived is short.\<close>

lemma line_stalls:
  assumes "find_crlf w = None" "w @ rest = line @ crlf @ after" "find_crlf (line @ crlf) = Some (length line)"
  shows "length w < length line + 2 \<and> rest \<noteq> []"
proof -
  have "\<not> length line + 2 \<le> length w"
  proof
    assume "length line + 2 \<le> length w"
    then have "take (length line + 2) w = line @ crlf"
      using arg_cong[OF assms(2), of "take (length line + 2)"] by simp
    then have "w = (line @ crlf) @ drop (length line + 2) w" by (metis append_take_drop_id)
    with assms(1) find_crlf_extend[OF assms(3), of "drop (length line + 2) w"] show False by simp
  qed
  moreover from this have "length w < length (w @ rest)" unfolding assms(2) by simp
  ultimately show ?thesis by auto
qed

text \<open>What is left of the requests in each phase: the head of \<open>reqs\<close> is the one being parsed.\<close>

abbreviation bulks :: "(int \<Rightarrow> bytes) \<Rightarrow> bytes list \<Rightarrow> bytes" where
  "bulks itoa vs \<equiv> concat (map (encode itoa \<circ> (Bulk \<circ> Some)) vs)"

abbreviation stream_of :: "(int \<Rightarrow> bytes) \<Rightarrow> bytes list list \<Rightarrow> bytes" where
  "stream_of itoa reqs \<equiv> concat (map (encode itoa \<circ> request_resp) reqs)"

fun tidy :: "(int \<Rightarrow> bytes) \<Rightarrow> phase \<Rightarrow> bytes list \<Rightarrow> nat \<Rightarrow> bytes list list \<Rightarrow> bytes \<Rightarrow> bool" where
  "tidy itoa Idle terms n reqs bs \<longleftrightarrow> terms = [] \<and> bs = stream_of itoa reqs"
| "tidy itoa AwaitingTermCount terms n reqs bs \<longleftrightarrow> terms = [] \<and>
     (\<exists>r rest. reqs = r # rest \<and> bs = itoa (int (length r)) @ crlf @ bulks itoa r @ stream_of itoa rest)"
| "tidy itoa GraspingMarker terms n reqs bs \<longleftrightarrow>
     (\<exists>x xs rest. reqs = (terms @ x # xs) # rest \<and> n = length (terms @ x # xs) \<and>
        bs = bulks itoa (x # xs) @ stream_of itoa rest)"
| "tidy itoa AwaitingBulkStringLength terms n reqs bs \<longleftrightarrow>
     (\<exists>x xs rest. reqs = (terms @ x # xs) # rest \<and> n = length (terms @ x # xs) \<and>
        bs = itoa (int (length x)) @ crlf @ x @ crlf @ bulks itoa xs @ stream_of itoa rest)"
| "tidy itoa (AwaitingBulkString len) terms n reqs bs \<longleftrightarrow>
     (\<exists>x xs rest. reqs = (terms @ x # xs) # rest \<and> n = length (terms @ x # xs) \<and> len = length x \<and>
        bs = x @ crlf @ bulks itoa xs @ stream_of itoa rest)"

definition request_fits :: "(int \<Rightarrow> bytes) \<Rightarrow> bytes list \<Rightarrow> bool" where
  "request_fits itoa r \<longleftrightarrow> r \<noteq> [] \<and> length (encode itoa (request_resp r)) \<le> size_limit"

definition conn_tidy :: "(int \<Rightarrow> bytes) \<Rightarrow> conn \<Rightarrow> bytes list list \<Rightarrow> bool" where
  "conn_tidy itoa c reqs \<longleftrightarrow> virtue_wf (c_virtue c) \<and> list_all (request_fits itoa) reqs \<and> open_reads (c_reads c) \<and>
     tidy itoa (v_phase (c_virtue c)) (v_terms (c_virtue c)) (v_expected (c_virtue c)) reqs (pending c)"

lemma tidy_nothing: "tidy itoa p ts n reqs [] \<Longrightarrow> reqs = []"
proof (cases p)
  case Idle
  assume "tidy itoa p ts n reqs []"
  with Idle show ?thesis by (cases reqs) (auto simp: request_resp_def)
qed (auto simp: crlf_def)

lemma tidy_done: "tidy itoa p ts n [] bs \<Longrightarrow> p = Idle \<and> ts = [] \<and> bs = []"
  by (cases p) auto

text \<open>What a turn leaves behind: more to do, or a wait for bytes the socket still holds.\<close>

definition progresses :: "(int \<Rightarrow> bytes) \<Rightarrow> conn \<Rightarrow> conn \<Rightarrow> turn \<Rightarrow> bool" where
  "progresses itoa c c' t \<longleftrightarrow> (\<exists>reqs. conn_tidy itoa c' reqs \<and> reads_size (c_reads c') \<le> reads_size (c_reads c) \<and>
     (t = Continue \<or> t = Return \<and> length (window (c_virtue c')) \<le> size_limit \<and>
        (stream_bytes (c_reads c') \<noteq> [] \<or> reqs = [])))"

lemma progresses_later:
  "progresses itoa c1 c' t \<Longrightarrow> reads_size (c_reads c1) \<le> reads_size (c_reads c) \<Longrightarrow> progresses itoa c c' t"
  unfolding progresses_def by (blast intro: order.trans)

lemma stall_progresses:
  assumes "conn_tidy itoa c reqs" "length (window (c_virtue c)) \<le> size_limit" "stream_bytes (c_reads c) \<noteq> []"
    and "await_bytes c = (c', t)"
  shows "progresses itoa c c' t"
proof -
  have wf: "virtue_wf (c_virtue c)" "open_reads (c_reads c)" using assms(1) by (simp_all add: conn_tidy_def)
  note a = await_progress[OF wf(1) assms(2) wf(2) assms(4)]
  have "virtue_wf (c_virtue c')" using await_ok[OF wf(1)] assms(4) by auto
  with a assms(1) have "conn_tidy itoa c' reqs" by (simp add: conn_tidy_def)
  moreover have "t = Return \<Longrightarrow> window (c_virtue c') = window (c_virtue c)"
    using a by (metis append_same_eq pending_def)
  ultimately show ?thesis using a assms(2,3) unfolding progresses_def by (intro exI[of _ reqs]) auto
qed

lemma advance_progresses:
  assumes "virtue_wf (c_virtue (advance n p c))" "list_all (request_fits itoa) reqs" "open_reads (c_reads c)"
    and "buffer_wf (c_virtue c)" "n \<le> length (window (c_virtue c))" "c_reads c = c_reads c0"
    and "tidy itoa p (v_terms (c_virtue c)) (v_expected (c_virtue c)) reqs (drop n (pending c))"
  shows "progresses itoa c0 (advance n p c) Continue"
  using assms pending_advance[OF assms(4,5), of p] unfolding progresses_def
  by (intro exI[of _ reqs]) (simp add: conn_tidy_def)

subsection \<open>One turn\<close>

context decimal_printer
begin

lemma request_fits_parts:
  assumes "request_fits itoa r"
  shows "length (itoa (int (length r))) + 2 \<le> size_limit" "length r < 2 ^ 64"
    and "x \<in> set r \<Longrightarrow> length (itoa (int (length x))) + 2 \<le> size_limit \<and> length x + 2 \<le> size_limit"
proof -
  have enc: "length (itoa (int (length r))) + 2 + length (bulks itoa r) \<le> size_limit"
    using assms by (simp add: request_fits_def request_resp_def)
  then show "length (itoa (int (length r))) + 2 \<le> size_limit" by simp
  have "length vs \<le> length (bulks itoa vs)" for vs by (induction vs) simp_all
  from this[of r] enc show "length r < 2 ^ 64" by (simp add: size_limit_def)
  have "x \<in> set vs \<Longrightarrow> length (itoa (int (length x))) + length x + 4 \<le> length (bulks itoa vs)" for vs
    by (induction vs) auto
  from this[of r] enc show "x \<in> set r \<Longrightarrow> length (itoa (int (length x))) + 2 \<le> size_limit \<and> length x + 2 \<le> size_limit"
    by linarith
qed

lemma fits_request_ok: "request_fits itoa r \<Longrightarrow> request_ok r"
  using request_fits_parts(2,3)[of r] by (fastforce simp: request_ok_def request_fits_def size_limit_def)

text \<open>A length line in front of the pending bytes is parsed, or has not arrived completely.\<close>

lemma count_line:
  assumes "pending c = itoa (int n) @ crlf @ after" "n < 2 ^ 64" "window (c_virtue c) = b # w"
  shows "find_crlf (b # w) = None \<Longrightarrow> length (b # w) < length (itoa (int n)) + 2 \<and> stream_bytes (c_reads c) \<noteq> []"
    and "find_crlf (b # w) = Some i \<Longrightarrow>
      bytes_to_usize (take i (b # w)) = Inr n \<and> i + 2 \<le> length (b # w) \<and> drop (i + 2) (pending c) = after"
proof -
  have f: "find_crlf (itoa (int n) @ crlf) = Some (length (itoa (int n)))"
    using find_crlf_itoa[of "int n" "[]"] by (simp add: crlf_def)
  assume none: "find_crlf (b # w) = None"
  have "(b # w) @ stream_bytes (c_reads c) = itoa (int n) @ crlf @ after" using assms(1,3) by (simp add: pending_def)
  from line_stalls[OF none this f] show "length (b # w) < length (itoa (int n)) + 2 \<and> stream_bytes (c_reads c) \<noteq> []" .
next
  assume some: "find_crlf (b # w) = Some i"
  note l = pending_line[of c i, unfolded assms(3), OF some]
  have "i = length (itoa (int n))" using l(1) find_crlf_itoa[of "int n" after] by (simp add: assms(1) crlf_def)
  with l(2,3) assms(1) parse_itoa_usize[OF assms(2)]
  show "bytes_to_usize (take i (b # w)) = Inr n \<and> i + 2 \<le> length (b # w) \<and> drop (i + 2) (pending c) = after"
    by simp
qed

lemma progress_idle:
  assumes "conn_tidy itoa c reqs" "v_phase (c_virtue c) = Idle" "window (c_virtue c) = b # w"
    and "parse_step token c (b # w) Idle = (c', t)"
  shows "progresses itoa c c' t"
proof -
  have wf: "virtue_wf (c_virtue c)" and t: "v_terms (c_virtue c) = []" "pending c = stream_of itoa reqs"
    using assms(1,2) by (simp_all add: conn_tidy_def)
  have "reqs \<noteq> []" using t(2) pending_cons[OF assms(3)] by auto
  then obtain r rest where r: "reqs = r # rest" by (cases reqs) auto
  have b: "b = 42" using t(2) pending_cons[OF assms(3)] r by (simp add: request_resp_def)
  have "progresses itoa c (advance 1 AwaitingTermCount c) Continue"
  proof (rule advance_progresses[where reqs = reqs])
    show "virtue_wf (c_virtue (advance 1 AwaitingTermCount c))"
      using wf t(1) assms(3) window_advance(2)[of "c_virtue c" 1 AwaitingTermCount] by (simp add: virtue_wf_def terms_wf_def)
    show "tidy itoa AwaitingTermCount (v_terms (c_virtue c)) (v_expected (c_virtue c)) reqs (drop 1 (pending c))"
      using t r by (simp add: request_resp_def)
  qed (use assms wf in \<open>simp_all add: conn_tidy_def virtue_wf_def\<close>)
  with assms(4) b show ?thesis by simp
qed

lemma progress_term_count:
  assumes "conn_tidy itoa c reqs" "v_phase (c_virtue c) = AwaitingTermCount" "window (c_virtue c) = b # w"
    and "parse_step token c (b # w) AwaitingTermCount = (c', t)"
  shows "progresses itoa c c' t"
proof -
  have wf: "virtue_wf (c_virtue c)" and ts: "v_terms (c_virtue c) = []" using assms(1,2) by (simp_all add: conn_tidy_def)
  obtain r rest where r: "reqs = r # rest" "request_fits itoa r"
    "pending c = itoa (int (length r)) @ crlf @ bulks itoa r @ stream_of itoa rest"
    using assms(1,2) by (auto simp: conn_tidy_def)
  note len = request_fits_parts(1,2)[OF r(2)] and line = count_line[OF r(3) request_fits_parts(2)[OF r(2)] assms(3)]
  have "r \<noteq> []" using r(2) by (simp add: request_fits_def)
  then obtain x xs where xs: "r = x # xs" by (cases r) auto
  show ?thesis
  proof (cases "find_crlf (b # w)")
    case None
    with line(1) len(1) assms(3,4) show ?thesis by (intro stall_progresses[OF assms(1)]) simp_all
  next
    case (Some i)
    let ?c = "c\<lparr>c_virtue := (c_virtue c)\<lparr>v_expected := length r\<rparr>\<rparr>"
    note l = line(2)[OF Some]
    have win: "window (c_virtue ?c) = b # w" "pending ?c = pending c" using assms(3) by (simp_all add: window_def pending_def)
    have bw: "buffer_wf (c_virtue ?c)" using wf by (simp add: virtue_wf_def buffer_wf_def)
    have "progresses itoa c (advance (i + 2) GraspingMarker ?c) Continue"
    proof (rule advance_progresses[where reqs = reqs])
      show "virtue_wf (c_virtue (advance (i + 2) GraspingMarker ?c))"
        using window_advance(2)[OF bw, of "i + 2" GraspingMarker] l win ts \<open>r \<noteq> []\<close> by (simp add: virtue_wf_def terms_wf_def)
      show "tidy itoa GraspingMarker (v_terms (c_virtue ?c)) (v_expected (c_virtue ?c)) reqs (drop (i + 2) (pending ?c))"
        using l ts r(1) xs win(2) by (simp add: comp_def)
    qed (use assms(1) bw l win in \<open>simp_all add: conn_tidy_def\<close>)
    with Some l assms(4) \<open>r \<noteq> []\<close> show ?thesis by (simp add: Let_def)
  qed
qed

lemma progress_marker:
  assumes "conn_tidy itoa c reqs" "v_phase (c_virtue c) = GraspingMarker" "window (c_virtue c) = b # w"
    and "parse_step token c (b # w) GraspingMarker = (c', t)"
  shows "progresses itoa c c' t"
proof -
  have wf: "virtue_wf (c_virtue c)" using assms(1) by (simp add: conn_tidy_def)
  obtain x xs rest where r: "reqs = (v_terms (c_virtue c) @ x # xs) # rest"
    "v_expected (c_virtue c) = length (v_terms (c_virtue c) @ x # xs)"
    "pending c = bulks itoa (x # xs) @ stream_of itoa rest"
    using assms(1,2) by (auto simp: conn_tidy_def)
  have b: "b = 36" using r(3) pending_cons[OF assms(3)] by simp
  have "progresses itoa c (advance 1 AwaitingBulkStringLength c) Continue"
  proof (rule advance_progresses[where reqs = reqs])
    show "virtue_wf (c_virtue (advance 1 AwaitingBulkStringLength c))"
      using wf r(2) assms(3) window_advance(2)[of "c_virtue c" 1 AwaitingBulkStringLength] by (simp add: virtue_wf_def terms_wf_def)
    show "tidy itoa AwaitingBulkStringLength (v_terms (c_virtue c)) (v_expected (c_virtue c)) reqs (drop 1 (pending c))"
      using r by simp
  qed (use assms wf in \<open>simp_all add: conn_tidy_def virtue_wf_def\<close>)
  with assms(4) b show ?thesis by simp
qed

lemma progress_bulk_length:
  assumes "conn_tidy itoa c reqs" "v_phase (c_virtue c) = AwaitingBulkStringLength" "window (c_virtue c) = b # w"
    and "parse_step token c (b # w) AwaitingBulkStringLength = (c', t)"
  shows "progresses itoa c c' t"
proof -
  have wf: "virtue_wf (c_virtue c)" using assms(1) by (simp add: conn_tidy_def)
  obtain x xs rest where r: "reqs = (v_terms (c_virtue c) @ x # xs) # rest"
    "v_expected (c_virtue c) = length (v_terms (c_virtue c) @ x # xs)"
    "pending c = itoa (int (length x)) @ crlf @ x @ crlf @ bulks itoa xs @ stream_of itoa rest"
    using assms(1,2) by (auto simp: conn_tidy_def)
  have "request_fits itoa (v_terms (c_virtue c) @ x # xs)" using assms(1) r(1) by (simp add: conn_tidy_def)
  from request_fits_parts(3)[OF this, of x]
  have x: "length (itoa (int (length x))) + 2 \<le> size_limit" "length x < 2 ^ 64" by (simp_all add: size_limit_def)
  note line = count_line[OF r(3) x(2) assms(3)]
  show ?thesis
  proof (cases "find_crlf (b # w)")
    case None
    with line(1) x(1) assms(3,4) show ?thesis by (intro stall_progresses[OF assms(1)]) simp_all
  next
    case (Some i)
    note l = line(2)[OF Some]
    have "progresses itoa c (advance (i + 2) (AwaitingBulkString (length x)) c) Continue"
    proof (rule advance_progresses[where reqs = reqs])
      show "virtue_wf (c_virtue (advance (i + 2) (AwaitingBulkString (length x)) c))"
        using wf window_advance(2)[of "c_virtue c" "i + 2" "AwaitingBulkString (length x)"] l r(2) x(2) assms(3)
        by (simp add: virtue_wf_def terms_wf_def)
      show "tidy itoa (AwaitingBulkString (length x)) (v_terms (c_virtue c)) (v_expected (c_virtue c)) reqs (drop (i + 2) (pending c))"
        using l r by auto
    qed (use assms wf l in \<open>simp_all add: conn_tidy_def virtue_wf_def\<close>)
    with Some l assms(4) show ?thesis by simp
  qed
qed

lemma progress_bulk:
  assumes "conn_tidy itoa c reqs" "v_phase (c_virtue c) = AwaitingBulkString len" "window (c_virtue c) = b # w"
    and "parse_step token c (b # w) (AwaitingBulkString len) = (c', t)"
  shows "progresses itoa c c' t"
proof -
  have wf: "virtue_wf (c_virtue c)" and bw: "buffer_wf (c_virtue c)" and fits: "list_all (request_fits itoa) reqs"
    and open_c: "open_reads (c_reads c)"
    using assms(1) by (simp_all add: conn_tidy_def virtue_wf_def)
  obtain x xs rest where r: "reqs = (v_terms (c_virtue c) @ x # xs) # rest"
    "v_expected (c_virtue c) = length (v_terms (c_virtue c) @ x # xs)" "len = length x"
    "pending c = x @ crlf @ bulks itoa xs @ stream_of itoa rest"
    using assms(1,2) by (auto simp: conn_tidy_def)
  have "request_fits itoa (v_terms (c_virtue c) @ x # xs)" using fits r(1) by simp
  from request_fits_parts(3)[OF this, of x] have small: "length x + 2 \<le> size_limit" by simp
  then have add: "usize_add len 2 = len + 2" "usize_add len 1 = len + 1"
    using r(3) by (simp_all add: usize_add_def size_limit_def)
  show ?thesis
  proof (cases "len + 2 \<le> length (b # w)")
    case False
    then have "stream_bytes (c_reads c) \<noteq> []" using arg_cong[OF r(4), of length] assms(3) r(3) by (auto simp: pending_def)
    with False assms(3,4) small r(3) add show ?thesis by (intro stall_progresses[OF assms(1)]) simp_all
  next
    case True
    have win: "take (len + 2) (b # w) = x @ crlf"
      using arg_cong[OF r(4), of "take (len + 2)"] True assms(3) r(3) by (simp add: pending_def)
    have "(b # w) ! i = (x @ crlf) ! i" if "i < len + 2" for i using that win nth_take[of i "len + 2" "b # w"] by simp
    from this[of len] this[of "len + 1"] have ends: "(b # w) ! len = 13" "(b # w) ! (len + 1) = 10"
      using r(3) by (simp_all add: crlf_def nth_append)
    have trm: "take len (b # w) = x" using arg_cong[OF win, of "take len"] r(3)
      by (simp add: take_take min_def del: take_Suc_Cons)
    let ?v = "(c_virtue c)\<lparr>v_terms := v_terms (c_virtue c) @ [x]\<rparr>"
    let ?c = "c\<lparr>c_virtue := ?v\<rparr>"
    let ?a = "advance (len + 2) GraspingMarker ?c"
    have cw: "buffer_wf ?v" "window ?v = b # w" "pending ?c = pending c"
      using bw assms(3) by (simp_all add: buffer_wf_def window_def pending_def)
    have pa: "pending ?a = bulks itoa xs @ stream_of itoa rest"
      using pending_advance[of ?c "len + 2" GraspingMarker] cw True r(3,4) by simp
    have ba: "buffer_wf (c_virtue ?a)" using window_advance(2)[OF cw(1), of "len + 2" GraspingMarker] cw(2) True by simp
    have step: "parse_step token c (b # w) (AwaitingBulkString len) =
        (if xs = [] then hand_over token ?a else (?a, Continue))"
      using True ends trm add r(2) by (simp add: Let_def)
    show ?thesis
    proof (cases "xs = []")
      case xs: True
      obtain g where g: "grant (c_clock ?a 0) (v_terms (c_virtue ?a)) token (c_altar ?a) = Some g"
        using grant_some[of "v_terms (c_virtue ?a)"] by fastforce
      with step xs assms(4) have c': "c' = ?a\<lparr>c_virtue := (c_virtue ?a)\<lparr>v_terms := [], v_phase := Idle\<rparr>, c_altar := g,
          c_clock := (\<lambda>i. c_clock ?a (Suc i))\<rparr>" "t = Continue" by (simp_all add: hand_over_def)
      have "pending c' = stream_of itoa rest" using pa xs by (simp add: c'(1) pending_def window_def)
      moreover have "virtue_wf (c_virtue c')" using ba by (simp add: c'(1) virtue_wf_def terms_wf_def buffer_wf_def)
      ultimately show ?thesis using fits open_c r(1) c' unfolding progresses_def
        by (intro exI[of _ rest]) (simp add: conn_tidy_def)
    next
      case xs: False
      have "progresses itoa c ?a Continue"
      proof (rule advance_progresses[where reqs = reqs])
        show "virtue_wf (c_virtue ?a)" using ba r(2) xs by (simp add: virtue_wf_def terms_wf_def)
        from xs obtain y ys where "xs = y # ys" by (cases xs) auto
        with r(1,2) pa pending_advance[of ?c "len + 2" GraspingMarker] cw True
        show "tidy itoa GraspingMarker (v_terms (c_virtue ?c)) (v_expected (c_virtue ?c)) reqs (drop (len + 2) (pending ?c))"
          by (simp add: comp_def)
      qed (use fits open_c cw True in simp_all)
      with step xs assms(4) show ?thesis by simp
    qed
  qed
qed

subsection \<open>The loop and the calls\<close>

lemma wish_step_progresses:
  assumes "conn_tidy itoa c reqs" "wish_step token c = (c', t)"
  shows "progresses itoa c c' t"
proof -
  let ?v = "c_virtue c"
  have bw: "buffer_wf ?v" using assms(1) by (simp add: conn_tidy_def virtue_wf_def)
  then have ok: "slice_ok (v_read ?v) (v_write ?v) (v_backlog ?v)" by (simp add: buffer_wf_def slice_ok_def)
  show ?thesis
  proof (cases "window ?v")
    case Nil
    with assms(2) ok have c': "c' = c" "t = Return" by (auto simp: wish_step_def Let_def window_def split: if_splits)
    have "stream_bytes (c_reads c) = [] \<Longrightarrow> reqs = []"
      using assms(1) Nil by (auto simp: conn_tidy_def pending_def dest: tidy_nothing)
    with assms(1) c' Nil show ?thesis unfolding progresses_def by (intro exI[of _ reqs]) auto
  next
    case (Cons b w)
    then have "parse_step token c (b # w) (v_phase ?v) = (c', t)"
      using assms(2) ok by (simp add: wish_step_def Let_def window_def[symmetric])
    with assms(1) Cons progress_idle progress_term_count progress_marker progress_bulk_length progress_bulk
    show ?thesis by (cases "v_phase ?v") metis+
  qed
qed

lemma wish_loop_progresses:
  "conn_tidy itoa c reqs \<Longrightarrow> wish_loop token c = (c', t) \<Longrightarrow> t = Return \<and> progresses itoa c c' Return"
proof (induction token c arbitrary: c' t reqs rule: wish_loop.induct)
  case (1 token c)
  obtain c1 t1 where st: "wish_step token c = (c1, t1)" by fastforce
  note p = wish_step_progresses[OF "1.prems"(1) st]
  then obtain reqs1 where t1: "conn_tidy itoa c1 reqs1" "reads_size (c_reads c1) \<le> reads_size (c_reads c)"
    "t1 = Continue \<or> t1 = Return" by (auto simp: progresses_def)
  have run: "wish_loop token c = (if t1 = Continue then wish_loop token c1 else (c1, t1))"
    by (subst wish_loop.simps) (simp add: st split: turn.split)
  show ?case
  proof (cases "t1 = Continue")
    case True
    from "1.IH"[OF st[symmetric] True t1(1)] "1.prems"(2) run True have "t = Return" "progresses itoa c1 c' Return" by auto
    with t1(2) show ?thesis by (blast intro: progresses_later)
  next
    case False
    with t1(3) run "1.prems"(2) p show ?thesis by simp
  qed
qed

text \<open>Between two calls: tidy, with a small window, and nothing complete waiting.\<close>

definition resting :: "conn \<Rightarrow> bytes list list \<Rightarrow> bool" where
  "resting c reqs \<longleftrightarrow> conn_tidy itoa c reqs \<and> length (window (c_virtue c)) \<le> size_limit \<and>
     (stream_bytes (c_reads c) \<noteq> [] \<or> reqs = [])"

lemma wish_rests:
  assumes "resting c reqs" "wish token (Some (c_virtue c)) c = (c', t)"
  shows "t = Return \<and> reads_size (c_reads c') \<le> reads_size (c_reads c) - 1 \<and> (\<exists>reqs'. resting c' reqs')"
proof -
  have wf: "virtue_wf (c_virtue c)" "open_reads (c_reads c)" "length (window (c_virtue c)) \<le> size_limit"
    using assms(1) by (simp_all add: resting_def conn_tidy_def)
  obtain c1 t1 where a: "await_bytes c = (c1, t1)" by fastforce
  note p = await_progress[OF wf(1,3,2) a]
  have "virtue_wf (c_virtue c1)" using await_ok[OF wf(1)] a by auto
  then have tidy1: "conn_tidy itoa c1 reqs" using p assms(1) by (simp add: resting_def conn_tidy_def)
  have run: "(c', t) = (if t1 = Continue then wish_loop token c1 else (c1, t1))"
    using assms(2) by (cases t1) (auto simp add: wish_def Let_def a)
  show ?thesis
  proof (cases "t1 = Continue")
    case True
    with wish_loop_progresses[OF tidy1, of token c' t] run p show ?thesis
      by (auto simp: progresses_def resting_def)
  next
    case False
    then have "t1 = Return" using p by simp
    moreover from this have "window (c_virtue c1) = window (c_virtue c)" using p by (metis append_same_eq pending_def)
    ultimately show ?thesis using run p tidy1 assms(1) by (auto simp: resting_def)
  qed
qed

lemma wish_calls_rest:
  "resting c reqs \<Longrightarrow> wish_calls token n c = (c', t) \<Longrightarrow>
     t = Return \<and> reads_size (c_reads c') \<le> reads_size (c_reads c) - n \<and> (\<exists>reqs'. resting c' reqs')"
proof (induction n arbitrary: c reqs)
  case (Suc n)
  obtain c1 t1 where w: "wish token (Some (c_virtue c)) c = (c1, t1)" by fastforce
  from wish_rests[OF Suc.prems(1) w] obtain reqs1 where
    "t1 = Return" "reads_size (c_reads c1) \<le> reads_size (c_reads c) - 1" "resting c1 reqs1" by blast
  with Suc.IH[of c1 reqs1] Suc.prems(2) w show ?case by auto
qed auto

text \<open>When the socket has been read out, everything the client sent has been granted.\<close>

lemma session_served:
  assumes "list_all (request_fits itoa) reqs" "open_reads rs" "stream_bytes rs = stream_of itoa reqs"
    and "reads_size rs \<le> n" "wish_calls token n (new_conn rs a clock) = (c', t)"
  shows "t = Return \<and> grant_all token reqs (a, clock) = Some (c_altar c', c_clock c') \<and> c_reads c' = [] \<and> pending c' = []"
proof -
  let ?c = "new_conn rs a clock"
  have "stream_of itoa reqs = [] \<Longrightarrow> reqs = []" by (cases reqs) (auto simp: request_resp_def)
  then have "resting ?c reqs"
    using assms(1-3) virtue_new_wf
    by (auto simp: resting_def conn_tidy_def new_conn_def pending_def window_def virtue_new_def)
  from wish_calls_rest[OF this assms(5)] obtain reqs' where
    t: "t = Return" "reads_size (c_reads c') \<le> reads_size rs - n" "resting c' reqs'"
    by (auto simp: new_conn_def)
  then have none: "c_reads c' = []" using assms(4) by (cases "c_reads c'") (auto simp: reads_size_def split: read_result.splits)
  then have "reqs' = []" using t(3) by (simp add: resting_def stream_bytes_def)
  with t(3) have empty: "v_phase (c_virtue c') = Idle" "pending c' = []"
    using tidy_done by (auto simp: resting_def conn_tidy_def)
  have "list_all request_ok reqs" using assms(1) fits_request_ok by (simp add: list_all_iff)
  moreover have "conn_requests c' = []" using empty by (simp add: conn_requests_def)
  ultimately have "grant_all token reqs (a, clock) = Some (c_altar c', c_clock c')"
    using session_grants[OF decimal_printer_axioms _ assms(3,5)] t(1) by auto
  with t(1) none empty show ?thesis by simp
qed

end

end
