(* ===== verification/Server.thy ===== *)
theory Server
  imports Worship Replies IngressProgress
begin

section \<open>The event loop and its threads (\<open>src/server.rs\<close>, \<open>src/choir.rs\<close>)\<close>

text \<open>
  The program is five kinds of threads around channels: the event loop, the I/O threads of the choir
  (each runs \<open>wish\<close> on one connection at a time), the god thread, the egress thread and the handler of
  interrupts. The state
  holds every queue between them; a step is one action of one thread, and any order of steps is an
  execution, so what holds of all reachable states holds however the threads are scheduled.

  A connection is a \<open>Pilgrim\<close> that moves between the event loop's map, the choir's job queue, an I/O
  thread and the channel back.
\<close>

record pilgrim =
  p_stream :: stream
  p_virtue :: "virtue option"

text \<open>A job in the hands of an I/O thread: the connection, and whether it has made its first read.\<close>

record song =
  so_token :: token
  so_pilgrim :: pilgrim
  so_begun :: bool
  so_conn :: conn

text \<open>
  The handler of interrupts: resting, waiting for the path of the snapshot or for the result of the
  save (with the number of answers the god thread had given before), or gone with a panic.
\<close>

datatype interrupt =
    Resting
  | AwaitingPath nat
  | AwaitingSave nat
  | HandlerPanicked

record server =
  s_ingress :: "(token, pilgrim) fmap"
  s_counter :: nat
  s_songs :: "(token \<times> pilgrim) list"
  s_singing :: "song list"
  s_returned :: "(token \<times> pilgrim) list"
  s_lost :: "token list"
  s_decrees :: "decree list"
  s_temple :: temple
  s_world :: world
  s_egress :: egress_thread
  s_god_panicked :: bool
  s_interrupt :: interrupt
  s_exited :: bool
  s_angels :: nat
  s_loop_panicked :: bool

subsection \<open>The pieces of the event loop\<close>

text \<open>\<open>const SERVER: Token = Token(0)\<close>\<close>

definition SERVER :: token where
  "SERVER = 0"

text \<open>A connection is accepted and its socket cloned; the egress thread, which never ends, is told.\<close>

definition accept_pilgrim :: "stream \<Rightarrow> server \<Rightarrow> server" where
  "accept_pilgrim stream s =
     (let token = s_counter s
      in s\<lparr>s_counter := s_counter s + 1,
           s_ingress := fmupd token \<lparr>p_stream = stream, p_virtue = None\<rparr> (s_ingress s),
           s_decrees := s_decrees s @ [Welcome token stream]\<rparr>)"

text \<open>
  A readable connection leaves the map and becomes a job of the choir. \<open>Choir::sing\<close> unwraps the result
  of \<open>send\<close>, which fails once every angel, and so every receiver of jobs, is gone: the event loop then
  panics, and as it is the main thread the process ends.
\<close>

definition dispatch_event :: "token \<Rightarrow> server \<Rightarrow> server" where
  "dispatch_event token s =
     (case fmlookup (s_ingress s) token of
        None \<Rightarrow> s
      | Some p \<Rightarrow>
          if s_angels s = 0 then s\<lparr>s_ingress := fmdrop token (s_ingress s), s_loop_panicked := True\<rparr>
          else s\<lparr>s_ingress := fmdrop token (s_ingress s), s_songs := s_songs s @ [(token, p)]\<rparr>)"

text \<open>A connection comes back from the choir.\<close>

definition take_back :: "server \<Rightarrow> server" where
  "take_back s =
     (case s_returned s of
        [] \<Rightarrow> s
      | (token, p) # rest \<Rightarrow> s\<lparr>s_returned := rest, s_ingress := fmupd token p (s_ingress s)\<rparr>)"

text \<open>The egress thread reports a token; the server's own token ends the process.\<close>

definition take_lost :: "server \<Rightarrow> server" where
  "take_lost s =
     (case s_lost s of
        [] \<Rightarrow> s
      | token # rest \<Rightarrow>
          if token = SERVER then s\<lparr>s_lost := rest, s_exited := True\<rparr>
          else s\<lparr>s_lost := rest, s_ingress := fmdrop token (s_ingress s)\<rparr>)"

subsection \<open>The choir\<close>

text \<open>
  An idle angel receives the oldest job; what the socket and the clock will show it is the environment's
  choice. It then runs \<open>wish\<close> turn by turn, between which the other threads act on the channels.
\<close>

definition start_song :: "read_result list \<Rightarrow> (nat \<Rightarrow> system_time) \<Rightarrow> server \<Rightarrow> server" where
  "start_song reads clock s =
     (case s_songs s of
        [] \<Rightarrow> s
      | (token, p) # rest \<Rightarrow>
          if s_angels s \<le> length (s_singing s) then s else
          let v = (case p_virtue p of None \<Rightarrow> virtue_new | Some v \<Rightarrow> v);
              a = \<lparr>a_temple = s_temple s, a_egress = \<lparr>receiver_alive = True, queue = s_decrees s\<rparr>\<rparr>
          in s\<lparr>s_songs := rest,
               s_singing := s_singing s @ [\<lparr>so_token = token, so_pilgrim = p, so_begun = False,
                 so_conn = \<lparr>c_virtue = v, c_reads = reads, c_altar = a, c_clock = clock\<rparr>\<rparr>]\<rparr>)"

definition song_turn :: "server \<Rightarrow> song \<Rightarrow> conn \<times> turn" where
  "song_turn s so =
     (let c = (so_conn so)\<lparr>c_altar :=
            \<lparr>a_temple = s_temple s, a_egress = \<lparr>receiver_alive = True, queue = s_decrees s\<rparr>\<rparr>\<rparr>
      in if so_begun so then wish_step (so_token so) c else await_bytes c)"

text \<open>
  The end of a job is the closure of the event loop: the connection goes back with its parser state,
  or the egress thread is told goodbye; a panic takes the connection and the angel with it.
\<close>

definition sing :: "nat \<Rightarrow> server \<Rightarrow> server" where
  "sing i s =
     (if \<not> i < length (s_singing s) then s
      else let so = s_singing s ! i;
               (c, t) = song_turn s so;
               s1 = s\<lparr>s_temple := a_temple (c_altar c), s_decrees := queue (a_egress (c_altar c))\<rparr>;
               others = take i (s_singing s) @ drop (Suc i) (s_singing s)
           in case t of
                Continue \<Rightarrow> s1\<lparr>s_singing := (s_singing s)[i := so\<lparr>so_begun := True, so_conn := c\<rparr>]\<rparr>
              | Return \<Rightarrow> s1\<lparr>s_singing := others,
                  s_returned := s_returned s @ [(so_token so, (so_pilgrim so)\<lparr>p_virtue := Some (c_virtue c)\<rparr>)]\<rparr>
              | Fall _ \<Rightarrow> s1\<lparr>s_singing := others, s_decrees := s_decrees s1 @ [Goodbye (so_token so)]\<rparr>
              | Crash \<Rightarrow> s1\<lparr>s_singing := others, s_angels := s_angels s - 1\<rparr>)"

subsection \<open>The god thread and the egress thread\<close>

definition god_turn :: "runtime \<Rightarrow> archiver \<Rightarrow> server \<Rightarrow> server" where
  "god_turn rt ar s =
     (case queue (s_temple s) of
        [] \<Rightarrow> s
      | wi # rest \<Rightarrow>
          let w = (s_world s)\<lparr>w_egress := \<lparr>receiver_alive = True, queue = s_decrees s\<rparr>\<rparr>
          in (case god_step rt ar w wi of
                Running w' \<Rightarrow>
                  s\<lparr>s_temple := (s_temple s)\<lparr>queue := rest\<rparr>, s_world := w', s_decrees := queue (w_egress w')\<rparr>
              | Stopped w' \<Rightarrow>
                  s\<lparr>s_temple := \<lparr>receiver_alive = False, queue = []\<rparr>, s_world := w',
                    s_decrees := queue (w_egress w')\<rparr>
              | Panicked \<Rightarrow> s\<lparr>s_temple := \<lparr>receiver_alive = False, queue = []\<rparr>, s_god_panicked := True\<rparr>))"

definition egress_turn :: "runtime \<Rightarrow> server \<Rightarrow> server" where
  "egress_turn rt s =
     (case s_decrees s of
        [] \<Rightarrow> s
      | d # rest \<Rightarrow>
          let e = egress_step (rt_itoa rt) ((s_egress s)\<lparr>e_tx := \<lparr>receiver_alive = True, queue = s_lost s\<rparr>\<rparr>) d
          in s\<lparr>s_decrees := rest, s_egress := e, s_lost := queue (e_tx e)\<rparr>)"

subsection \<open>The interrupt handler\<close>

text \<open>
  The closure given to \<open>ctrlc::set_handler\<close>, with \<open>Temple::save\<close> inlined where it waits: it asks for
  the path, sends the save, waits for its result and reports the server's token to the event loop.
  A wait ends without an answer when the god thread is gone, and so is then every sender.
\<close>

definition interrupt_done :: "server \<Rightarrow> server" where
  "interrupt_done s = s\<lparr>s_lost := s_lost s @ [SERVER], s_interrupt := Resting\<rparr>"

definition interrupt_turn :: "server \<Rightarrow> server" where
  "interrupt_turn s =
     (let answers = w_answers (s_world s); god_gone = \<not> receiver_alive (s_temple s)
      in case s_interrupt s of
           Resting \<Rightarrow>
             s\<lparr>s_temple := temple_save_ask (s_temple s) SERVER, s_interrupt := AwaitingPath (length answers)\<rparr>
         | AwaitingPath n \<Rightarrow>
             if n < length answers then
               (case answers ! n of
                  FilePath ans \<Rightarrow>
                    (case temple_save_path (s_temple s) SERVER ans of
                       None \<Rightarrow> s\<lparr>s_interrupt := HandlerPanicked\<rparr>
                     | Some t \<Rightarrow>
                         (case ans of
                            Inl _ \<Rightarrow> interrupt_done s
                          | Inr _ \<Rightarrow> s\<lparr>s_temple := t, s_interrupt := AwaitingSave (n + 1)\<rparr>))
                | Saved _ \<Rightarrow> s)
             else if god_gone then interrupt_done s else s
         | AwaitingSave n \<Rightarrow> if n < length answers \<or> god_gone then interrupt_done s else s
         | HandlerPanicked \<Rightarrow> s)"

subsection \<open>Executions\<close>

text \<open>The streams the operating system has handed out are new to the program.\<close>

fun welcome_streams :: "decree list \<Rightarrow> stream list" where
  "welcome_streams [] = []"
| "welcome_streams (Welcome _ s # ds) = s # welcome_streams ds"
| "welcome_streams (_ # ds) = welcome_streams ds"

inductive server_step :: "runtime \<Rightarrow> archiver \<Rightarrow> server \<Rightarrow> server \<Rightarrow> bool" for rt ar where
  accepted: "stream \<notin> fmran' (e_map (s_egress s)) \<Longrightarrow> stream \<notin> set (welcome_streams (s_decrees s)) \<Longrightarrow>
    server_step rt ar s (accept_pilgrim stream s)"
| dispatched: "server_step rt ar s (dispatch_event token s)"
| came_back: "server_step rt ar s (take_back s)"
| reported: "server_step rt ar s (take_lost s)"
| started: "server_step rt ar s (start_song reads clock s)"
| sang: "server_step rt ar s (sing i s)"
| god_served: "server_step rt ar s (god_turn rt ar s)"
| egress_wrote: "server_step rt ar s (egress_turn rt s)"
| interrupted: "server_step rt ar s (interrupt_turn s)"

definition server_start :: "nat \<Rightarrow> world \<Rightarrow> sockets \<Rightarrow> server" where
  "server_start io_threads w sks =
     \<lparr>s_ingress = fmempty, s_counter = 1, s_songs = [], s_singing = [], s_returned = [], s_lost = [],
      s_decrees = [], s_temple = \<lparr>receiver_alive = True, queue = []\<rparr>, s_world = w,
      s_egress = \<lparr>e_map = fmempty, e_sockets = sks, e_tx = \<lparr>receiver_alive = True, queue = []\<rparr>\<rparr>,
      s_god_panicked = False, s_interrupt = Resting, s_exited = False,
      s_angels = io_threads, s_loop_panicked = False\<rparr>"

text \<open>
  An exit of the process, or a panic of the event loop, which runs in the main thread, ends every thread.
\<close>

definition ended :: "server \<Rightarrow> bool" where
  "ended s \<longleftrightarrow> s_exited s \<or> s_loop_panicked s"

lemma ended_simps [simp]:
  "ended (s\<lparr>s_temple := t\<rparr>) = ended s" "ended (s\<lparr>s_world := w\<rparr>) = ended s" "ended (s\<lparr>s_decrees := ds\<rparr>) = ended s"
  "ended (s\<lparr>s_lost := ls\<rparr>) = ended s" "ended (s\<lparr>s_interrupt := i\<rparr>) = ended s"
  "ended (s\<lparr>s_ingress := m\<rparr>) = ended s" "ended (s\<lparr>s_counter := c\<rparr>) = ended s" "ended (s\<lparr>s_songs := js\<rparr>) = ended s"
  "ended (s\<lparr>s_singing := so\<rparr>) = ended s" "ended (s\<lparr>s_angels := a\<rparr>) = ended s"
  "\<not> ended (server_start n w sks)"
  by (simp_all add: ended_def server_start_def)

inductive reachable :: "runtime \<Rightarrow> archiver \<Rightarrow> server \<Rightarrow> server \<Rightarrow> bool" for rt ar s0 where
  init: "reachable rt ar s0 s0"
| step: "reachable rt ar s0 s \<Longrightarrow> \<not> ended s \<Longrightarrow> server_step rt ar s s' \<Longrightarrow> reachable rt ar s0 s'"

subsection \<open>What a job sends\<close>

definition altar_grows :: "token \<Rightarrow> altar \<Rightarrow> altar \<Rightarrow> bool" where
  "altar_grows token a a' \<longleftrightarrow>
     (\<exists>ws ds. queue (a_temple a') = queue (a_temple a) @ ws \<and>
        list_all (\<lambda>w. client_wish w \<and> wish_token w = token) ws \<and> (\<not> receiver_alive (a_temple a) \<longrightarrow> ws = []) \<and>
        queue (a_egress a') = queue (a_egress a) @ ds \<and>
        list_all (\<lambda>d. carries d \<and> decree_token d = token) ds) \<and>
     receiver_alive (a_egress a') = receiver_alive (a_egress a) \<and>
     receiver_alive (a_temple a') = receiver_alive (a_temple a)"

lemma altar_grows_refl [intro, simp]: "altar_grows token a a"
  by (auto simp: altar_grows_def)

lemma altar_grows_trans: "altar_grows token a b \<Longrightarrow> altar_grows token b c \<Longrightarrow> altar_grows token a c"
  by (fastforce simp: altar_grows_def)

lemma refuse_grows: "altar_grows token a (refuse token e a)"
  by (auto simp: altar_grows_def refuse_def respond_def deliver_def send_def)

lemma answered_grows: "answered now token a a' \<Longrightarrow> altar_grows token a a'"
  by (auto simp: answered_def altar_grows_def pray_def respond_def deliver_def temple_send_def send_def
      client_wish_def dest: client_ok_events split: if_splits)

lemma grant_grows:
  assumes "grant now terms token a = Some a'" "receiver_alive (a_egress a)"
  shows "altar_grows token a a'"
proof (cases "lindex_arity_ok terms")
  case True
  have "terms \<noteq> []" using assms(1) by (auto simp: grant_def)
  from grant_answers[OF this True, of now token a] assms(1) show ?thesis by (auto intro: answered_grows)
next
  case False
  then obtain cmd rest where t: "terms = cmd # rest" using assms(1) by (cases terms) (auto simp: grant_def)
  with False have l: "eq_ignore_ascii_case cmd (bstr ''LINDEX'')" "length terms \<noteq> 3"
    by (auto simp: lindex_arity_ok_def)
  have "map to_ascii_lowercase cmd = map to_ascii_lowercase (bstr ''LINDEX'')"
    using l(1) by (simp add: eq_ignore_ascii_case_def)
  then have "dispatch cmd now terms token a = grant_lindex now terms token a"
    by (simp add: dispatch_def evaluates)
  then have "a' = grant_lindex now terms token a" using assms(1) t by (simp add: grant_def)
  with lindex_wrong_arity[OF l(2) assms(2)] show ?thesis
    by (auto intro: altar_grows_trans[OF refuse_grows answered_grows])
qed

lemma await_altar: "await_bytes c = (c', t) \<Longrightarrow> c_altar c' = c_altar c"
  by (auto simp: await_bytes_def split: option.splits prod.splits sum.splits bool.splits)

lemma hand_over_grows:
  "hand_over token c = (c', t) \<Longrightarrow> receiver_alive (a_egress (c_altar c)) \<Longrightarrow> altar_grows token (c_altar c) (c_altar c')"
  by (auto simp: hand_over_def grant_grows split: option.splits)

lemma parse_step_grows:
  assumes "parse_step token c w phase = (c', t)" "receiver_alive (a_egress (c_altar c))"
  shows "altar_grows token (c_altar c) (c_altar c')"
proof (cases phase)
  case (AwaitingBulkString len)
  with assms show ?thesis
    by (auto simp: Let_def dest!: await_altar hand_over_grows split: if_splits)
qed (use assms in \<open>auto simp: Let_def dest!: await_altar split: if_splits option.splits sum.splits\<close>)

lemma wish_step_grows:
  "wish_step token c = (c', t) \<Longrightarrow> receiver_alive (a_egress (c_altar c)) \<Longrightarrow> altar_grows token (c_altar c) (c_altar c')"
  by (auto simp: wish_step_def Let_def dest: parse_step_grows split: if_splits)

subsection \<open>A connection is in one place\<close>

definition busy :: "server \<Rightarrow> token list" where
  "busy s = map fst (s_songs s) @ map so_token (s_singing s) @ map fst (s_returned s)"

definition apart :: "token list \<Rightarrow> (token, pilgrim) fmap \<Rightarrow> nat \<Rightarrow> bool" where
  "apart xs m n \<longleftrightarrow> distinct xs \<and> (\<forall>t \<in> set xs. fmlookup m t = None \<and> 0 < t \<and> t < n) \<and>
     (\<forall>t p. fmlookup m t = Some p \<longrightarrow> 0 < t \<and> t < n) \<and> 0 < n"

definition tokens_apart :: "server \<Rightarrow> bool" where
  "tokens_apart s = apart (busy s) (s_ingress s) (s_counter s)"

lemma apart_moves:
  "apart xs m n \<Longrightarrow> distinct ys \<Longrightarrow> set ys \<subseteq> set xs \<Longrightarrow> apart ys m n"
  "apart xs m n \<Longrightarrow> fmlookup m t = Some p \<Longrightarrow> distinct ys \<Longrightarrow> set ys \<subseteq> insert t (set xs) \<Longrightarrow> apart ys (fmdrop t m) n"
  "apart xs m n \<Longrightarrow> t \<in> set xs \<Longrightarrow> distinct ys \<Longrightarrow> set ys \<subseteq> set xs - {t} \<Longrightarrow> apart ys (fmupd t p m) n"
  "apart xs m n \<Longrightarrow> apart xs (fmdrop t m) n"
  "apart xs m n \<Longrightarrow> apart xs (fmupd n p m) (Suc n)"
  unfolding apart_def
  subgoal by blast
  subgoal by (auto split: if_splits)
  subgoal by (auto split: if_splits)
  subgoal by auto
  subgoal by (auto simp: less_Suc_eq split: if_splits)
  done

lemma apart_distinct: "apart xs m n \<Longrightarrow> distinct xs \<and> (\<forall>t \<in> set xs. fmlookup m t = None)"
  by (simp add: apart_def)

lemma sing_runs:
  assumes "i < length (s_singing s)"
  obtains P so Q c t where "s_singing s = P @ so # Q" "song_turn s so = (c, t)"
    "sing i s =
      (let s1 = s\<lparr>s_temple := a_temple (c_altar c), s_decrees := queue (a_egress (c_altar c))\<rparr>
       in case t of
            Continue \<Rightarrow> s1\<lparr>s_singing := P @ so\<lparr>so_begun := True, so_conn := c\<rparr> # Q\<rparr>
          | Return \<Rightarrow> s1\<lparr>s_singing := P @ Q,
              s_returned := s_returned s @ [(so_token so, (so_pilgrim so)\<lparr>p_virtue := Some (c_virtue c)\<rparr>)]\<rparr>
          | Fall _ \<Rightarrow> s1\<lparr>s_singing := P @ Q, s_decrees := s_decrees s1 @ [Goodbye (so_token so)]\<rparr>
          | Crash \<Rightarrow> s1\<lparr>s_singing := P @ Q, s_angels := s_angels s - 1\<rparr>)"
    "so = s_singing s ! i"
proof -
  let ?xs = "s_singing s"
  obtain c t where "song_turn s (?xs ! i) = (c, t)" by fastforce
  with assms show ?thesis
    using that[of "take i ?xs" "?xs ! i" "drop (Suc i) ?xs" c t] id_take_nth_drop[OF assms]
      upd_conv_take_nth_drop[OF assms]
    by (simp add: sing_def Let_def split: turn.split)
qed

lemma sing_cases:
  obtains (idle) "sing i s = s"
  | (runs) P so Q c t where "s_singing s = P @ so # Q" "song_turn s so = (c, t)"
    "sing i s =
      (let s1 = s\<lparr>s_temple := a_temple (c_altar c), s_decrees := queue (a_egress (c_altar c))\<rparr>
       in case t of
            Continue \<Rightarrow> s1\<lparr>s_singing := P @ so\<lparr>so_begun := True, so_conn := c\<rparr> # Q\<rparr>
          | Return \<Rightarrow> s1\<lparr>s_singing := P @ Q,
              s_returned := s_returned s @ [(so_token so, (so_pilgrim so)\<lparr>p_virtue := Some (c_virtue c)\<rparr>)]\<rparr>
          | Fall _ \<Rightarrow> s1\<lparr>s_singing := P @ Q, s_decrees := s_decrees s1 @ [Goodbye (so_token so)]\<rparr>
          | Crash \<Rightarrow> s1\<lparr>s_singing := P @ Q, s_angels := s_angels s - 1\<rparr>)"
    "so = s_singing s ! i"
proof (cases "i < length (s_singing s)")
  case False
  then show ?thesis using idle by (simp add: sing_def)
next
  case True
  then show ?thesis by (rule sing_runs) (rule runs)
qed

lemma busy_simps [simp]:
  "busy (s\<lparr>s_ingress := m\<rparr>) = busy s" "busy (s\<lparr>s_counter := n\<rparr>) = busy s" "busy (s\<lparr>s_lost := ls\<rparr>) = busy s"
  "busy (s\<lparr>s_decrees := ds\<rparr>) = busy s" "busy (s\<lparr>s_temple := t\<rparr>) = busy s" "busy (s\<lparr>s_world := w\<rparr>) = busy s"
  "busy (s\<lparr>s_egress := e\<rparr>) = busy s" "busy (s\<lparr>s_exited := x\<rparr>) = busy s"
  "busy (s\<lparr>s_interrupt := i\<rparr>) = busy s" "busy (s\<lparr>s_god_panicked := x\<rparr>) = busy s"
  "busy (s\<lparr>s_angels := n\<rparr>) = busy s" "busy (s\<lparr>s_loop_panicked := x\<rparr>) = busy s"
  by (simp_all add: busy_def)

lemma sing_tokens:
  assumes "tokens_apart s"
  shows "tokens_apart (sing i s)"
proof (cases rule: sing_cases[of i s])
  case idle
  with assms show ?thesis by simp
next
  case (runs P so Q c t)
  have d: "distinct (map fst (s_songs s) @ map so_token P @ so_token so # map so_token Q @ map fst (s_returned s))"
    using apart_distinct[OF assms[unfolded tokens_apart_def]] by (simp add: busy_def runs(1))
  have "distinct (busy (sing i s)) \<and> set (busy (sing i s)) \<subseteq> set (busy s) \<and>
      s_ingress (sing i s) = s_ingress s \<and> s_counter (sing i s) = s_counter s"
    using d unfolding runs(3) by (cases t) (auto simp: busy_def runs(1) Let_def)
  with assms show ?thesis by (auto simp: tokens_apart_def intro: apart_moves(1))
qed

lemma distinct_moves:
  "distinct ((a # A) @ B @ C) \<Longrightarrow> distinct (A @ (B @ [a]) @ C)"
  "distinct (A @ B @ C) \<Longrightarrow> a \<notin> set (A @ B @ C) \<Longrightarrow> distinct ((A @ [a]) @ B @ C)"
  by auto

lemma queue_tokens:
  assumes "tokens_apart s"
  shows "tokens_apart (accept_pilgrim stream s)" "tokens_apart (dispatch_event token s)"
    "tokens_apart (take_back s)" "tokens_apart (take_lost s)" "tokens_apart (start_song reads clock s)"
proof -
  note ap = assms[unfolded tokens_apart_def]
  note d = apart_distinct[OF ap]
  show "tokens_apart (accept_pilgrim stream s)"
    using apart_moves(5)[OF ap] by (simp add: tokens_apart_def accept_pilgrim_def Let_def)
  show "tokens_apart (dispatch_event token s)"
  proof (cases "fmlookup (s_ingress s) token")
    case (Some p)
    show ?thesis
    proof (cases "s_angels s = 0")
      case True
      with apart_moves(4)[OF ap] show ?thesis by (simp add: tokens_apart_def dispatch_event_def Some)
    next
      case False
      have "token \<notin> set (busy s)" using d Some by auto
      with d have "distinct ((map fst (s_songs s) @ [token]) @ map so_token (s_singing s) @ map fst (s_returned s))"
        unfolding busy_def by (intro distinct_moves(2)) simp_all
      then have b: "distinct (busy (dispatch_event token s))" "set (busy (dispatch_event token s)) \<subseteq> insert token (set (busy s))"
        using False by (auto simp: dispatch_event_def busy_def Some)
      have "s_ingress (dispatch_event token s) = fmdrop token (s_ingress s)" "s_counter (dispatch_event token s) = s_counter s"
        using False by (simp_all add: dispatch_event_def Some)
      with apart_moves(2)[OF ap Some b] show ?thesis by (simp add: tokens_apart_def)
    qed
  qed (use assms in \<open>simp add: dispatch_event_def\<close>)
  show "tokens_apart (take_back s)"
  proof (cases "s_returned s")
    case (Cons job rest)
    obtain t p where job: "job = (t, p)" by (cases job)
    have "distinct (busy (take_back s))" "t \<in> set (busy s)" "set (busy (take_back s)) \<subseteq> set (busy s) - {t}"
      using d Cons job by (auto simp: take_back_def busy_def)
    then show ?thesis
      using apart_moves(3)[OF ap] by (fastforce simp: tokens_apart_def take_back_def Cons job)
  qed (use assms in \<open>simp add: take_back_def\<close>)
  show "tokens_apart (take_lost s)"
    using apart_moves(4)[OF ap] ap by (auto simp: tokens_apart_def take_lost_def split: list.split)
  show "tokens_apart (start_song reads clock s)"
  proof (cases "s_songs s = [] \<or> s_angels s \<le> length (s_singing s)")
    case False
    then obtain job rest where Cons: "s_songs s = job # rest" and idle: "\<not> s_angels s \<le> length (s_singing s)"
      by (cases "s_songs s") auto
    have b: "busy s = (fst job # map fst rest) @ map so_token (s_singing s) @ map fst (s_returned s)"
      "busy (start_song reads clock s) = map fst rest @ (map so_token (s_singing s) @ [fst job]) @ map fst (s_returned s)"
      using idle by (simp_all add: busy_def start_song_def Cons Let_def split: prod.split)
    have "distinct (busy (start_song reads clock s))" "set (busy (start_song reads clock s)) \<subseteq> set (busy s)"
      using distinct_moves(1)[OF conjunct1[OF d, unfolded b(1)]] unfolding b by auto
    moreover have "s_ingress (start_song reads clock s) = s_ingress s" "s_counter (start_song reads clock s) = s_counter s"
      by (simp_all add: start_song_def Cons Let_def split: prod.split)
    ultimately show ?thesis using apart_moves(1)[OF ap] by (simp add: tokens_apart_def)
  qed (use assms in \<open>auto simp: start_song_def split: list.split\<close>)
qed

lemma god_turn_tokens: "tokens_apart s \<Longrightarrow> tokens_apart (god_turn rt ar s)"
  by (simp add: tokens_apart_def god_turn_def Let_def busy_def split: list.split progress.split)

lemma egress_turn_tokens: "tokens_apart s \<Longrightarrow> tokens_apart (egress_turn rt s)"
  by (simp add: tokens_apart_def egress_turn_def Let_def split: list.split)

text \<open>The interrupt handler touches the queue of wishes, its own state and the list of reports.\<close>

definition handler_sends :: "temple \<Rightarrow> temple \<Rightarrow> bool" where
  "handler_sends t t' \<longleftrightarrow> t' = t \<or> t' = temple_save_ask t SERVER \<or>
     (\<exists>path. t' = snd (send t \<lparr>wish_token = SERVER, wish_command = Server (Save path)\<rparr>))"

lemma interrupt_turn_shape:
  "interrupt_turn s = s \<or> interrupt_turn s = interrupt_done s \<or>
   (\<exists>t i. interrupt_turn s = s\<lparr>s_temple := t, s_interrupt := i\<rparr> \<and> handler_sends (s_temple s) t)"
proof -
  have stay: "\<exists>t i. s\<lparr>s_interrupt := HandlerPanicked\<rparr> = s\<lparr>s_temple := t, s_interrupt := i\<rparr> \<and> handler_sends (s_temple s) t"
    by (intro exI[of _ "s_temple s"] exI[of _ HandlerPanicked]) (simp add: handler_sends_def)
  have ask: "\<exists>t j. s\<lparr>s_temple := temple_save_ask (s_temple s) SERVER, s_interrupt := i\<rparr> = s\<lparr>s_temple := t, s_interrupt := j\<rparr> \<and>
      handler_sends (s_temple s) t" for i
    by (intro exI conjI, rule refl) (simp add: handler_sends_def)
  have save: "\<exists>t j. s\<lparr>s_temple := snd (send (s_temple s) \<lparr>wish_token = SERVER, wish_command = Server (Save path)\<rparr>), s_interrupt := i\<rparr> =
      s\<lparr>s_temple := t, s_interrupt := j\<rparr> \<and> handler_sends (s_temple s) t" for i path
    by (intro exI conjI, rule refl) (auto simp: handler_sends_def)
  show ?thesis
    using stay ask save
    by (simp add: interrupt_turn_def Let_def temple_save_path_def del: send_alive send_dead
        split: interrupt.split answer.split sum.split)
qed

lemma interrupt_turn_cases:
  obtains (same) "interrupt_turn s = s" | (finished) "interrupt_turn s = interrupt_done s"
  | (moved) t i where "interrupt_turn s = s\<lparr>s_temple := t, s_interrupt := i\<rparr>" "handler_sends (s_temple s) t"
  using interrupt_turn_shape[of s] by blast

lemma interrupt_turn_tokens: "tokens_apart s \<Longrightarrow> tokens_apart (interrupt_turn s)"
  by (cases rule: interrupt_turn_cases[of s]) (auto simp: interrupt_done_def tokens_apart_def)

lemma server_step_tokens:
  assumes "server_step rt ar s s'" "tokens_apart s"
  shows "tokens_apart s'"
  using assms
  by (cases rule: server_step.cases)
    (simp_all add: sing_tokens queue_tokens god_turn_tokens egress_turn_tokens interrupt_turn_tokens)

lemma server_start_tokens: "tokens_apart (server_start n w sks)"
  by (simp add: server_start_def tokens_apart_def busy_def apart_def)

text \<open>No two I/O threads ever work on the same connection, and a token is never given twice.\<close>

lemma reachable_tokens: "reachable rt ar (server_start n w sks) s \<Longrightarrow> tokens_apart s"
  by (induction rule: reachable.induct) (auto intro: server_step_tokens server_start_tokens)

subsection \<open>The god thread's state and its queue\<close>

definition wish_ok :: "wish \<Rightarrow> bool" where
  "wish_ok w = (case wish_command w of Client cc \<Rightarrow> events_named cc | Server _ \<Rightarrow> True)"

definition temple_wf :: "server \<Rightarrow> bool" where
  "temple_wf s \<longleftrightarrow> god_wf (w_god (s_world s)) \<and> list_all wish_ok (queue (s_temple s))"

lemma client_wish_ok: "client_wish w \<Longrightarrow> wish_ok w"
  by (auto simp: client_wish_def wish_ok_def split: command_type.splits)

lemma god_step_wf:
  assumes "wish_ok wi" "god_wf (w_god w)" "hash_iteration (rt_bytes rt)"
    and "god_step rt ar w wi = Running w' \<or> god_step rt ar w wi = Stopped w'"
  shows "god_wf (w_god w')"
proof (cases "wish_command wi")
  case (Server cmd)
  with assms(2,4) show ?thesis
    by (cases cmd) (auto simp: god_step_def answer_def Let_def split: option.splits prod.splits)
next
  case (Client cc)
  with assms(1) have "events_named cc" by (simp add: wish_ok_def)
  with Client assms(2-4) serve_client_wf[OF assms(2,3)] show ?thesis
    by (fastforce simp: god_step_def split: option.splits)
qed

lemma god_turn_temple: "temple_wf s \<Longrightarrow> hash_iteration (rt_bytes rt) \<Longrightarrow> temple_wf (god_turn rt ar s)"
  using god_step_wf[of _ "(s_world s)\<lparr>w_egress := \<lparr>receiver_alive = True, queue = s_decrees s\<rparr>\<rparr>" rt ar]
  by (auto simp: temple_wf_def god_turn_def Let_def split: list.split progress.split)

lemma song_turn_grows:
  assumes "song_turn s so = (c, t)"
  shows "altar_grows (so_token so)
    \<lparr>a_temple = s_temple s, a_egress = \<lparr>receiver_alive = True, queue = s_decrees s\<rparr>\<rparr> (c_altar c)"
proof (cases "so_begun so")
  case True
  with assms wish_step_grows show ?thesis by (force simp: song_turn_def Let_def)
next
  case False
  with assms await_altar show ?thesis by (force simp: song_turn_def Let_def)
qed

lemma sing_temple:
  assumes "temple_wf s"
  shows "temple_wf (sing i s)"
proof (cases rule: sing_cases[of i s])
  case (runs P so Q c t)
  obtain ws where "queue (a_temple (c_altar c)) = queue (s_temple s) @ ws" "list_all client_wish ws"
    using song_turn_grows[OF runs(2)] by (auto simp: altar_grows_def list_all_iff)
  then have "list_all wish_ok (queue (a_temple (c_altar c)))"
    using assms by (auto simp: temple_wf_def list_all_iff client_wish_ok)
  with assms show ?thesis unfolding runs(3) by (cases t) (simp_all add: temple_wf_def Let_def)
qed (use assms in simp)

lemma queue_temple:
  "temple_wf s \<Longrightarrow> temple_wf (accept_pilgrim stream s)" "temple_wf s \<Longrightarrow> temple_wf (dispatch_event token s)"
  "temple_wf s \<Longrightarrow> temple_wf (take_back s)" "temple_wf s \<Longrightarrow> temple_wf (take_lost s)"
  "temple_wf s \<Longrightarrow> temple_wf (start_song reads clock s)" "temple_wf s \<Longrightarrow> temple_wf (egress_turn rt s)"
  by (auto simp: temple_wf_def accept_pilgrim_def Let_def dispatch_event_def take_back_def take_lost_def
      start_song_def egress_turn_def split: option.split list.split)

lemma interrupt_turn_temple: "temple_wf s \<Longrightarrow> temple_wf (interrupt_turn s)"
  by (cases rule: interrupt_turn_cases[of s])
    (auto simp: interrupt_done_def temple_wf_def handler_sends_def temple_save_ask_def send_def wish_ok_def)

lemma server_step_temple:
  assumes "server_step rt ar s s'" "temple_wf s" "hash_iteration (rt_bytes rt)"
  shows "temple_wf s'"
  using assms(1)
  by (cases rule: server_step.cases) (simp_all add: assms(2,3) queue_temple god_turn_temple sing_temple interrupt_turn_temple)

lemma server_start_temple: "god_wf (w_god w) \<Longrightarrow> temple_wf (server_start n w sks)"
  by (simp add: server_start_def temple_wf_def)

lemma reachable_temple:
  "reachable rt ar (server_start n w sks) s \<Longrightarrow> god_wf (w_god w) \<Longrightarrow> hash_iteration (rt_bytes rt) \<Longrightarrow> temple_wf s"
  by (induction rule: reachable.induct) (blast intro: server_step_temple server_start_temple)+

subsection \<open>The parser states\<close>

definition pilgrim_wf :: "pilgrim \<Rightarrow> bool" where
  "pilgrim_wf p = (case p_virtue p of None \<Rightarrow> True | Some v \<Rightarrow> virtue_wf v)"

definition virtues_wf :: "server \<Rightarrow> bool" where
  "virtues_wf s \<longleftrightarrow>
     (\<forall>t p. fmlookup (s_ingress s) t = Some p \<longrightarrow> pilgrim_wf p) \<and>
     (\<forall>t p. (t, p) \<in> set (s_songs s) \<union> set (s_returned s) \<longrightarrow> pilgrim_wf p) \<and>
     (\<forall>so \<in> set (s_singing s). virtue_wf (c_virtue (so_conn so)))"

lemma song_turn_virtue:
  assumes "song_turn s so = (c, t)" "virtue_wf (c_virtue (so_conn so))" "t \<noteq> Crash"
  shows "virtue_wf (c_virtue c)"
proof -
  define c0 where "c0 = (so_conn so)\<lparr>c_altar :=
      \<lparr>a_temple = s_temple s, a_egress = \<lparr>receiver_alive = True, queue = s_decrees s\<rparr>\<rparr>\<rparr>"
  have wf: "virtue_wf (c_virtue c0)" using assms(2) by (simp add: c0_def)
  show ?thesis
  proof (cases "so_begun so")
    case True
    with assms(1) have "wish_step (so_token so) c0 = (c, t)" by (simp add: song_turn_def c0_def)
    from wish_step_ok[OF wf this] assms(3) show ?thesis by (simp add: turn_ok_alt)
  next
    case False
    with assms(1) have "await_bytes c0 = (c, t)" by (simp add: song_turn_def c0_def)
    from await_turn[OF wf refl refl refl this, of "so_token so"] show ?thesis by (simp add: turn_does_def)
  qed
qed

text \<open>The one panic of an I/O thread.\<close>

lemma song_turn_crash:
  assumes "song_turn s so = (c, Crash)" "virtue_wf (c_virtue (so_conn so))"
  shows "giant_length c"
proof -
  define c0 where "c0 = (so_conn so)\<lparr>c_altar :=
      \<lparr>a_temple = s_temple s, a_egress = \<lparr>receiver_alive = True, queue = s_decrees s\<rparr>\<rparr>\<rparr>"
  have wf: "virtue_wf (c_virtue c0)" using assms(2) by (simp add: c0_def)
  show ?thesis
  proof (cases "so_begun so")
    case True
    with assms(1) have "wish_step (so_token so) c0 = (c, Crash)" by (simp add: song_turn_def c0_def)
    from wish_step_ok[OF wf this] show ?thesis by simp
  next
    case False
    with assms(1) have "await_bytes c0 = (c, Crash)" by (simp add: song_turn_def c0_def)
    from await_turn[OF wf refl refl refl this, of "so_token so"] show ?thesis by simp
  qed
qed

lemma sing_virtues:
  assumes "virtues_wf s"
  shows "virtues_wf (sing i s)"
proof (cases rule: sing_cases[of i s])
  case (runs P so Q c t)
  have "virtue_wf (c_virtue (so_conn so))" using assms runs(1) by (simp add: virtues_wf_def)
  note v = song_turn_virtue[OF runs(2) this]
  from assms v show ?thesis
    unfolding runs(3) by (cases t) (auto simp: virtues_wf_def runs(1) Let_def pilgrim_wf_def)
qed (use assms in simp)

lemma interrupt_turn_virtues: "virtues_wf s \<Longrightarrow> virtues_wf (interrupt_turn s)"
  by (cases rule: interrupt_turn_cases[of s]) (auto simp: interrupt_done_def virtues_wf_def)

lemma server_step_virtues:
  assumes "server_step rt ar s s'" "virtues_wf s"
  shows "virtues_wf s'"
  using assms
proof (cases rule: server_step.cases)
  case (accepted stream)
  with assms(2) show ?thesis by (auto simp: virtues_wf_def accept_pilgrim_def Let_def pilgrim_wf_def)
next
  case (dispatched token)
  with assms(2) show ?thesis by (auto simp: virtues_wf_def dispatch_event_def split: option.splits if_splits)
next
  case came_back
  with assms(2) show ?thesis by (auto simp: virtues_wf_def take_back_def split: list.splits if_splits)
next
  case reported
  with assms(2) show ?thesis by (auto simp: virtues_wf_def take_lost_def split: list.splits if_splits)
next
  case (started reads clock)
  with assms(2) show ?thesis
    by (auto simp: virtues_wf_def start_song_def Let_def pilgrim_wf_def virtue_new_wf split: list.splits option.splits)
next
  case god_served
  with assms(2) show ?thesis
    by (simp add: virtues_wf_def god_turn_def Let_def split: list.splits progress.splits)
next
  case egress_wrote
  with assms(2) show ?thesis by (simp add: virtues_wf_def egress_turn_def Let_def split: list.splits)
qed (simp_all add: assms(2) sing_virtues interrupt_turn_virtues)

lemma server_start_virtues: "virtues_wf (server_start n w sks)"
  by (simp add: server_start_def virtues_wf_def)

lemma reachable_virtues: "reachable rt ar (server_start n w sks) s \<Longrightarrow> virtues_wf s"
  by (induction rule: reachable.induct) (blast intro: server_step_virtues server_start_virtues)+

subsection \<open>Clients never share a stream\<close>

definition streams_fresh :: "server \<Rightarrow> bool" where
  "streams_fresh s \<longleftrightarrow> streams_apart (s_egress s) \<and> distinct (welcome_streams (s_decrees s)) \<and>
     (\<forall>x \<in> set (welcome_streams (s_decrees s)). x \<notin> fmran' (e_map (s_egress s)))"

lemma welcome_streams_append [simp]: "welcome_streams (xs @ ys) = welcome_streams xs @ welcome_streams ys"
  by (induction xs rule: welcome_streams.induct) simp_all

lemma welcome_streams_carries: "list_all (\<lambda>d. carries d \<and> P d) ds \<Longrightarrow> welcome_streams ds = []"
proof (induction ds)
  case (Cons d ds)
  then show ?case by (cases d) simp_all
qed simp

lemma serve_client_carries:
  assumes "serve_client rt g tx token cc = Some (g', tx')"
  shows "welcome_streams (queue tx') = welcome_streams (queue tx)"
proof (cases cc)
  case (Database cmd)
  with assms show ?thesis by (auto simp: deliver_def send_def split: if_splits option.splits)
next
  case (Broadcast bc)
  with assms show ?thesis by (cases bc) (auto simp: deliver_def send_def Let_def split: if_splits prod.splits)
qed

lemma god_step_carries:
  assumes "god_step rt ar w wi = Running w' \<or> god_step rt ar w wi = Stopped w'"
  shows "welcome_streams (queue (w_egress w')) = welcome_streams (queue (w_egress w))"
proof (cases "wish_command wi")
  case (Server cmd)
  with assms show ?thesis
    by (cases cmd) (auto simp: god_step_def answer_def Let_def split: option.splits prod.splits)
next
  case (Client cc)
  with assms show ?thesis
    using serve_client_carries[of rt "w_god w" "w_egress w" "wish_token wi" cc]
    by (auto simp: god_step_def split: option.splits)
qed

lemma god_turn_streams:
  assumes "streams_fresh s"
  shows "streams_fresh (god_turn rt ar s)"
proof -
  let ?w = "(s_world s)\<lparr>w_egress := \<lparr>receiver_alive = True, queue = s_decrees s\<rparr>\<rparr>"
  have "welcome_streams (s_decrees (god_turn rt ar s)) = welcome_streams (s_decrees s) \<and>
      s_egress (god_turn rt ar s) = s_egress s"
    using god_step_carries[of rt ar ?w] by (auto simp: god_turn_def Let_def split: list.split progress.split)
  with assms show ?thesis by (simp add: streams_fresh_def)
qed

lemma sing_streams:
  assumes "streams_fresh s"
  shows "streams_fresh (sing i s)"
proof (cases rule: sing_cases[of i s])
  case (runs P so Q c t)
  obtain ds where "queue (a_egress (c_altar c)) = s_decrees s @ ds" "welcome_streams ds = []"
    using song_turn_grows[OF runs(2)] welcome_streams_carries by (auto simp: altar_grows_def)
  then have "welcome_streams (s_decrees (sing i s)) = welcome_streams (s_decrees s) \<and> s_egress (sing i s) = s_egress s"
    unfolding runs(3) by (cases t) (simp_all add: Let_def)
  with assms show ?thesis by (simp add: streams_fresh_def)
qed (use assms in simp)

lemma egress_step_map:
  "e_map (egress_step itoa e d) =
     (case d of Welcome t s \<Rightarrow> fmupd t s (e_map e) | Goodbye t \<Rightarrow> fmdrop t (e_map e) | _ \<Rightarrow> e_map e)"
  by (cases d) (auto simp: Let_def split: option.split prod.split sum.split)

lemma egress_turn_streams:
  assumes "streams_fresh s"
  shows "streams_fresh (egress_turn rt s)"
proof (cases "s_decrees s")
  case Nil
  with assms show ?thesis by (simp add: egress_turn_def)
next
  case (Cons d ds)
  have map: "e_map (s_egress (egress_turn rt s)) = (case d of Welcome t st \<Rightarrow> fmupd t st (e_map (s_egress s))
      | Goodbye t \<Rightarrow> fmdrop t (e_map (s_egress s)) | _ \<Rightarrow> e_map (s_egress s))"
    by (simp add: egress_turn_def Cons Let_def egress_step_map split: decree.split)
  have ds: "s_decrees (egress_turn rt s) = ds" by (simp add: egress_turn_def Cons Let_def)
  show ?thesis
    using assms Cons unfolding streams_fresh_def streams_apart_def map ds
    by (cases d) (auto simp: fmran'_def split: if_splits)
qed

lemma interrupt_turn_streams: "streams_fresh s \<Longrightarrow> streams_fresh (interrupt_turn s)"
  by (cases rule: interrupt_turn_cases[of s]) (auto simp: interrupt_done_def streams_fresh_def)

lemma server_step_streams:
  assumes "server_step rt ar s s'" "streams_fresh s"
  shows "streams_fresh s'"
  using assms(1)
proof (cases rule: server_step.cases)
  case (accepted stream)
  with assms(2) show ?thesis by (auto simp: streams_fresh_def accept_pilgrim_def Let_def)
next
  case (dispatched token)
  with assms(2) show ?thesis by (simp add: streams_fresh_def dispatch_event_def split: option.split)
next
  case came_back
  with assms(2) show ?thesis by (auto simp: streams_fresh_def take_back_def split: list.split)
next
  case reported
  with assms(2) show ?thesis by (auto simp: streams_fresh_def take_lost_def split: list.split)
next
  case (started reads clock)
  with assms(2) show ?thesis by (auto simp: streams_fresh_def start_song_def Let_def split: list.split)
qed (simp_all add: assms(2) sing_streams god_turn_streams egress_turn_streams interrupt_turn_streams)

lemma server_start_streams: "streams_fresh (server_start n w sks)"
  by (simp add: server_start_def streams_fresh_def streams_apart_def)

lemma reachable_streams: "reachable rt ar (server_start n w sks) s \<Longrightarrow> streams_fresh s"
  by (induction rule: reachable.induct) (blast intro: server_step_streams server_start_streams)+

subsection \<open>The choir\<close>

text \<open>
  There are never more jobs running than angels left, the choir only shrinks, and the event loop panics
  only when no angel is left.
\<close>

definition choir_wf :: "nat \<Rightarrow> server \<Rightarrow> bool" where
  "choir_wf n s \<longleftrightarrow> length (s_singing s) \<le> s_angels s \<and> s_angels s \<le> n \<and> (s_loop_panicked s \<longrightarrow> s_angels s = 0)"

lemma sing_choir: "choir_wf n s \<Longrightarrow> choir_wf n (sing i s)"
proof (cases rule: sing_cases[of i s])
  case (runs P so Q c t)
  assume "choir_wf n s"
  then show ?thesis unfolding runs(3) by (cases t) (auto simp: choir_wf_def runs(1) Let_def)
qed simp

lemma queue_choir:
  assumes "choir_wf n s"
  shows "choir_wf n (accept_pilgrim stream s)" "choir_wf n (dispatch_event token s)" "choir_wf n (take_back s)"
    "choir_wf n (take_lost s)" "choir_wf n (start_song reads clock s)" "choir_wf n (god_turn rt ar s)"
    "choir_wf n (egress_turn rt s)" "choir_wf n (interrupt_turn s)"
  using assms
  by (auto simp: choir_wf_def accept_pilgrim_def dispatch_event_def take_back_def take_lost_def start_song_def
      god_turn_def egress_turn_def Let_def interrupt_done_def split: list.split option.split progress.split
      intro: interrupt_turn_cases[of s])

lemma reachable_choir: "reachable rt ar (server_start n w sks) s \<Longrightarrow> choir_wf n s"
proof (induction rule: reachable.induct)
  case init
  show ?case by (simp add: choir_wf_def server_start_def)
next
  case (step s s')
  from step.hyps(3) step.IH show ?case by (cases rule: server_step.cases) (simp_all add: sing_choir queue_choir)
qed

text \<open>An angel is lost only to the one panic of an I/O thread.\<close>

lemma angels_kept:
  "s_angels (accept_pilgrim stream s) = s_angels s" "s_angels (dispatch_event token s) = s_angels s"
  "s_angels (take_back s) = s_angels s" "s_angels (take_lost s) = s_angels s"
  "s_angels (start_song reads clock s) = s_angels s" "s_angels (god_turn rt ar s) = s_angels s"
  "s_angels (egress_turn rt s) = s_angels s" "s_angels (interrupt_turn s) = s_angels s"
  by (auto simp: accept_pilgrim_def dispatch_event_def take_back_def take_lost_def start_song_def god_turn_def
      egress_turn_def Let_def interrupt_done_def split: list.split option.split progress.split
      intro: interrupt_turn_cases[of s])

lemma angel_lost:
  assumes "virtues_wf s" "server_step rt ar s s'" "s_angels s' < s_angels s"
  shows "\<exists>so c. so \<in> set (s_singing s) \<and> song_turn s so = (c, Crash) \<and> giant_length c"
proof -
  obtain i where s': "s' = sing i s"
    using assms(2,3) by (cases rule: server_step.cases) (simp_all add: angels_kept)
  show ?thesis
  proof (cases rule: sing_cases[of i s])
    case (runs P so Q c t)
    have so: "so \<in> set (s_singing s)" by (simp add: runs(1))
    have t: "t = Crash" using assms(3) unfolding s' runs(3) by (cases t) (simp_all add: Let_def)
    have "virtue_wf (c_virtue (so_conn so))" using assms(1) so by (simp add: virtues_wf_def)
    with so song_turn_crash runs(2) t show ?thesis by blast
  qed (use assms(3) s' in simp)
qed

end
