(* ===== verification/Shutdown.thy ===== *)
theory Shutdown
  imports Server
begin

section \<open>An interrupt saves before the process ends\<close>

text \<open>
  The way from an interrupt to the exit crosses three threads: the handler asks the god thread for
  the path, sends it the save and waits; the god thread saves and ends; the handler reports the
  server's token; the event loop exits on that token. The invariants of this theory say where in
  this exchange a reachable state is, that no client's token is ever taken for the server's, and what
  the disk holds once the god thread is gone.
\<close>

fun server_commands :: "wish list \<Rightarrow> server_command list" where
  "server_commands [] = []"
| "server_commands (w # ws) =
     (case wish_command w of Server c \<Rightarrow> c # server_commands ws | Client _ \<Rightarrow> server_commands ws)"

lemma server_commands_append [simp]: "server_commands (xs @ ys) = server_commands xs @ server_commands ys"
  by (induction xs rule: server_commands.induct) (auto split: command_type.split)

lemma server_commands_clients: "list_all (\<lambda>w. client_wish w \<and> P w) ws \<Longrightarrow> server_commands ws = []"
  by (induction ws) (auto simp: client_wish_def split: command_type.splits)

subsection \<open>What a turn of the god thread does to the exchange\<close>

lemma serve_broadcast_keeps:
  "g_config (fst (serve_broadcast rt g tx token bc)) = g_config g"
  by (cases bc) (simp_all add: Let_def split: prod.split)

lemma god_step_client_keeps:
  assumes "wish_command wi = Client cc" "god_step rt ar w wi = Running w'" "receiver_alive (w_egress w)"
  shows "g_config (w_god w') = g_config (w_god w) \<and> w_disk w' = w_disk w \<and> w_answers w' = w_answers w \<and>
    (\<exists>d. queue (w_egress w') = queue (w_egress w) @ [d] \<and> decree_token d = wish_token wi)"
proof -
  obtain g tx where s: "serve_client rt (w_god w) (w_egress w) (wish_token wi) cc = Some (g, tx)"
    "w' = w\<lparr>w_god := g, w_egress := tx\<rparr>" using assms(1,2) by (auto simp: god_step_def split: option.splits)
  have "g_config g = g_config (w_god w)"
  proof (cases cc)
    case (Database cmd)
    with s(1) show ?thesis by (auto split: if_splits option.splits)
  next
    case (Broadcast bc)
    with s(1) serve_broadcast_keeps[of rt "w_god w" "w_egress w" "wish_token wi" bc] show ?thesis by auto
  qed
  with s serve_client_answers[OF assms(3) s(1)] show ?thesis by auto
qed

lemma god_step_client_runs: "wish_command wi = Client cc \<Longrightarrow> god_step rt ar w wi \<noteq> Stopped w'"
  by (auto simp: god_step_def split: option.splits)

subsection \<open>The stages of a shutdown\<close>

definition saving_wf :: "archiver \<Rightarrow> bytes \<Rightarrow> bytes \<Rightarrow> server \<Rightarrow> bool" where
  "saving_wf ar dir db s \<longleftrightarrow>
     (let path = dir @ bstr ''/'' @ db; w = s_world s; pending = server_commands (queue (s_temple s));
          n = length (w_answers w)
      in file_path (g_config (w_god w)) = Some path \<and> disk_failure (w_disk w) path = None \<and>
         (if receiver_alive (s_temple s) then
            (\<forall>a \<in> set (w_answers w). a = FilePath (Inr path)) \<and>
            (case s_interrupt s of
               Resting \<Rightarrow> pending = []
             | AwaitingPath m \<Rightarrow> pending = [GetFilePath] \<and> n = m \<or> pending = [] \<and> n = m + 1
             | AwaitingSave m \<Rightarrow> pending = [Save path] \<and> n = m
             | HandlerPanicked \<Rightarrow> False)
          else queue (s_temple s) = [] \<and>
            (s_god_panicked s \<or> (\<exists>err. to_bytes ar (g_soul (w_god w)) = Inl err) \<or>
             load_snapshot ar (w_disk w) dir db = g_soul (w_god w))))"

lemma saving_wf_cong:
  "s_temple s' = s_temple s \<Longrightarrow> s_world s' = s_world s \<Longrightarrow> s_god_panicked s' = s_god_panicked s \<Longrightarrow>
   s_interrupt s' = s_interrupt s \<Longrightarrow> saving_wf ar dir db s' = saving_wf ar dir db s"
  by (simp add: saving_wf_def)

lemma queue_saving:
  "saving_wf ar dir db (accept_pilgrim stream s) = saving_wf ar dir db s"
  "saving_wf ar dir db (dispatch_event token s) = saving_wf ar dir db s"
  "saving_wf ar dir db (take_back s) = saving_wf ar dir db s"
  "saving_wf ar dir db (take_lost s) = saving_wf ar dir db s"
  "saving_wf ar dir db (start_song reads clock s) = saving_wf ar dir db s"
  "saving_wf ar dir db (egress_turn rt s) = saving_wf ar dir db s"
  by (rule saving_wf_cong;
      simp add: accept_pilgrim_def dispatch_event_def take_back_def take_lost_def start_song_def egress_turn_def Let_def
        split: option.split list.split)+

lemma sing_saving:
  assumes "saving_wf ar dir db s"
  shows "saving_wf ar dir db (sing i s)"
proof (cases rule: sing_cases[of i s])
  case (runs P so Q c t)
  obtain ws where g: "queue (a_temple (c_altar c)) = queue (s_temple s) @ ws" "server_commands ws = []"
    "\<not> receiver_alive (s_temple s) \<longrightarrow> ws = []" "receiver_alive (a_temple (c_altar c)) = receiver_alive (s_temple s)"
    using song_turn_grows[OF runs(2)] server_commands_clients by (fastforce simp: altar_grows_def)
  have "s_temple (sing i s) = a_temple (c_altar c)" "s_world (sing i s) = s_world s"
    "s_god_panicked (sing i s) = s_god_panicked s" "s_interrupt (sing i s) = s_interrupt s"
    unfolding runs(3) by (cases t; simp add: Let_def)+
  with assms g show ?thesis by (simp add: saving_wf_def Let_def)
qed (use assms in simp)

text \<open>What the god thread does with the wish at the head of its queue.\<close>

lemma god_turn_cases:
  obtains (idle) "god_turn rt ar s = s" "queue (s_temple s) = []"
  | (running) wi rest w w' where "queue (s_temple s) = wi # rest"
      "w = (s_world s)\<lparr>w_egress := \<lparr>receiver_alive = True, queue = s_decrees s\<rparr>\<rparr>" "god_step rt ar w wi = Running w'"
      "god_turn rt ar s = s\<lparr>s_temple := (s_temple s)\<lparr>queue := rest\<rparr>, s_world := w', s_decrees := queue (w_egress w')\<rparr>"
  | (stopped) wi rest w w' where "queue (s_temple s) = wi # rest"
      "w = (s_world s)\<lparr>w_egress := \<lparr>receiver_alive = True, queue = s_decrees s\<rparr>\<rparr>" "god_step rt ar w wi = Stopped w'"
      "god_turn rt ar s = s\<lparr>s_temple := \<lparr>receiver_alive = False, queue = []\<rparr>, s_world := w',
         s_decrees := queue (w_egress w')\<rparr>"
  | (panicked) wi rest where "queue (s_temple s) = wi # rest"
      "god_turn rt ar s = s\<lparr>s_temple := \<lparr>receiver_alive = False, queue = []\<rparr>, s_god_panicked := True\<rparr>"
proof (cases "queue (s_temple s)")
  case Nil
  then show ?thesis using idle by (simp add: god_turn_def)
next
  case (Cons wi rest)
  define w where "w = (s_world s)\<lparr>w_egress := \<lparr>receiver_alive = True, queue = s_decrees s\<rparr>\<rparr>"
  note run = Cons w_def
  show ?thesis
    by (cases "god_step rt ar w wi";
        rule running[OF run] stopped[OF run] panicked[OF Cons]; simp add: god_turn_def Let_def Cons flip: w_def)
qed

lemma saving_answered:
  "serve_server ar w GetFilePath = Running w' \<Longrightarrow> file_path (g_config (w_god w)) = Some path \<Longrightarrow>
   w' = answer (FilePath (Inr path)) w"
  "file_path (g_config (w_god w)) = Some path \<Longrightarrow> serve_server ar w GetFilePath \<noteq> Stopped w'"
  "serve_server ar w c = Running w' \<Longrightarrow> c = GetFilePath"
  by (cases c; simp add: Let_def split: prod.splits)+

lemma saving_stopped:
  assumes "serve_server ar w (Save (dir @ bstr ''/'' @ db)) = Stopped w'"
    and "utf8_valid (dir @ bstr ''/'' @ db)" "disk_failure (w_disk w) (dir @ bstr ''/'' @ db) = None"
    and "\<And>soul contents. to_bytes ar soul = Inr contents \<Longrightarrow> from_bytes ar contents = Some soul"
  shows "w_god w' = w_god w \<and> disk_failure (w_disk w') = disk_failure (w_disk w) \<and>
    ((\<exists>err. to_bytes ar (g_soul (w_god w')) = Inl err) \<or> load_snapshot ar (w_disk w') dir db = g_soul (w_god w'))"
proof (cases "to_bytes ar (g_soul (w_god w))")
  case (Inl err)
  with assms(1) show ?thesis by (auto simp: soul_save_def answer_def)
next
  case (Inr contents)
  note save = save_then_load[OF Inr assms(4)[OF Inr] assms(2,3)]
  have "disk_failure (fst (soul_save ar (w_disk w) (g_soul (w_god w)) path)) = disk_failure (w_disk w)" for path
    by (auto simp: operations split: sum.splits option.splits)
  with assms(1) save show ?thesis by (auto simp: answer_def case_prod_unfold Let_def)
qed

lemma god_turn_saving:
  assumes "saving_wf ar dir db s" "utf8_valid (dir @ bstr ''/'' @ db)"
    and "\<And>soul contents. to_bytes ar soul = Inr contents \<Longrightarrow> from_bytes ar contents = Some soul"
  shows "saving_wf ar dir db (god_turn rt ar s)"
proof (cases rule: god_turn_cases[of rt ar s])
  case idle
  with assms(1) show ?thesis by simp
next
  case (panicked wi rest)
  with assms(1) show ?thesis by (simp add: saving_wf_def Let_def)
next
  case (running wi rest w w')
  have alive: "receiver_alive (s_temple s)" using assms(1) running(1) by (auto simp: saving_wf_def Let_def split: if_splits)
  show ?thesis
  proof (cases "wish_command wi")
    case (Client cc)
    have "receiver_alive (w_egress w)" by (simp add: running(2))
    from god_step_client_keeps[OF Client running(3) this] assms(1) alive Client show ?thesis
      unfolding running(4) by (simp add: saving_wf_def Let_def running(1,2) cong: interrupt.case_cong)
  next
    case (Server c)
    then have step: "serve_server ar w c = Running w'" using running(3) by (simp add: god_step_def)
    have path: "file_path (g_config (w_god w)) = Some (dir @ bstr ''/'' @ db)"
      using assms(1) by (simp add: saving_wf_def Let_def running(2))
    have c: "c = GetFilePath" using step by (rule saving_answered(3))
    from saving_answered(1)[OF step[unfolded c] path] assms(1) alive Server c show ?thesis
      unfolding running(4)
      by (auto simp: saving_wf_def Let_def running(1,2) answer_def split: interrupt.splits)
  qed
next
  case (stopped wi rest w w')
  have alive: "receiver_alive (s_temple s)" using assms(1) stopped(1) by (auto simp: saving_wf_def Let_def split: if_splits)
  obtain c where c: "wish_command wi = Server c"
    using stopped(3) god_step_client_runs[of wi _ rt ar w w'] by (cases "wish_command wi") auto
  then have step: "serve_server ar w c = Stopped w'" using stopped(3) by (simp add: god_step_def)
  have path: "file_path (g_config (w_god w)) = Some (dir @ bstr ''/'' @ db)"
    "disk_failure (w_disk w) (dir @ bstr ''/'' @ db) = None"
    using assms(1) by (simp_all add: saving_wf_def Let_def stopped(2))
  have "c \<noteq> GetFilePath" using step saving_answered(2)[OF path(1)] by auto
  then have "c = Save (dir @ bstr ''/'' @ db)"
    using assms(1) alive c stopped(1) by (auto simp: saving_wf_def Let_def split: interrupt.splits)
  from saving_stopped[OF step[unfolded this] assms(2) path(2) assms(3)] path show ?thesis
    unfolding stopped(4) by (auto simp add: saving_wf_def Let_def)
qed

lemma interrupt_turn_saving:
  assumes "saving_wf ar dir db s" "utf8_valid (dir @ bstr ''/'' @ db)"
  shows "saving_wf ar dir db (interrupt_turn s)"
proof (cases "receiver_alive (s_temple s)")
  case False
  have "s_temple (interrupt_turn s) = s_temple s" "s_world (interrupt_turn s) = s_world s"
    "s_god_panicked (interrupt_turn s) = s_god_panicked s"
    using False by (auto simp: interrupt_turn_def Let_def interrupt_done_def temple_save_ask_def temple_save_path_def
        split: interrupt.splits answer.splits sum.splits)
  with assms(1) False show ?thesis by (simp add: saving_wf_def Let_def)
next
  case alive: True
  show ?thesis
  proof (cases "s_interrupt s")
    case Resting
    with assms(1) alive show ?thesis by (simp add: saving_wf_def Let_def interrupt_turn_def temple_save_ask_def)
  next
    case (AwaitingPath m)
    show ?thesis
    proof (cases "m < length (w_answers (s_world s))")
      case True
      then have "w_answers (s_world s) ! m = FilePath (Inr (dir @ bstr ''/'' @ db))"
        using assms(1) alive by (simp add: saving_wf_def Let_def)
      with True AwaitingPath alive assms(2) have turn: "interrupt_turn s =
          s\<lparr>s_temple := (s_temple s)\<lparr>queue := queue (s_temple s) @
              [\<lparr>wish_token = SERVER, wish_command = Server (Save (dir @ bstr ''/'' @ db))\<rparr>]\<rparr>,
            s_interrupt := AwaitingSave (m + 1)\<rparr>"
        by (simp add: interrupt_turn_def Let_def temple_save_path_def)
      from True AwaitingPath alive assms(1) show ?thesis
        unfolding turn by (auto simp: saving_wf_def Let_def)
    next
      case False
      with AwaitingPath alive assms(1) show ?thesis by (simp add: interrupt_turn_def Let_def)
    qed
  next
    case (AwaitingSave m)
    with alive assms(1) show ?thesis by (simp add: interrupt_turn_def saving_wf_def Let_def)
  next
    case HandlerPanicked
    with alive assms(1) show ?thesis by (simp add: saving_wf_def Let_def)
  qed
qed

lemma reachable_saving:
  assumes "reachable rt ar s0 s" "saving_wf ar dir db s0" "utf8_valid (dir @ bstr ''/'' @ db)"
    and "\<And>soul contents. to_bytes ar soul = Inr contents \<Longrightarrow> from_bytes ar contents = Some soul"
  shows "saving_wf ar dir db s"
  using assms(1)
proof induction
  case (step s s')
  from step(3) step(4) show ?case
    by (cases rule: server_step.cases)
      (simp_all add: queue_saving sing_saving god_turn_saving[OF _ assms(3,4)] interrupt_turn_saving[OF _ assms(3)])
qed (rule assms(2))

subsection \<open>Who speaks with the server's token\<close>

text \<open>
  Clients' tokens start at one, so only the interrupt handler reports \<open>SERVER\<close>, and it does so after
  the god thread has ended.
\<close>

definition client_named :: "wish \<Rightarrow> bool" where
  "client_named w = (case wish_command w of Client _ \<Rightarrow> wish_token w \<noteq> SERVER | Server _ \<Rightarrow> True)"

definition reports_wf :: "server \<Rightarrow> bool" where
  "reports_wf s \<longleftrightarrow> list_all client_named (queue (s_temple s)) \<and>
     list_all (\<lambda>d. decree_token d \<noteq> SERVER) (s_decrees s) \<and>
     (SERVER \<in> set (s_lost s) \<or> s_exited s \<longrightarrow> \<not> receiver_alive (s_temple s))"

lemma interrupt_done_dead:
  assumes "saving_wf ar dir db s" "receiver_alive (s_temple s)" "utf8_valid (dir @ bstr ''/'' @ db)"
  shows "s_lost (interrupt_turn s) = s_lost s"
proof (cases "s_interrupt s")
  case (AwaitingPath m)
  show ?thesis
  proof (cases "m < length (w_answers (s_world s))")
    case True
    then have "w_answers (s_world s) ! m = FilePath (Inr (dir @ bstr ''/'' @ db))"
      using assms(1,2) by (simp add: saving_wf_def Let_def)
    then show ?thesis
      by (simp add: True AwaitingPath assms(2,3) interrupt_turn_def Let_def temple_save_path_def)
  qed (use assms AwaitingPath in \<open>simp add: interrupt_turn_def Let_def\<close>)
qed (use assms in \<open>simp_all add: interrupt_turn_def Let_def saving_wf_def\<close>)

lemma interrupt_turn_reports:
  assumes "reports_wf s" "saving_wf ar dir db s" "utf8_valid (dir @ bstr ''/'' @ db)"
  shows "reports_wf (interrupt_turn s)"
proof -
  have q: "list_all client_named (queue (s_temple (interrupt_turn s))) \<and> s_decrees (interrupt_turn s) = s_decrees s \<and>
      receiver_alive (s_temple (interrupt_turn s)) = receiver_alive (s_temple s) \<and>
      s_exited (interrupt_turn s) = s_exited s"
  proof (cases rule: interrupt_turn_cases[of s])
    case same
    with assms(1) show ?thesis by (simp add: reports_wf_def)
  next
    case finished
    with assms(1) show ?thesis by (simp add: reports_wf_def interrupt_done_def)
  next
    case (moved t i)
    have "list_all client_named (queue t) \<and> receiver_alive t = receiver_alive (s_temple s)"
      using moved(2) assms(1)
      by (auto simp: reports_wf_def handler_sends_def temple_save_ask_def send_def client_named_def split: if_splits)
    then show ?thesis unfolding moved(1) by simp
  qed
  with assms(1) q interrupt_done_dead[OF assms(2) _ assms(3)] show ?thesis by (auto simp: reports_wf_def)
qed

lemma god_turn_reports:
  assumes "reports_wf s"
  shows "reports_wf (god_turn rt ar s)"
proof (cases rule: god_turn_cases[of rt ar s])
  case (running wi rest w w')
  show ?thesis
  proof (cases "wish_command wi")
    case (Client cc)
    then have "wish_token wi \<noteq> SERVER" using assms running(1) by (simp add: reports_wf_def client_named_def)
    moreover have "receiver_alive (w_egress w)" by (simp add: running(2))
    ultimately show ?thesis using god_step_client_keeps[OF Client running(3)] assms
      unfolding running(4) by (auto simp: reports_wf_def running(1,2))
  next
    case (Server c)
    have "w_egress w' = w_egress w" using running(3) Server
      by (cases c) (auto simp: god_step_def answer_def Let_def split: option.splits prod.splits)
    with assms show ?thesis unfolding running(4) by (simp add: reports_wf_def running(1,2))
  qed
next
  case (stopped wi rest w w')
  obtain c where "wish_command wi = Server c"
    using stopped(3) god_step_client_runs[of wi _ rt ar w w'] by (cases "wish_command wi") auto
  then have "w_egress w' = w_egress w" using stopped(3)
    by (cases c) (auto simp: god_step_def answer_def Let_def split: option.splits prod.splits)
  with assms show ?thesis unfolding stopped(4) by (simp add: reports_wf_def stopped(2))
qed (use assms in \<open>simp_all add: reports_wf_def\<close>)

lemma egress_reports:
  "\<exists>ts. queue (e_tx (egress_step itoa e d)) = queue (e_tx e) @ ts \<and> set ts \<subseteq> {decree_token d}"
  by (cases d) (auto simp: send_def Let_def split: option.split prod.split sum.split)

lemma egress_turn_reports:
  assumes "reports_wf s"
  shows "reports_wf (egress_turn rt s)"
proof (cases "s_decrees s")
  case (Cons d ds)
  obtain ts where "s_lost (egress_turn rt s) = s_lost s @ ts" "set ts \<subseteq> {decree_token d}"
    using egress_reports[of "rt_itoa rt" "(s_egress s)\<lparr>e_tx := \<lparr>receiver_alive = True, queue = s_lost s\<rparr>\<rparr>" d]
    by (auto simp: egress_turn_def Cons Let_def)
  moreover have "s_decrees (egress_turn rt s) = ds" "s_temple (egress_turn rt s) = s_temple s"
    "s_exited (egress_turn rt s) = s_exited s"
    by (simp_all add: egress_turn_def Cons Let_def)
  ultimately show ?thesis using assms Cons by (auto simp: reports_wf_def)
qed (use assms in \<open>simp add: egress_turn_def\<close>)

lemma sing_reports:
  assumes "reports_wf s" "tokens_apart s"
  shows "reports_wf (sing i s)"
proof (cases rule: sing_cases[of i s])
  case (runs P so Q c t)
  obtain ws ds where g: "queue (a_temple (c_altar c)) = queue (s_temple s) @ ws" "list_all (\<lambda>w. wish_token w = so_token so) ws"
    "queue (a_egress (c_altar c)) = s_decrees s @ ds" "list_all (\<lambda>d. decree_token d = so_token so) ds"
    "receiver_alive (a_temple (c_altar c)) = receiver_alive (s_temple s)"
    using song_turn_grows[OF runs(2)] by (auto simp: altar_grows_def list_all_iff)
  have "so_token so \<noteq> SERVER"
    using assms(2) runs(1) by (auto simp: tokens_apart_def apart_def busy_def SERVER_def)
  with g assms(1) show ?thesis
    unfolding runs(3) by (cases t) (auto simp: reports_wf_def Let_def list_all_iff client_named_def split: command_type.splits)
qed (use assms in simp)

lemma queue_reports:
  assumes "reports_wf s" "tokens_apart s"
  shows "reports_wf (accept_pilgrim stream s)" "reports_wf (dispatch_event token s)" "reports_wf (take_back s)"
    "reports_wf (take_lost s)" "reports_wf (start_song reads clock s)"
  using assms
  by (auto simp: reports_wf_def accept_pilgrim_def dispatch_event_def take_back_def take_lost_def start_song_def Let_def
      tokens_apart_def apart_def SERVER_def split: option.splits list.splits)

lemma reachable_reports:
  assumes "reachable rt ar (server_start n w sks) s" "saving_wf ar dir db (server_start n w sks)"
    and "utf8_valid (dir @ bstr ''/'' @ db)"
    and "\<And>soul contents. to_bytes ar soul = Inr contents \<Longrightarrow> from_bytes ar contents = Some soul"
  shows "reports_wf s"
  using assms(1)
proof induction
  case init
  show ?case by (simp add: reports_wf_def server_start_def)
next
  case (step s s')
  note inv = step.IH reachable_tokens[OF step.hyps(1)]
  have "saving_wf ar dir db s" by (rule reachable_saving[OF step.hyps(1) assms(2-4)])
  with step.hyps(3) inv show ?case
    by (cases rule: server_step.cases)
      (simp_all add: queue_reports sing_reports god_turn_reports egress_turn_reports interrupt_turn_reports[OF _ _ assms(3)])
qed

lemma server_start_saving:
  assumes "file_path (g_config (w_god w)) = Some (dir @ bstr ''/'' @ db)" "w_answers w = []"
    and "disk_failure (w_disk w) (dir @ bstr ''/'' @ db) = None"
  shows "saving_wf ar dir db (server_start n w sks)"
  using assms by (simp add: saving_wf_def server_start_def)

text \<open>Once the process has exited, the god thread has ended, and it has ended by saving.\<close>

lemma exit_saved:
  assumes "reachable rt ar (server_start n w sks) s" "saving_wf ar dir db (server_start n w sks)"
    and "utf8_valid (dir @ bstr ''/'' @ db)"
    and "\<And>soul contents. to_bytes ar soul = Inr contents \<Longrightarrow> from_bytes ar contents = Some soul"
    and "s_exited s"
  shows "\<not> receiver_alive (s_temple s) \<and> (s_god_panicked s \<or> (\<exists>err. to_bytes ar (g_soul (w_god (s_world s))) = Inl err) \<or>
    load_snapshot ar (w_disk (s_world s)) dir db = g_soul (w_god (s_world s)))"
  using reachable_saving[OF assms(1-4)] reachable_reports[OF assms(1-4)] assms(5)
  by (simp add: saving_wf_def reports_wf_def Let_def)

end
