(* ===== verification/IngressStream.thy ===== *)
theory IngressStream
  imports IngressSpec
begin

section \<open>A turn depends only on what it reads\<close>

text \<open>
  \<open>IngressSpec\<close> compares the requests pending in a buffer and in the socket with those granted. Here
  the bytes to come are free: what a turn does is determined by the bytes it takes from the socket, so
  the buffer stands for the same requests whatever the peer sends next.
\<close>

subsection \<open>The bytes a turn takes\<close>

definition bytes_taken :: "read_result list \<Rightarrow> read_result list \<Rightarrow> bytes" where
  "bytes_taken rs rs' = take (length (stream_bytes rs) - length (stream_bytes rs')) (stream_bytes rs)"

lemma bytes_taken_eq: "stream_bytes rs = bs @ stream_bytes rs' \<Longrightarrow> bytes_taken rs rs' = bs"
  by (simp add: bytes_taken_def)

lemma stream_bytes_simps [simp]:
  "stream_bytes [] = []" "stream_bytes (Chunk bs # rs) = bs @ stream_bytes rs"
  "stream_bytes (WouldBlock # rs) = stream_bytes rs" "stream_bytes (Failed # rs) = stream_bytes rs"
  by (simp_all add: stream_bytes_def)

text \<open>
  \<open>redoes f c c' t\<close>: the step \<open>f\<close> from \<open>c\<close> to \<open>c'\<close> takes some bytes from the socket, and takes the
  same step from any socket that delivers these bytes and then others.
\<close>

definition redoes :: "(conn \<Rightarrow> conn \<times> turn) \<Rightarrow> conn \<Rightarrow> conn \<Rightarrow> turn \<Rightarrow> bool" where
  "redoes f c c' t \<longleftrightarrow>
     (\<exists>bs. stream_bytes (c_reads c) = bs @ stream_bytes (c_reads c') \<and>
       (\<forall>x. \<exists>rs rs'. stream_bytes rs = bs @ x \<and> stream_bytes rs' = x \<and>
          f (c\<lparr>c_reads := rs\<rparr>) = (c'\<lparr>c_reads := rs'\<rparr>, t)))"

lemma redoes_silent:
  assumes "c_reads c' = c_reads c" "\<And>rs. f (c\<lparr>c_reads := rs\<rparr>) = (c'\<lparr>c_reads := rs\<rparr>, t)"
  shows "redoes f c c' t"
proof -
  have "stream_bytes [Chunk x] = x \<and> f (c\<lparr>c_reads := [Chunk x]\<rparr>) = (c'\<lparr>c_reads := [Chunk x]\<rparr>, t)" for x
    by (simp add: assms(2))
  with assms(1) show ?thesis unfolding redoes_def by (metis append_Nil)
qed

lemma socket_read_again:
  assumes "socket_read rs space = (r, rs')"
  shows "\<exists>bs. stream_bytes rs = bs @ stream_bytes rs' \<and> (\<forall>x. \<exists>rs2 rs2'. stream_bytes rs2 = bs @ x \<and>
    stream_bytes rs2' = x \<and> socket_read rs2 space = (r, rs2'))"
proof -
  define bs where "bs = (case r of Chunk bs \<Rightarrow> bs | _ \<Rightarrow> [])"
  have "length bs \<le> space" using socket_read_fits[of rs space bs rs'] assms by (auto simp: bs_def split: read_result.split)
  then have "socket_read (r # rs2) space = (r, rs2)" "stream_bytes (r # rs2) = bs @ stream_bytes rs2" for rs2
    by (cases r; simp add: bs_def)+
  then have "\<exists>rs2 rs2'. stream_bytes rs2 = bs @ x \<and> stream_bytes rs2' = x \<and> socket_read rs2 space = (r, rs2')" for x
    by (intro exI[of _ "[r, Chunk x]"] exI[of _ "[Chunk x]"]) simp
  with socket_read_bytes[OF assms] show ?thesis unfolding bs_def[symmetric] by blast
qed

lemma await_again:
  assumes "await_bytes c = (c', t)"
  shows "redoes await_bytes c c' t"
proof (cases "\<exists>v u. make_room (c_virtue c) = Some (v, Inr u) \<and> \<not> v_write v > length (v_backlog v)")
  case False
  then show ?thesis using assms
    by (intro redoes_silent)
      (auto simp: await_bytes_def potentially_resize_and_read_def split: option.splits prod.splits sum.splits if_splits)
next
  case True
  then obtain v where m: "make_room (c_virtue c) = Some (v, Inr ())" "\<not> v_write v > length (v_backlog v)" by auto
  obtain r rs' where sr: "socket_read (c_reads c) (length (v_backlog v) - v_write v) = (r, rs')" by fastforce
  from socket_read_again[OF sr] obtain bs where bs: "stream_bytes (c_reads c) = bs @ stream_bytes rs'"
    and again: "\<And>x. \<exists>rs2 rs2'. stream_bytes rs2 = bs @ x \<and> stream_bytes rs2' = x \<and>
      socket_read rs2 (length (v_backlog v) - v_write v) = (r, rs2')" by blast
  have c': "c_reads c' = rs'" and redo: "socket_read rs2 (length (v_backlog v) - v_write v) = (r, rs2') \<Longrightarrow>
      await_bytes (c\<lparr>c_reads := rs2\<rparr>) = (c'\<lparr>c_reads := rs2'\<rparr>, t)" for rs2 rs2'
    using assms m sr by (auto simp: await_bytes_def potentially_resize_and_read_def split: read_result.splits if_splits)
  show ?thesis unfolding redoes_def c' using bs again redo by blast
qed

lemma redoes_from:
  assumes "redoes f d c' t" "c_reads d = c_reads c" "\<And>rs. g (c\<lparr>c_reads := rs\<rparr>) = f (d\<lparr>c_reads := rs\<rparr>)"
  shows "redoes g c c' t"
  using assms unfolding redoes_def by simp

lemma advance_reads: "advance n p (c\<lparr>c_reads := rs\<rparr>) = (advance n p c)\<lparr>c_reads := rs\<rparr>"
  by (simp add: advance_def)

lemma hand_over_reads:
  "hand_over token (c\<lparr>c_reads := rs\<rparr>) = (case hand_over token c of (c', t) \<Rightarrow> (c'\<lparr>c_reads := rs\<rparr>, t))"
  "hand_over token c = (c', t) \<Longrightarrow> c_reads c' = c_reads c"
  by (auto simp: hand_over_def split: option.splits)

lemma parse_step_again:
  assumes "parse_step token c w (v_phase (c_virtue c)) = (c', t)"
  shows "redoes (\<lambda>c. parse_step token c w (v_phase (c_virtue c))) c c' t"
proof (cases "v_phase (c_virtue c)")
  case Idle
  with assms show ?thesis by (intro redoes_silent) (auto simp: advance_reads split: if_splits)
next
  case AwaitingTermCount
  show ?thesis
  proof (cases "find_crlf w")
    case None
    with assms AwaitingTermCount show ?thesis
      by (intro redoes_from[OF await_again[of c]]) simp_all
  next
    case (Some i)
    with assms AwaitingTermCount show ?thesis
      by (intro redoes_silent) (auto simp: advance_def Let_def split: sum.splits)
  qed
next
  case GraspingMarker
  show ?thesis
  proof (cases "w ! 0 = 36")
    case True
    with assms GraspingMarker show ?thesis by (intro redoes_silent) (auto simp: advance_reads)
  next
    case False
    with assms GraspingMarker show ?thesis
      by (intro redoes_from[OF await_again[of "advance 1 GraspingMarker c"]]) (simp_all add: advance_reads)
  qed
next
  case AwaitingBulkStringLength
  show ?thesis
  proof (cases "find_crlf w")
    case None
    with assms AwaitingBulkStringLength show ?thesis
      by (intro redoes_from[OF await_again[of c]]) simp_all
  next
    case (Some i)
    with assms AwaitingBulkStringLength show ?thesis
      by (intro redoes_silent) (auto simp: advance_def Let_def split: sum.splits)
  qed
next
  case (AwaitingBulkString len)
  show ?thesis
  proof (cases "length w \<ge> usize_add len 2")
    case False
    with assms AwaitingBulkString show ?thesis
      by (intro redoes_from[OF await_again[of c]]) simp_all
  next
    case True
    define d where "d = advance (usize_add len 2) GraspingMarker
      (c\<lparr>c_virtue := (c_virtue c)\<lparr>v_terms := v_terms (c_virtue c) @ [take len w]\<rparr>\<rparr>)"
    have d: "c_reads d = c_reads c" "advance (usize_add len 2) GraspingMarker
      (c\<lparr>c_reads := rs, c_virtue := (c_virtue c)\<lparr>v_terms := v_terms (c_virtue c) @ [take len w]\<rparr>\<rparr>) = d\<lparr>c_reads := rs\<rparr>" for rs
      by (simp_all add: d_def advance_def)
    show ?thesis using assms AwaitingBulkString True d(1) hand_over_reads[where token = token and c = d]
      by (intro redoes_silent) (auto simp: Let_def d_def[symmetric] d(2) split: if_splits prod.splits)
  qed
qed

lemma wish_step_again: "wish_step token c = (c', t) \<Longrightarrow> redoes (wish_step token) c c' t"
proof -
  assume st: "wish_step token c = (c', t)"
  let ?v = "c_virtue c"
  let ?w = "take (v_write ?v - v_read ?v) (drop (v_read ?v) (v_backlog ?v))"
  show ?thesis
  proof (cases "\<not> slice_ok (v_read ?v) (v_write ?v) (v_backlog ?v) \<or> ?w = []")
    case True
    with st show ?thesis by (intro redoes_silent) (auto simp: wish_step_def Let_def split: if_splits)
  next
    case False
    with st have "parse_step token c ?w (v_phase (c_virtue c)) = (c', t)" by (simp add: wish_step_def Let_def)
    from parse_step_again[OF this] False show ?thesis
      by (elim redoes_from) (simp_all add: wish_step_def Let_def)
  qed
qed

subsection \<open>What a buffer stands for\<close>

text \<open>The requests a parser state makes of the bytes to come.\<close>

definition ahead :: "virtue \<Rightarrow> bytes \<Rightarrow> bytes list list" where
  "ahead v x = requests (v_phase v) (v_terms v) (v_expected v) (window v @ x)"

lemma ahead_conn: "conn_requests c = ahead (c_virtue c) (stream_bytes (c_reads c))"
  by (simp add: conn_requests_def ahead_def pending_def)

lemma ahead_new: "ahead virtue_new x = requests Idle [] 0 x"
  by (simp add: ahead_def virtue_new_def window_def)

definition reads_ahead :: "token \<Rightarrow> bytes list list \<Rightarrow> conn \<Rightarrow> conn \<Rightarrow> turn \<Rightarrow> bool" where
  "reads_ahead token done c c' t \<longleftrightarrow>
     (\<exists>bs. stream_bytes (c_reads c) = bs @ stream_bytes (c_reads c') \<and>
       (\<forall>x. \<exists>rest. ahead (c_virtue c) (bs @ x) = done @ rest \<and>
          (t = Continue \<or> t = Return \<longrightarrow> rest = ahead (c_virtue c') x)))"

lemma redoes_ahead:
  assumes again: "redoes f c c' t"
    and does: "\<And>rs rs'. f (c\<lparr>c_reads := rs\<rparr>) = (c'\<lparr>c_reads := rs'\<rparr>, t) \<Longrightarrow>
      turn_does token done (c\<lparr>c_reads := rs\<rparr>) (c'\<lparr>c_reads := rs'\<rparr>) t"
  shows "reads_ahead token done c c' t"
proof -
  obtain bs where bs: "stream_bytes (c_reads c) = bs @ stream_bytes (c_reads c')"
    and step: "\<And>x. \<exists>rs rs'. stream_bytes rs = bs @ x \<and> stream_bytes rs' = x \<and>
      f (c\<lparr>c_reads := rs\<rparr>) = (c'\<lparr>c_reads := rs'\<rparr>, t)"
    using again unfolding redoes_def by blast
  have "\<exists>rest. ahead (c_virtue c) (bs @ x) = done @ rest \<and> (t = Continue \<or> t = Return \<longrightarrow> rest = ahead (c_virtue c') x)" for x
  proof -
    obtain rs rs' where rs: "stream_bytes rs = bs @ x" "stream_bytes rs' = x"
      "f (c\<lparr>c_reads := rs\<rparr>) = (c'\<lparr>c_reads := rs'\<rparr>, t)" using step by blast
    from does[OF rs(3)] rs(1,2) show ?thesis by (auto simp: turn_does_def ahead_conn)
  qed
  with bs show ?thesis unfolding reads_ahead_def by blast
qed

lemma await_ahead:
  assumes "virtue_wf (c_virtue c)" "await_bytes c = (c', t)"
  shows "reads_ahead token [] c c' t"
proof (rule redoes_ahead[OF await_again[OF assms(2)]])
  fix rs rs'
  assume "await_bytes (c\<lparr>c_reads := rs\<rparr>) = (c'\<lparr>c_reads := rs'\<rparr>, t)"
  with await_turn[of "c\<lparr>c_reads := rs\<rparr>"] assms(1)
  show "turn_does token [] (c\<lparr>c_reads := rs\<rparr>) (c'\<lparr>c_reads := rs'\<rparr>) t" by fastforce
qed

lemma wish_step_ahead:
  assumes "virtue_wf (c_virtue c)" "wish_step token c = (c', t)" "t \<noteq> Crash"
  shows "reads_ahead token (handed c) c c' t"
proof (rule redoes_ahead[OF wish_step_again[OF assms(2)]])
  fix rs rs'
  assume "wish_step token (c\<lparr>c_reads := rs\<rparr>) = (c'\<lparr>c_reads := rs'\<rparr>, t)"
  from wish_step_does[OF _ this] assms(1,3)
  show "turn_does token (handed c) (c\<lparr>c_reads := rs\<rparr>) (c'\<lparr>c_reads := rs'\<rparr>) t"
    by (simp add: handed_def)
qed

end
