(* ===== verification/History.thy ===== *)
theory History
  imports Shutdown IngressStream "HOL-Library.Sublist"
begin

section \<open>Every execution is serial\<close>

text \<open>
  The god thread and the egress thread are the only owners of the key space and of the sockets. An
  execution is annotated with what went through their channels (the wishes sent and served, the decrees
  sent and written) and with what each connection's socket delivered and which requests its I/O threads
  completed. The invariant says that the channels are first in, first out, that the god thread's state
  is that of \<open>god_loop\<close> alone on the served wishes, and that the sockets hold what \<open>egress_loop\<close> writes
  for the written decrees, whatever the interleaving was.
\<close>

record history =
  h_sent :: "wish list"
  h_served :: "wish list"
  h_decreed :: "decree list"
  h_written :: "decree list"
  h_bytes :: "token \<Rightarrow> bytes"
  h_requests :: "token \<Rightarrow> bytes list list"

definition no_history :: history where
  "no_history = \<lparr>h_sent = [], h_served = [], h_decreed = [], h_written = [], h_bytes = (\<lambda>_. []), h_requests = (\<lambda>_. [])\<rparr>"

definition new_wishes :: "server \<Rightarrow> server \<Rightarrow> wish list" where
  "new_wishes s s' = drop (length (queue (s_temple s))) (queue (s_temple s'))"

definition new_decrees :: "server \<Rightarrow> server \<Rightarrow> decree list" where
  "new_decrees s s' = drop (length (s_decrees s)) (s_decrees s')"

text \<open>What a step sends.\<close>

definition after_step :: "history \<Rightarrow> server \<Rightarrow> server \<Rightarrow> history" where
  "after_step h s s' = h\<lparr>h_sent := h_sent h @ new_wishes s s', h_decreed := h_decreed h @ new_decrees s s'\<rparr>"

text \<open>The connection an I/O thread works on, the bytes it takes from the socket and the request it completes.\<close>

definition song_conn :: "server \<Rightarrow> song \<Rightarrow> conn" where
  "song_conn s so = (so_conn so)\<lparr>c_altar :=
     \<lparr>a_temple = s_temple s, a_egress = \<lparr>receiver_alive = True, queue = s_decrees s\<rparr>\<rparr>\<rparr>"

definition song_bytes :: "server \<Rightarrow> song \<Rightarrow> bytes" where
  "song_bytes s so = bytes_taken (c_reads (so_conn so)) (c_reads (fst (song_turn s so)))"

definition song_requests :: "server \<Rightarrow> song \<Rightarrow> bytes list list" where
  "song_requests s so = (if so_begun so then handed (song_conn s so) else [])"

definition after_song :: "history \<Rightarrow> server \<Rightarrow> song \<Rightarrow> history" where
  "after_song h s so = h\<lparr>h_bytes := (h_bytes h)(so_token so := h_bytes h (so_token so) @ song_bytes s so),
     h_requests := (h_requests h)(so_token so := h_requests h (so_token so) @ song_requests s so)\<rparr>"

text \<open>The steps of the event loop, of an angel that takes a job, and of the interrupt handler.\<close>

inductive outer_step :: "server \<Rightarrow> server \<Rightarrow> bool" where
  "stream \<notin> fmran' (e_map (s_egress s)) \<Longrightarrow> stream \<notin> set (welcome_streams (s_decrees s)) \<Longrightarrow>
    outer_step s (accept_pilgrim stream s)"
| "outer_step s (dispatch_event token s)"
| "outer_step s (take_back s)"
| "outer_step s (take_lost s)"
| "outer_step s (start_song reads clock s)"
| "outer_step s (interrupt_turn s)"

inductive recorded :: "runtime \<Rightarrow> archiver \<Rightarrow> server \<Rightarrow> history \<Rightarrow> server \<Rightarrow> bool" for rt ar s0 where
  begun: "recorded rt ar s0 no_history s0"
| served: "recorded rt ar s0 h s \<Longrightarrow> \<not> ended s \<Longrightarrow> queue (s_temple s) = wi # rest \<Longrightarrow>
    recorded rt ar s0 (h\<lparr>h_served := h_served h @ [wi],
        h_decreed := h_decreed h @ new_decrees s (god_turn rt ar s)\<rparr>) (god_turn rt ar s)"
| written: "recorded rt ar s0 h s \<Longrightarrow> \<not> ended s \<Longrightarrow> s_decrees s = d # rest \<Longrightarrow>
    recorded rt ar s0 (h\<lparr>h_written := h_written h @ [d]\<rparr>) (egress_turn rt s)"
| sang: "recorded rt ar s0 h s \<Longrightarrow> \<not> ended s \<Longrightarrow> i < length (s_singing s) \<Longrightarrow>
    recorded rt ar s0 (after_step (after_song h s (s_singing s ! i)) s (sing i s)) (sing i s)"
| outer: "recorded rt ar s0 h s \<Longrightarrow> \<not> ended s \<Longrightarrow> outer_step s s' \<Longrightarrow>
    recorded rt ar s0 (after_step h s s') s'"

subsection \<open>Every reachable state has a history\<close>

text \<open>A step of any thread but the two owners leaves them alone; it can only send.\<close>

definition quiet :: "server \<Rightarrow> server \<Rightarrow> bool" where
  "quiet s s' \<longleftrightarrow> prefix (queue (s_temple s)) (queue (s_temple s')) \<and> prefix (s_decrees s) (s_decrees s') \<and>
     receiver_alive (s_temple s') = receiver_alive (s_temple s) \<and>
     (receiver_alive (s_temple s) \<or> queue (s_temple s') = queue (s_temple s)) \<and> s_world s' = s_world s \<and>
     s_god_panicked s' = s_god_panicked s \<and> s_egress s' = s_egress s"

lemma quiet_refl [simp]: "quiet s s"
  by (simp add: quiet_def)

lemma sing_quiet: "quiet s (sing i s)"
proof (cases rule: sing_cases[of i s])
  case (runs P so Q c t)
  have "prefix (queue (s_temple s)) (queue (a_temple (c_altar c)))" "prefix (s_decrees s) (queue (a_egress (c_altar c)))"
    "receiver_alive (a_temple (c_altar c)) = receiver_alive (s_temple s)"
    "receiver_alive (s_temple s) \<or> queue (a_temple (c_altar c)) = queue (s_temple s)"
    using song_turn_grows[OF runs(2)] by (auto simp: altar_grows_def)
  then show ?thesis unfolding runs(3) by (cases t) (simp_all add: quiet_def Let_def)
qed simp

lemma interrupt_quiet: "quiet s (interrupt_turn s)"
proof (cases rule: interrupt_turn_cases[of s])
  case (moved t i)
  then show ?thesis unfolding moved(1) 
    by (auto simp: quiet_def handler_sends_def temple_save_ask_def send_def split: if_splits)
qed (simp_all add: interrupt_done_def quiet_def)

lemma outer_quiet: "outer_step s s' \<Longrightarrow> quiet s s'"
proof (induction rule: outer_step.induct)
  case (6 s)
  show ?case by (rule interrupt_quiet)
qed (simp_all add: quiet_def accept_pilgrim_def dispatch_event_def take_back_def take_lost_def start_song_def Let_def
    split: option.split list.split)

lemma server_step_cases:
  assumes "server_step rt ar s s'"
  obtains (god) "s' = god_turn rt ar s" | (egress) "s' = egress_turn rt s" | (song) i where "s' = sing i s"
    | (outer) "outer_step s s'"
  using assms by (cases rule: server_step.cases) (auto intro: outer_step.intros)

lemma outer_server_step: "outer_step s s' \<Longrightarrow> server_step rt ar s s'"
  by (cases rule: outer_step.cases) (auto intro: server_step.intros)

lemma reachable_recorded: "reachable rt ar s0 s \<Longrightarrow> \<exists>h. recorded rt ar s0 h s"
proof (induction rule: reachable.induct)
  case init
  then show ?case by (blast intro: begun)
next
  case (step s s')
  then obtain h where h: "recorded rt ar s0 h s" by blast
  from step.hyps(3) show ?case
  proof (cases rule: server_step_cases)
    case god
    with served[OF h step.hyps(2)] show ?thesis
      by (cases "queue (s_temple s)") (auto intro: h simp: god_turn_def)
  next
    case egress
    with written[OF h step.hyps(2)] show ?thesis
      by (cases "s_decrees s") (auto intro: h simp: egress_turn_def)
  next
    case (song i)
    with sang[OF h step.hyps(2)] show ?thesis
      by (cases "i < length (s_singing s)") (auto intro: h simp: sing_def)
  next
    case outer
    with recorded.outer[OF h step.hyps(2)] show ?thesis by blast
  qed
qed

lemma recorded_reachable: "recorded rt ar s0 h s \<Longrightarrow> reachable rt ar s0 s"
  by (induction rule: recorded.induct)
    (blast intro: reachable.intros god_served egress_wrote server_step.sang outer_server_step)+

subsection \<open>The owners do not look at what others have queued\<close>

definition open_on :: "'a list \<Rightarrow> 'a channel" where
  "open_on xs = \<lparr>receiver_alive = True, queue = xs\<rparr>"

lemma open_on_simps [simp]:
  "receiver_alive (open_on xs)" "queue (open_on xs) = xs" "open_on xs = open_on ys \<longleftrightarrow> xs = ys"
  "(open_on xs)\<lparr>queue := ys\<rparr> = open_on ys"
  by (simp_all add: open_on_def)

lemma open_on_fold: "\<lparr>receiver_alive = True, queue = xs\<rparr> = open_on xs"
  by (simp add: open_on_def)

lemma serve_client_oblivious:
  "\<exists>r. \<forall>q. serve_client rt g (open_on q) token cc = map_option (\<lambda>(g', d). (g', open_on (q @ [d]))) r"
proof (cases cc)
  case (Database cmd)
  show ?thesis
  proof (cases "token |\<in>| g_subscribed g")
    case True
    then show ?thesis
      by (intro exI[of _ "Some (g, Deliver \<lparr>gift_token = token, gift_response = Error SubscriberOnlyMode\<rparr>)"])
        (simp add: Database deliver_def)
  next
    case False
    then show ?thesis
      by (intro exI[of _ "map_option (\<lambda>(soul, response). (g\<lparr>g_soul := soul\<rparr>,
            Deliver \<lparr>gift_token = token, gift_response = response\<rparr>)) (serve_database rt (g_config g) (g_soul g) cmd)"])
        (simp add: Database deliver_def split: option.split)
  qed
next
  case (Broadcast bc)
  obtain g' d where "\<And>q. serve_broadcast rt g (open_on q) token bc = (g', open_on (q @ [d]))"
    by (cases bc) (simp_all add: deliver_def Let_def case_prod_unfold)
  then show ?thesis by (intro exI[of _ "Some (g', d)"]) (simp add: Broadcast)
qed

fun then_queued :: "decree list \<Rightarrow> (world \<times> decree list) progress \<Rightarrow> world progress" where
  "then_queued q (Running (w, ds)) = Running (w\<lparr>w_egress := open_on (q @ ds)\<rparr>)"
| "then_queued q (Stopped (w, ds)) = Stopped (w\<lparr>w_egress := open_on (q @ ds)\<rparr>)"
| "then_queued q Panicked = Panicked"

lemma god_step_oblivious: "\<exists>r. \<forall>q. god_step rt ar (w\<lparr>w_egress := open_on q\<rparr>) wi = then_queued q r"
proof (cases "wish_command wi")
  case (Client cc)
  obtain r where r: "\<And>q. serve_client rt (w_god w) (open_on q) (wish_token wi) cc =
      map_option (\<lambda>(g', d). (g', open_on (q @ [d]))) r"
    using serve_client_oblivious[of rt "w_god w" "wish_token wi" cc] by blast
  show ?thesis
    by (intro exI[of _ "case r of None \<Rightarrow> Panicked | Some (g', d) \<Rightarrow> Running (w\<lparr>w_god := g'\<rparr>, [d])"])
      (simp add: god_step_def Client r split: option.split prod.split)
next
  case (Server c)
  let ?p = "serve_server ar w c"
  have "god_step rt ar (w\<lparr>w_egress := open_on q\<rparr>) wi =
      then_queued q (case ?p of Running v \<Rightarrow> Running (v, []) | Stopped v \<Rightarrow> Stopped (v, []) | Panicked \<Rightarrow> Panicked)" for q
    by (cases c) (simp_all add: god_step_def Server Let_def answer_def split: option.split prod.split)
  then show ?thesis by blast
qed

lemma egress_step_oblivious:
  assumes "e_map e = e_map e'" "e_sockets e = e_sockets e'"
  shows "e_map (egress_step itoa e d) = e_map (egress_step itoa e' d) \<and>
    e_sockets (egress_step itoa e d) = e_sockets (egress_step itoa e' d)"
  using assms by (cases d) (simp_all add: Let_def split: option.split prod.split sum.split)

lemma god_loop_snoc:
  "god_loop rt ar w (ws @ [wi]) =
    (case god_loop rt ar w ws of Running w' \<Rightarrow> god_step rt ar w' wi | Stopped w' \<Rightarrow> Stopped w' | Panicked \<Rightarrow> Panicked)"
  by (induction rt ar w ws rule: god_loop.induct) (simp_all split: progress.split)

subsection \<open>The invariant\<close>

definition channels_fifo :: "history \<Rightarrow> server \<Rightarrow> bool" where
  "channels_fifo h s \<longleftrightarrow>
     (if receiver_alive (s_temple s) then h_sent h = h_served h @ queue (s_temple s)
      else queue (s_temple s) = [] \<and> prefix (h_served h) (h_sent h)) \<and>
     h_decreed h = h_written h @ s_decrees s"

definition god_serial :: "runtime \<Rightarrow> archiver \<Rightarrow> world \<Rightarrow> history \<Rightarrow> server \<Rightarrow> bool" where
  "god_serial rt ar w h s \<longleftrightarrow>
     (case god_loop rt ar (w\<lparr>w_egress := open_on []\<rparr>) (h_served h) of
        Running w' \<Rightarrow> receiver_alive (s_temple s) \<and> \<not> s_god_panicked s \<and>
          (\<exists>ds. w' = (s_world s)\<lparr>w_egress := open_on ds\<rparr> \<and> subseq ds (h_decreed h))
      | Stopped w' \<Rightarrow> \<not> receiver_alive (s_temple s) \<and> \<not> s_god_panicked s \<and>
          (\<exists>ds. w' = (s_world s)\<lparr>w_egress := open_on ds\<rparr> \<and> subseq ds (h_decreed h))
      | Panicked \<Rightarrow> \<not> receiver_alive (s_temple s) \<and> s_god_panicked s)"

definition egress_serial :: "runtime \<Rightarrow> egress_thread \<Rightarrow> history \<Rightarrow> server \<Rightarrow> bool" where
  "egress_serial rt e h s \<longleftrightarrow>
     e_map (s_egress s) = e_map (egress_loop (rt_itoa rt) e (h_written h)) \<and>
     e_sockets (s_egress s) = e_sockets (egress_loop (rt_itoa rt) e (h_written h))"

lemma god_serial_later:
  assumes "god_serial rt ar w h s" "h_served h' = h_served h" "h_decreed h' = h_decreed h @ xs"
    and "receiver_alive (s_temple s') = receiver_alive (s_temple s)" "s_world s' = s_world s"
    and "s_god_panicked s' = s_god_panicked s"
  shows "god_serial rt ar w h' s'"
proof -
  have "subseq ds (h_decreed h @ xs)" if "subseq ds (h_decreed h)" for ds
    using list_emb_append2[OF that, of "[]"] that by (simp add: list_emb_prefix)
  then have "(\<exists>ds. w' = (s_world s)\<lparr>w_egress := open_on ds\<rparr> \<and> subseq ds (h_decreed h)) \<Longrightarrow>
      \<exists>ds. w' = (s_world s)\<lparr>w_egress := open_on ds\<rparr> \<and> subseq ds (h_decreed h @ xs)" for w'
    by blast
  with assms(1) show ?thesis
    unfolding god_serial_def assms(2-6) by (cases "god_loop rt ar (w\<lparr>w_egress := open_on []\<rparr>) (h_served h)") simp_all
qed

lemma served_serial:
  assumes "god_serial rt ar w h s" "channels_fifo h s" "queue (s_temple s) = wi # rest"
  defines "s' \<equiv> god_turn rt ar s"
  defines "h' \<equiv> h\<lparr>h_served := h_served h @ [wi], h_decreed := h_decreed h @ new_decrees s s'\<rparr>"
  shows "god_serial rt ar w h' s' \<and> channels_fifo h' s' \<and> s_egress s' = s_egress s \<and> prefix (s_decrees s) (s_decrees s')"
proof -
  have alive: "receiver_alive (s_temple s)" using assms(2,3) by (auto simp: channels_fifo_def split: if_splits)
  then obtain ds where loop: "god_loop rt ar (w\<lparr>w_egress := open_on []\<rparr>) (h_served h) = Running ((s_world s)\<lparr>w_egress := open_on ds\<rparr>)"
    "subseq ds (h_decreed h)" "\<not> s_god_panicked s"
    using assms(1) by (auto simp: god_serial_def split: progress.splits)
  obtain r where r: "\<And>q. god_step rt ar ((s_world s)\<lparr>w_egress := open_on q\<rparr>) wi = then_queued q r"
    using god_step_oblivious[of rt ar "s_world s" wi] by blast
  have turn: "s' = (case then_queued (s_decrees s) r of
        Running w' \<Rightarrow> s\<lparr>s_temple := (s_temple s)\<lparr>queue := rest\<rparr>, s_world := w', s_decrees := queue (w_egress w')\<rparr>
      | Stopped w' \<Rightarrow> s\<lparr>s_temple := \<lparr>receiver_alive = False, queue = []\<rparr>, s_world := w', s_decrees := queue (w_egress w')\<rparr>
      | Panicked \<Rightarrow> s\<lparr>s_temple := \<lparr>receiver_alive = False, queue = []\<rparr>, s_god_panicked := True\<rparr>)"
    by (simp add: s'_def god_turn_def assms(3) Let_def open_on_fold r)
  have loop': "god_loop rt ar (w\<lparr>w_egress := open_on []\<rparr>) (h_served h @ [wi]) = then_queued ds r"
    by (simp add: god_loop_snoc loop(1) r)
  have sent: "h_sent h = h_served h @ wi # rest" "h_decreed h = h_written h @ s_decrees s"
    using assms(2,3) alive by (simp_all add: channels_fifo_def)
  have sub: "subseq (ds @ xs) (h_written h @ s_decrees s @ xs)" for xs
    using list_emb_append_mono[OF loop(2), of xs xs] by (simp add: sent(2))
  show ?thesis
  proof (cases r)
    case (Running x)
    with sent alive loop(2,3) show ?thesis
      by (cases x) (auto simp: god_serial_def channels_fifo_def loop' turn h'_def new_decrees_def intro: sub)
  next
    case (Stopped x)
    with sent loop(2,3) show ?thesis
      by (cases x) (auto simp: god_serial_def channels_fifo_def loop' turn h'_def new_decrees_def intro: sub)
  next
    case Panicked
    with sent show ?thesis by (auto simp: god_serial_def channels_fifo_def loop' turn h'_def new_decrees_def)
  qed
qed

lemma after_song_simps:
  "h_sent (after_song h s so) = h_sent h" "h_served (after_song h s so) = h_served h"
  "h_decreed (after_song h s so) = h_decreed h" "h_written (after_song h s so) = h_written h"
  by (simp_all add: after_song_def)

lemma quiet_serial:
  assumes "god_serial rt ar w h s" "channels_fifo h s" "egress_serial rt e h s" "quiet s s'"
  shows "god_serial rt ar w (after_step h s s') s' \<and> channels_fifo (after_step h s s') s' \<and>
    egress_serial rt e (after_step h s s') s'"
proof -
  from assms(4) have dead: "receiver_alive (s_temple s) \<or> new_wishes s s' = []" by (auto simp: quiet_def new_wishes_def)
  from assms(4) have q: "queue (s_temple s') = queue (s_temple s) @ new_wishes s s'"
    "s_decrees s' = s_decrees s @ new_decrees s s'"
    "receiver_alive (s_temple s') = receiver_alive (s_temple s)" "s_world s' = s_world s"
    "s_god_panicked s' = s_god_panicked s" "s_egress s' = s_egress s"
    by (auto simp: quiet_def new_wishes_def new_decrees_def prefix_def)
  have "god_serial rt ar w (after_step h s s') s'"
    by (rule god_serial_later[of _ _ _ h s _ "new_decrees s s'"]) (simp_all add: assms(1) q after_step_def)
  with assms(2,3) dead show ?thesis by (auto simp: channels_fifo_def egress_serial_def after_step_def q)
qed

lemma recorded_serial:
  "recorded rt ar (server_start n w sks) h s \<Longrightarrow>
   god_serial rt ar w h s \<and> channels_fifo h s \<and> egress_serial rt (s_egress (server_start n w sks)) h s"
proof (induction rule: recorded.induct)
  case begun
  show ?case
    by (simp add: no_history_def god_serial_def channels_fifo_def egress_serial_def egress_loop_def server_start_def)
      (intro exI[of _ "[]"], simp)
next
  case (served h s wi rest)
  with served_serial[of rt ar w h s wi rest] show ?case by (simp add: egress_serial_def)
next
  case (written h s d rest)
  let ?e = "(s_egress s)\<lparr>e_tx := \<lparr>receiver_alive = True, queue = s_lost s\<rparr>\<rparr>"
  let ?s = "egress_turn rt s"
  have s: "s_egress ?s = egress_step (rt_itoa rt) ?e d" "s_decrees ?s = rest" "s_temple ?s = s_temple s"
    "s_world ?s = s_world s" "s_god_panicked ?s = s_god_panicked s"
    by (simp_all add: egress_turn_def written.hyps(3) Let_def)
  have "god_serial rt ar w (h\<lparr>h_written := h_written h @ [d]\<rparr>) ?s"
    by (rule god_serial_later[of _ _ _ h s _ "[]"]) (simp_all add: written.IH s)
  moreover have "channels_fifo (h\<lparr>h_written := h_written h @ [d]\<rparr>) ?s"
    using written.IH written.hyps(3) by (simp add: channels_fifo_def s)
  moreover have "egress_serial rt (s_egress (server_start n w sks)) (h\<lparr>h_written := h_written h @ [d]\<rparr>) ?s"
    using written.IH egress_step_oblivious[of ?e "egress_loop (rt_itoa rt) (s_egress (server_start n w sks)) (h_written h)"]
    by (simp add: egress_serial_def egress_loop_def s)
  ultimately show ?case by blast
next
  case (sang h s i)
  let ?h = "after_song h s (s_singing s ! i)"
  have "god_serial rt ar w ?h s" "channels_fifo ?h s" "egress_serial rt (s_egress (server_start n w sks)) ?h s"
    using sang.IH unfolding god_serial_def channels_fifo_def egress_serial_def after_song_simps by blast+
  from quiet_serial[OF this sing_quiet] show ?case .
next
  case (outer h s s')
  from quiet_serial[OF _ _ _ outer_quiet[OF outer.hyps(3)]] outer.IH show ?case by blast
qed

end
