(* ===== verification/Sessions.thy ===== *)
theory Sessions
  imports History
begin

section \<open>Every client's session, through all threads\<close>

text \<open>
  A client's bytes pass through many calls of \<open>wish\<close> on changing I/O threads, its requests through the
  god thread or past it, its replies through the egress thread. Over the histories of \<open>History\<close>: the
  requests completed for a client are those in the bytes its socket delivered, and every one of them has
  a reply on its way or a wish in the god thread's queue.
\<close>

subsection \<open>Where a connection's parser state is\<close>

definition pilgrim_virtue :: "pilgrim \<Rightarrow> virtue" where
  "pilgrim_virtue p = (case p_virtue p of None \<Rightarrow> virtue_new | Some v \<Rightarrow> v)"

text \<open>
  The parser states of a token's connection: at rest in the event loop's map, in the choir's queue, on
  the way back or before the first read of a job; or, if \<open>all\<close>, in the middle of a job too.
\<close>

definition carried :: "bool \<Rightarrow> server \<Rightarrow> token \<Rightarrow> virtue \<Rightarrow> bool" where
  "carried all s t v \<longleftrightarrow>
     (\<exists>p. (fmlookup (s_ingress s) t = Some p \<or> (t, p) \<in> set (s_songs s) \<union> set (s_returned s)) \<and> v = pilgrim_virtue p) \<or>
     (\<exists>so \<in> set (s_singing s). (all \<or> \<not> so_begun so) \<and> so_token so = t \<and> v = c_virtue (so_conn so))"

abbreviation held :: "server \<Rightarrow> token \<Rightarrow> virtue \<Rightarrow> bool" where
  "held \<equiv> carried True"

abbreviation parked :: "server \<Rightarrow> token \<Rightarrow> virtue \<Rightarrow> bool" where
  "parked \<equiv> carried False"

lemma outer_held:
  assumes "outer_step s s'" "carried all s' t v"
  shows "carried all s t v \<or> t = s_counter s \<and> s_counter s' = Suc (s_counter s) \<and> v = virtue_new"
  using assms
proof (cases rule: outer_step.cases)
  case (1 stream)
  with assms(2) show ?thesis
    by (auto simp: carried_def accept_pilgrim_def Let_def pilgrim_virtue_def split: if_splits)
next
  case (2 token)
  with assms(2) show ?thesis by (auto simp: carried_def dispatch_event_def split: option.splits if_splits)
next
  case 3
  with assms(2) show ?thesis by (auto simp: carried_def take_back_def split: list.splits if_splits)
next
  case 4
  with assms(2) show ?thesis by (auto simp: carried_def take_lost_def split: list.splits if_splits)
next
  case (5 reads clock)
  show ?thesis
  proof (cases "s_songs s = [] \<or> s_angels s \<le> length (s_singing s)")
    case True
    with 5 assms(2) show ?thesis by (auto simp: start_song_def split: list.splits)
  next
    case False
    then obtain tok p rest where songs: "s_songs s = (tok, p) # rest" by (cases "s_songs s") auto
    with False 5 obtain so where "s' = s\<lparr>s_songs := rest, s_singing := s_singing s @ [so]\<rparr>" "so_token so = tok"
      "c_virtue (so_conn so) = pilgrim_virtue p"
      by (simp add: start_song_def Let_def pilgrim_virtue_def)
    with assms(2) songs show ?thesis by (auto simp: carried_def)
  qed
next
  case 6
  with assms(2) show ?thesis
    by (cases rule: interrupt_turn_cases[of s]) (auto simp: carried_def interrupt_done_def)
qed

lemma outer_counter: "outer_step s s' \<Longrightarrow> s_counter s \<le> s_counter s'"
  by (cases rule: outer_step.cases)
    (auto simp: accept_pilgrim_def dispatch_event_def take_back_def take_lost_def start_song_def Let_def
      interrupt_done_def split: option.splits list.splits intro: interrupt_turn_cases[of s])

lemma owner_held:
  "carried all (god_turn rt ar s) t v = carried all s t v" "s_counter (god_turn rt ar s) = s_counter s"
  "carried all (egress_turn rt s) t v = carried all s t v" "s_counter (egress_turn rt s) = s_counter s"
  by (simp_all add: carried_def god_turn_def egress_turn_def Let_def split: list.split progress.split)

lemma fst_in: "(a, b) \<in> set xs \<Longrightarrow> a \<in> fst ` set xs"
  by force

lemma held_token: "tokens_apart s \<Longrightarrow> held s t v \<Longrightarrow> t \<noteq> SERVER \<and> t < s_counter s"
proof -
  assume "tokens_apart s" "held s t v"
  from \<open>held s t v\<close> have "(\<exists>p. fmlookup (s_ingress s) t = Some p) \<or> t \<in> set (busy s)"
    by (auto simp: carried_def busy_def dest: fst_in)
  with \<open>tokens_apart s\<close> show ?thesis by (auto simp: tokens_apart_def apart_def SERVER_def)
qed

text \<open>After a turn of a job its connection is still held unless the turn failed; the others are as before.\<close>

lemma sing_held:
  assumes "tokens_apart s" "i < length (s_singing s)" "song_turn s (s_singing s ! i) = (c, tt)" "held (sing i s) t v"
  shows "(t \<noteq> so_token (s_singing s ! i) \<and> held s t v) \<or>
    (t = so_token (s_singing s ! i) \<and> v = c_virtue c \<and> (tt = Continue \<or> tt = Return))"
proof -
  obtain P so Q c1 t1 where runs: "s_singing s = P @ so # Q" "song_turn s so = (c1, t1)"
    "sing i s =
      (let s1 = s\<lparr>s_temple := a_temple (c_altar c1), s_decrees := queue (a_egress (c_altar c1))\<rparr>
       in case t1 of
            Continue \<Rightarrow> s1\<lparr>s_singing := P @ so\<lparr>so_begun := True, so_conn := c1\<rparr> # Q\<rparr>
          | Return \<Rightarrow> s1\<lparr>s_singing := P @ Q,
              s_returned := s_returned s @ [(so_token so, (so_pilgrim so)\<lparr>p_virtue := Some (c_virtue c1)\<rparr>)]\<rparr>
          | Fall _ \<Rightarrow> s1\<lparr>s_singing := P @ Q, s_decrees := s_decrees s1 @ [Goodbye (so_token so)]\<rparr>
          | Crash \<Rightarrow> s1\<lparr>s_singing := P @ Q, s_angels := s_angels s - 1\<rparr>)"
    "so = s_singing s ! i"
    using sing_runs[OF assms(2)] .
  have eq: "c1 = c" "t1 = tt" using runs(2,4) assms(3) by simp_all
  let ?t = "so_token so"
  have "distinct (busy s)" "\<forall>t \<in> set (busy s). fmlookup (s_ingress s) t = None"
    using apart_distinct[OF assms(1)[unfolded tokens_apart_def]] by simp_all
  then have e: "?t \<notin> so_token ` set (P @ Q)" and d: "(?t, p) \<notin> set (s_songs s)" "(?t, p) \<notin> set (s_returned s)"
    "fmlookup (s_ingress s) ?t = None" for p
    by (auto simp: busy_def runs(1) dest: fst_in)
  from e have e: "so_token q \<noteq> ?t" if "q \<in> set P \<or> q \<in> set Q" for q
    using that by (metis Un_iff image_eqI set_append)
  have s': "s_ingress (sing i s) = s_ingress s" "s_songs (sing i s) = s_songs s"
    "s_returned (sing i s) = s_returned s @ (if tt = Return then [(?t, (so_pilgrim so)\<lparr>p_virtue := Some (c_virtue c)\<rparr>)] else [])"
    "s_singing (sing i s) = P @ (if tt = Continue then [so\<lparr>so_begun := True, so_conn := c\<rparr>] else []) @ Q"
    unfolding runs(3) eq by (cases tt; simp add: Let_def)+
  show ?thesis
  proof (cases "t = ?t")
    case True
    with assms(4) d e show ?thesis
      unfolding carried_def s' runs(4)[symmetric] by (auto simp: pilgrim_virtue_def split: if_splits)
  next
    case False
    with assms(4) show ?thesis
      unfolding runs(4)[symmetric] carried_def s' by (auto simp: runs(1) split: if_splits)
  qed
qed

subsection \<open>The requests of a session\<close>

definition sessions_ok :: "history \<Rightarrow> server \<Rightarrow> bool" where
  "sessions_ok h s \<longleftrightarrow>
     (\<forall>t v. held s t v \<longrightarrow> (\<forall>x. requests Idle [] 0 (h_bytes h t @ x) = h_requests h t @ ahead v x)) \<and>
     (\<forall>t. prefix (h_requests h t) (requests Idle [] 0 (h_bytes h t))) \<and>
     (\<forall>t \<ge> s_counter s. h_bytes h t = [] \<and> h_requests h t = [])"

lemma song_conn_turn:
  "song_turn s so = (if so_begun so then wish_step (so_token so) (song_conn s so) else await_bytes (song_conn s so))"
  by (simp add: song_turn_def song_conn_def Let_def)

lemma song_conn_simps [simp]:
  "c_virtue (song_conn s so) = c_virtue (so_conn so)" "c_reads (song_conn s so) = c_reads (so_conn so)"
  by (simp_all add: song_conn_def)

lemma song_ahead:
  assumes "virtue_wf (c_virtue (so_conn so))" "song_turn s so = (c, tt)"
  shows "\<exists>rest. ahead (c_virtue (so_conn so)) (song_bytes s so @ x) = song_requests s so @ rest \<and>
    (tt = Continue \<or> tt = Return \<longrightarrow> rest = ahead (c_virtue c) x)"
proof (cases "tt = Crash")
  case True
  have begun: "so_begun so"
    using assms await_turn[of "song_conn s so"] True by (fastforce simp: song_conn_turn split: if_splits)
  with assms wish_step_does[of "song_conn s so"] True have "c = song_conn s so" "handed (song_conn s so) = []"
    by (auto simp: song_conn_turn)
  with begun assms(2) True show ?thesis by (simp add: song_requests_def)
next
  case False
  have "reads_ahead (so_token so) (song_requests s so) (song_conn s so) c tt"
    using assms False await_ahead[of "song_conn s so" c tt] wish_step_ahead[of "song_conn s so" "so_token so" c tt]
    by (auto simp: song_conn_turn song_requests_def split: if_splits)
  then show ?thesis
    using assms(2) by (auto simp: reads_ahead_def song_bytes_def bytes_taken_eq)
qed

lemma after_simps:
  "h_bytes (after_step h s s') = h_bytes h" "h_requests (after_step h s s') = h_requests h"
  by (simp_all add: after_step_def)

lemma sing_counter: "s_counter (sing i s) = s_counter s"
  by (simp add: sing_def Let_def split: prod.split turn.split)

lemma sing_sessions:
  assumes ok: "sessions_ok h s" and wf: "tokens_apart s" "virtues_wf s" and i: "i < length (s_singing s)"
  shows "sessions_ok (after_song h s (s_singing s ! i)) (sing i s)"
proof -
  let ?so = "s_singing s ! i"
  let ?h = "after_song h s ?so"
  obtain c tt where turn: "song_turn s ?so = (c, tt)" by fastforce
  have so: "?so \<in> set (s_singing s)" using i by simp
  then have v: "held s (so_token ?so) (c_virtue (so_conn ?so))" by (auto simp: carried_def)
  have vwf: "virtue_wf (c_virtue (so_conn ?so))" using wf(2) so by (simp add: virtues_wf_def)
  note ahead = song_ahead[OF vwf turn]
  have same: "h_bytes ?h t = h_bytes h t" "h_requests ?h t = h_requests h t" if "t \<noteq> so_token ?so" for t
    using that by (simp_all add: after_song_def)
  have mine: "h_bytes ?h (so_token ?so) = h_bytes h (so_token ?so) @ song_bytes s ?so"
    "h_requests ?h (so_token ?so) = h_requests h (so_token ?so) @ song_requests s ?so"
    by (simp_all add: after_song_def)
  have step: "\<exists>rest. requests Idle [] 0 (h_bytes ?h (so_token ?so) @ x) = h_requests ?h (so_token ?so) @ rest \<and>
      (tt = Continue \<or> tt = Return \<longrightarrow> rest = ahead (c_virtue c) x)" for x
    using ok v ahead[of x] unfolding sessions_ok_def mine by (metis append.assoc)
  have "requests Idle [] 0 (h_bytes ?h t @ x) = h_requests ?h t @ ahead v' x" if "held (sing i s) t v'" for t v' x
    using sing_held[OF wf(1) i turn that] step[of x] ok same[of t] unfolding sessions_ok_def by auto
  moreover have "prefix (h_requests ?h t) (requests Idle [] 0 (h_bytes ?h t))" for t
    using step[of "[]"] ok same[of t] unfolding sessions_ok_def by (cases "t = so_token ?so") auto
  moreover have "h_bytes ?h t = [] \<and> h_requests ?h t = []" if "s_counter s \<le> t" for t
    using held_token[OF wf(1) v] ok that same[of t] unfolding sessions_ok_def by (cases "t = so_token ?so") auto
  ultimately show ?thesis unfolding sessions_ok_def sing_counter by blast
qed

lemma outer_sessions:
  assumes "sessions_ok h s" "outer_step s s'"
  shows "sessions_ok h s'"
  unfolding sessions_ok_def
proof (intro conjI allI impI)
  fix t v x
  assume "held s' t v"
  from outer_held[OF assms(2) this] assms(1)
  show "requests Idle [] 0 (h_bytes h t @ x) = h_requests h t @ ahead v x"
    unfolding sessions_ok_def by (auto simp: ahead_new)
qed (use assms(1) outer_counter[OF assms(2)] in \<open>auto simp: sessions_ok_def\<close>)

lemma recorded_sessions: "recorded rt ar (server_start n w sks) h s \<Longrightarrow> sessions_ok h s"
proof (induction rule: recorded.induct)
  case begun
  show ?case by (simp add: sessions_ok_def carried_def server_start_def no_history_def)
next
  case (served h s wi rest)
  then show ?case by (simp add: sessions_ok_def owner_held)
next
  case (written h s d rest)
  then show ?case by (simp add: sessions_ok_def owner_held)
next
  case (sang h s i)
  note r = recorded_reachable[OF sang.hyps(1)]
  from sing_sessions[OF sang.IH reachable_tokens[OF r] reachable_virtues[OF r] sang.hyps(3)] show ?case
    by (simp add: sessions_ok_def after_simps)
next
  case (outer h s s')
  from outer_sessions[OF outer.IH outer.hyps(3)] show ?case by (simp add: sessions_ok_def after_simps)
qed

subsection \<open>What a call of \<open>wish\<close> leaves behind\<close>

lemma read_blocked:
  assumes "potentially_resize_and_read v rs = Some (v', rs', Inr True)" "buffer_wf v"
  shows "window v' = window v \<and> v_terms v' = v_terms v \<and> v_expected v' = v_expected v \<and> v_phase v' = v_phase v"
proof -
  obtain v1 e where m: "make_room v = Some (v1, e)" "window v1 = window v" "v_terms v1 = v_terms v"
    "v_expected v1 = v_expected v" "v_phase v1 = v_phase v" using make_room_wf[OF assms(2)] by blast
  from assms(1) m(1) have "v' = v1"
    by (auto simp: potentially_resize_and_read_def split: sum.splits prod.splits read_result.splits if_splits)
  with m show ?thesis by simp
qed

text \<open>
  A call of \<open>wish\<close> returns when the socket has no more bytes and no complete request is left in the
  buffer, except behind bytes it skips in search of a \<open>$\<close>: there one byte is skipped per read.
\<close>

definition drained :: "virtue \<Rightarrow> bool" where
  "drained v \<longleftrightarrow> v_phase v = GraspingMarker \<or> ahead v [] = []"

lemma await_drained:
  assumes "await_bytes c = (c', Return)" "buffer_wf (c_virtue c)" "drained (c_virtue c)"
  shows "drained (c_virtue c')"
proof -
  from assms(1) obtain rs' where "potentially_resize_and_read (c_virtue c) (c_reads c) = Some (c_virtue c', rs', Inr True)"
    by (auto simp: await_bytes_def split: option.splits prod.splits sum.splits bool.splits)
  from read_blocked[OF this assms(2)] assms(3) show ?thesis by (simp add: drained_def ahead_def)
qed

lemma usize_add_le: "usize_add m n \<le> m + n"
  by (simp add: usize_add_def)

lemma wish_step_drained:
  assumes "wish_step token c = (c', Return)" "virtue_wf (c_virtue c)"
  shows "drained (c_virtue c')"
proof -
  let ?v = "c_virtue c"
  have wf: "buffer_wf ?v" using assms(2) by (simp add: virtue_wf_def)
  have w: "take (v_write ?v - v_read ?v) (drop (v_read ?v) (v_backlog ?v)) = window ?v" by (simp add: window_def)
  show ?thesis
  proof (cases "window ?v = []")
    case True
    then show ?thesis using assms(1) by (auto simp: wish_step_def Let_def w drained_def ahead_def split: if_splits)
  next
    case False
    then have step: "parse_step token c (window ?v) (v_phase ?v) = (c', Return)"
      using assms(1) by (auto simp: wish_step_def Let_def w split: if_splits)
    have again: ?thesis if "await_bytes c = (c', Return)" "ahead ?v [] = []"
      using await_drained[OF that(1) wf] that(2) by (simp add: drained_def)
    obtain b bs where win: "window ?v = b # bs" using False by (cases "window ?v") auto
    show ?thesis
    proof (cases "v_phase ?v")
      case Idle
      with step show ?thesis by (simp split: if_splits)
    next
      case AwaitingTermCount
      with step show ?thesis
        by (auto intro!: again simp: ahead_def win split: option.splits sum.splits if_splits)
    next
      case GraspingMarker
      then have "v_phase (c_virtue (advance 1 GraspingMarker c)) = GraspingMarker" by simp
      then have "drained (c_virtue (advance 1 GraspingMarker c))" by (simp only: drained_def simp_thms)
      moreover from step GraspingMarker have "await_bytes (advance 1 GraspingMarker c) = (c', Return)"
        by (simp split: if_splits)
      moreover have "buffer_wf (c_virtue (advance 1 GraspingMarker c))"
        using window_advance(2)[OF wf, of 1] False by (cases "window ?v") auto
      ultimately show ?thesis by (auto intro: await_drained)
    next
      case AwaitingBulkStringLength
      with step show ?thesis
        by (auto intro!: again simp: ahead_def win split: option.splits sum.splits if_splits)
    next
      case (AwaitingBulkString len)
      show ?thesis
      proof (cases "length (window ?v) \<ge> usize_add len 2")
        case True
        with step AwaitingBulkString show ?thesis
          by (auto simp: Let_def hand_over_def split: if_splits option.splits)
      next
        case False
        then have "length (window ?v) < len + 2" using usize_add_le[of len 2] by linarith
        moreover have "await_bytes c = (c', Return)" using step AwaitingBulkString False by simp
        ultimately show ?thesis using AwaitingBulkString win by (intro again) (simp_all add: ahead_def)
      qed
    qed
  qed
qed

subsection \<open>Connections at rest\<close>

lemma parked_held: "parked s t v \<Longrightarrow> held s t v"
  by (auto simp: carried_def)

lemma sing_parked:
  assumes "virtues_wf s" "\<And>t v. parked s t v \<Longrightarrow> drained v" "i < length (s_singing s)" "parked (sing i s) t v"
  shows "drained v"
proof (rule sing_runs[OF assms(3)])
  fix P so Q c tt
  assume runs: "s_singing s = P @ so # Q" "song_turn s so = (c, tt)"
    "sing i s =
      (let s1 = s\<lparr>s_temple := a_temple (c_altar c), s_decrees := queue (a_egress (c_altar c))\<rparr>
       in case tt of
            Continue \<Rightarrow> s1\<lparr>s_singing := P @ so\<lparr>so_begun := True, so_conn := c\<rparr> # Q\<rparr>
          | Return \<Rightarrow> s1\<lparr>s_singing := P @ Q,
              s_returned := s_returned s @ [(so_token so, (so_pilgrim so)\<lparr>p_virtue := Some (c_virtue c)\<rparr>)]\<rparr>
          | Fall _ \<Rightarrow> s1\<lparr>s_singing := P @ Q, s_decrees := s_decrees s1 @ [Goodbye (so_token so)]\<rparr>
          | Crash \<Rightarrow> s1\<lparr>s_singing := P @ Q, s_angels := s_angels s - 1\<rparr>)"
  have wf: "virtue_wf (c_virtue (so_conn so))" using assms(1) by (simp add: virtues_wf_def runs(1))
  have "drained (c_virtue c)" if "tt = Return"
  proof (cases "so_begun so")
    case True
    with runs(2) that wf show ?thesis
      by (auto simp: song_conn_turn intro: wish_step_drained[of "so_token so" "song_conn s so"])
  next
    case False
    then have "drained (c_virtue (so_conn so))" by (intro assms(2)) (auto simp: carried_def runs(1))
    with False runs(2) that wf show ?thesis
      by (auto simp: song_conn_turn virtue_wf_def intro: await_drained[of "song_conn s so"])
  qed
  moreover have "parked s t v \<or> tt = Return \<and> v = c_virtue c" using assms(4) unfolding runs(3)
    by (cases tt) (auto simp: carried_def runs(1) Let_def pilgrim_virtue_def)
  ultimately show ?thesis using assms(2) by auto
qed

lemma drained_new: "drained virtue_new"
  by (simp add: drained_def ahead_new)

lemma recorded_drained:
  "recorded rt ar (server_start n w sks) h s \<Longrightarrow> parked s t v \<Longrightarrow> drained v"
proof (induction arbitrary: t v rule: recorded.induct)
  case begun
  then show ?case by (simp add: carried_def server_start_def)
next
  case (served h s wi rest)
  then show ?case by (simp add: owner_held)
next
  case (written h s d rest)
  then show ?case by (simp add: owner_held)
next
  case (sang h s i)
  from sing_parked[OF reachable_virtues[OF recorded_reachable[OF sang.hyps(1)]] sang.IH sang.hyps(3) sang.prems]
  show ?case .
next
  case (outer h s s')
  from outer_held[OF outer.hyps(3) outer.prems] outer.IH drained_new show ?case by blast
qed

text \<open>At rest, a connection has had all its requests granted.\<close>

lemma parked_granted:
  assumes "recorded rt ar (server_start n w sks) h s" "parked s t v" "v_phase v \<noteq> GraspingMarker"
  shows "requests Idle [] 0 (h_bytes h t) = h_requests h t"
proof -
  have "requests Idle [] 0 (h_bytes h t @ []) = h_requests h t @ ahead v []"
    using recorded_sessions[OF assms(1)] parked_held[OF assms(2)] unfolding sessions_ok_def by blast
  moreover have "ahead v [] = []" using recorded_drained[OF assms(1,2)] assms(3) by (simp add: drained_def)
  ultimately show ?thesis by simp
qed

end
