(* ===== verification/Accounts.thy ===== *)
theory Accounts
  imports Sessions
begin

section \<open>Requests and replies in balance\<close>

text \<open>
  A request costs the program one reply (two for a \<open>LINDEX\<close> with a wrong number of terms). In every
  history the replies decreed for a client and its wishes still in the god thread's queue make up the
  replies its requests are due: exactly, while the god thread lives, and never more.
\<close>

definition replies_due :: "bytes list \<Rightarrow> nat" where
  "replies_due terms = (if lindex_arity_ok terms then 1 else 2)"

definition due :: "history \<Rightarrow> token \<Rightarrow> nat" where
  "due h t = sum_list (map replies_due (h_requests h t))"

definition replies_to :: "token \<Rightarrow> decree list \<Rightarrow> nat" where
  "replies_to t ds = length (filter (\<lambda>d. carries d \<and> decree_token d = t) ds)"

definition wishes_of :: "token \<Rightarrow> wish list \<Rightarrow> nat" where
  "wishes_of t ws = length (filter (\<lambda>w. wish_token w = t) ws)"

lemma replies_to_simps [simp]:
  "replies_to t [] = 0" "replies_to t (ds @ es) = replies_to t ds + replies_to t es"
  "replies_to t (d # ds) = (if carries d \<and> decree_token d = t then 1 else 0) + replies_to t ds"
  by (simp_all add: replies_to_def)

lemma wishes_of_simps [simp]:
  "wishes_of t [] = 0" "wishes_of t (ws @ vs) = wishes_of t ws + wishes_of t vs"
  "wishes_of t (w # ws) = (if wish_token w = t then 1 else 0) + wishes_of t ws"
  by (simp_all add: wishes_of_def)

lemma all_mine:
  "list_all (\<lambda>w. wish_token w = token) ws \<Longrightarrow> wishes_of t ws = (if t = token then length ws else 0)"
  "list_all (\<lambda>d. carries d \<and> decree_token d = token) ds \<Longrightarrow> replies_to t ds = (if t = token then length ds else 0)"
  by (induction ws, simp_all) (induction ds, simp_all)

subsection \<open>What a handler adds\<close>

definition altar_adds :: "token \<Rightarrow> nat \<Rightarrow> altar \<Rightarrow> altar \<Rightarrow> bool" where
  "altar_adds token n a a' \<longleftrightarrow>
     (\<exists>ws ds. queue (a_temple a') = queue (a_temple a) @ ws \<and> queue (a_egress a') = queue (a_egress a) @ ds \<and>
        list_all (\<lambda>w. wish_token w = token) ws \<and> list_all (\<lambda>d. carries d \<and> decree_token d = token) ds \<and>
        length ws + length ds \<le> n \<and> (receiver_alive (a_temple a) \<longrightarrow> length ws + length ds = n)) \<and>
     receiver_alive (a_temple a') = receiver_alive (a_temple a) \<and> receiver_alive (a_egress a')"

lemma altar_adds_0: "receiver_alive (a_egress a) \<Longrightarrow> altar_adds token 0 a a"
  by (auto simp: altar_adds_def)

lemma altar_adds_trans:
  assumes "altar_adds token m a b" "altar_adds token n b c"
  shows "altar_adds token (m + n) a c"
proof -
  obtain ws ds where 1: "queue (a_temple b) = queue (a_temple a) @ ws" "queue (a_egress b) = queue (a_egress a) @ ds"
    "list_all (\<lambda>w. wish_token w = token) ws" "list_all (\<lambda>d. carries d \<and> decree_token d = token) ds"
    "length ws + length ds \<le> m" "receiver_alive (a_temple a) \<longrightarrow> length ws + length ds = m"
    "receiver_alive (a_temple b) = receiver_alive (a_temple a)"
    using assms(1) by (auto simp: altar_adds_def)
  obtain vs es where 2: "queue (a_temple c) = queue (a_temple b) @ vs" "queue (a_egress c) = queue (a_egress b) @ es"
    "list_all (\<lambda>w. wish_token w = token) vs" "list_all (\<lambda>d. carries d \<and> decree_token d = token) es"
    "length vs + length es \<le> n" "receiver_alive (a_temple b) \<longrightarrow> length vs + length es = n"
    "receiver_alive (a_temple c) = receiver_alive (a_temple b)" "receiver_alive (a_egress c)"
    using assms(2) by (auto simp: altar_adds_def)
  from 1 2 show ?thesis
    unfolding altar_adds_def by (intro conjI exI[of _ "ws @ vs"] exI[of _ "ds @ es"]) auto
qed

lemma answered_adds:
  assumes "answered now token a a'" "receiver_alive (a_egress a)"
  shows "altar_adds token 1 a a'"
proof -
  from assms(1) consider (wish) cc where "a' = pray (\<lambda>t. temple_send t token cc) a" | (reply) r where "a' = respond token r a"
    by (auto simp: answered_def)
  then show ?thesis
  proof cases
    case wish
    with assms(2) show ?thesis
      by (cases "receiver_alive (a_temple a)") (auto simp: altar_adds_def pray_def temple_send_def)
  next
    case reply
    with assms(2) show ?thesis
      by (auto simp: altar_adds_def respond_def deliver_def)
  qed
qed

lemma grant_adds:
  assumes "grant now terms token a = Some a'" "terms \<noteq> []" "receiver_alive (a_egress a)"
  shows "altar_adds token (replies_due terms) a a'"
proof (cases "lindex_arity_ok terms")
  case True
  with grant_answers[OF assms(2) True, of now token a] assms(1,3) answered_adds show ?thesis
    by (auto simp: replies_due_def)
next
  case False
  then have l: "eq_ignore_ascii_case (hd terms) (bstr ''LINDEX'')" "length terms \<noteq> 3" by (auto simp: lindex_arity_ok_def)
  let ?b = "refuse token (IncorrectNumberOfArguments LINDEX) a"
  have "a' = grant_lindex now terms token a"
    using assms(1,2) dispatch_case[OF l(1)] by (auto simp: grant_def dispatch_lindex split: list.splits)
  with lindex_wrong_arity[OF l(2) assms(3), of now token] have step: "answered now token ?b a'" by simp
  have "receiver_alive (a_egress ?b)" using assms(3) by (simp add: refuse_def respond_def deliver_def)
  from altar_adds_trans[OF answered_adds[OF answered_refuse assms(3)] answered_adds[OF step this]] False
  show ?thesis by (simp add: replies_due_def numeral_2_eq_2)
qed

subsection \<open>What a turn of a job adds\<close>

text \<open>A turn changes the channels as granting the requests recorded for it does, and by nothing else.\<close>

lemma song_grants:
  assumes "virtue_wf (c_virtue (so_conn so))" "song_turn s so = (c, tt)"
  shows "grants (so_token so) (song_requests s so) (song_conn s so) c"
proof -
  consider (await) "\<not> so_begun so" "await_bytes (song_conn s so) = (c, tt)"
    | (crash) "so_begun so" "c = song_conn s so" "handed (song_conn s so) = []"
    | (step) "so_begun so" "grants (so_token so) (handed (song_conn s so)) (song_conn s so) c"
    using assms wish_step_does[of "song_conn s so" "so_token so" c tt]
    by (auto simp: song_conn_turn turn_does_def split: if_splits)
  then show ?thesis
  proof cases
    case await
    have "virtue_wf (c_virtue (song_conn s so))" using assms(1) by simp
    from await_turn[OF this refl refl refl await(2), of "so_token so"] await(1) show ?thesis
      by (simp add: song_requests_def turn_does_def)
  qed (simp_all add: song_requests_def grants_refl)
qed

lemma song_requests_cases:
  obtains "song_requests s so = []" | terms where "song_requests s so = [terms]" "terms \<noteq> []"
proof -
  have "handed c = [] \<or> (\<exists>terms. handed c = [terms] \<and> terms \<noteq> [])" for c
    by (simp add: handed_def Let_def split: phase.split)
  from this[of "song_conn s so"] that show ?thesis by (cases "so_begun so") (auto simp: song_requests_def)
qed

lemma song_adds:
  assumes "virtue_wf (c_virtue (so_conn so))" "song_turn s so = (c, tt)"
  shows "altar_adds (so_token so) (sum_list (map replies_due (song_requests s so))) (c_altar (song_conn s so)) (c_altar c)"
proof (cases rule: song_requests_cases[of s so])
  case 1
  have "receiver_alive (a_egress (c_altar (song_conn s so)))" by (simp add: song_conn_def)
  moreover have "c_altar c = c_altar (song_conn s so)" using song_grants[OF assms] 1 by (simp add: grants_def)
  ultimately show ?thesis using 1 altar_adds_0 by simp
next
  case (2 terms)
  with song_grants[OF assms] obtain now where
    g: "grant now terms (so_token so) (c_altar (song_conn s so)) = Some (c_altar c)"
    by (auto simp: grants_def split: option.splits)
  have "receiver_alive (a_egress (c_altar (song_conn s so)))" by (simp add: song_conn_def)
  from grant_adds[OF g 2(2) this] 2(1) show ?thesis by simp
qed

text \<open>The same of a whole turn in the server, with the goodbye of a connection that failed.\<close>

lemma sing_grants:
  assumes "virtues_wf s" "i < length (s_singing s)"
  defines "so \<equiv> s_singing s ! i"
  shows "\<exists>a clock. grant_all (so_token so) (song_requests s so)
      (\<lparr>a_temple = s_temple s, a_egress = \<lparr>receiver_alive = True, queue = s_decrees s\<rparr>\<rparr>, c_clock (so_conn so)) = Some (a, clock) \<and>
    s_temple (sing i s) = a_temple a \<and>
    (s_decrees (sing i s) = queue (a_egress a) \<or> s_decrees (sing i s) = queue (a_egress a) @ [Goodbye (so_token so)])"
proof -
  obtain c tt where turn: "song_turn s so = (c, tt)" by fastforce
  have "virtue_wf (c_virtue (so_conn so))" using assms(1,2) by (simp add: virtues_wf_def so_def)
  from song_grants[OF this turn] show ?thesis
    using assms(2) turn
    by (cases tt) (auto simp: grants_def song_conn_def sing_def Let_def simp flip: so_def)
qed

subsection \<open>The balance\<close>

definition server_named :: "wish \<Rightarrow> bool" where
  "server_named w = (case wish_command w of Server _ \<Rightarrow> wish_token w = SERVER | Client _ \<Rightarrow> True)"

definition balanced :: "history \<Rightarrow> server \<Rightarrow> bool" where
  "balanced h s \<longleftrightarrow> list_all server_named (queue (s_temple s)) \<and> (\<forall>t. t \<noteq> SERVER \<longrightarrow>
     replies_to t (h_decreed h) + wishes_of t (queue (s_temple s)) \<le> due h t \<and>
     (receiver_alive (s_temple s) \<longrightarrow> replies_to t (h_decreed h) + wishes_of t (queue (s_temple s)) = due h t))"

lemma serve_client_reply:
  assumes "serve_client rt g (open_on q) token cc = Some (g', tx')"
  shows "\<exists>d. tx' = open_on (q @ [d]) \<and> decree_token d = token \<and> carries d"
proof (cases cc)
  case (Database cmd)
  with assms show ?thesis by (auto simp: deliver_def split: if_splits option.splits)
next
  case (Broadcast bc)
  with assms show ?thesis by (cases bc) (auto simp: deliver_def Let_def case_prod_unfold)
qed

lemma server_step_silent:
  "wish_command wi = Server c \<Longrightarrow> god_step rt ar w wi = Running w' \<or> god_step rt ar w wi = Stopped w' \<Longrightarrow>
   w_egress w' = w_egress w"
  by (cases c) (auto simp: god_step_def answer_def Let_def split: option.splits prod.splits)

lemma god_turn_balanced:
  assumes "balanced h s" "queue (s_temple s) = wi # rest" "receiver_alive (s_temple s)"
  shows "balanced (h\<lparr>h_served := h_served h @ [wi], h_decreed := h_decreed h @ new_decrees s (god_turn rt ar s)\<rparr>) (god_turn rt ar s)"
proof (cases rule: god_turn_cases[of rt ar s])
  case (running wi' rest' w w')
  with assms(2) have r: "wi' = wi" "rest' = rest" by simp_all
  have w: "w_egress w = open_on (s_decrees s)" by (simp add: running(2) open_on_fold)
  have named: "server_named wi" using assms(1,2) by (simp add: balanced_def)
  have "\<exists>ds. queue (w_egress w') = s_decrees s @ ds \<and> (\<forall>t. t \<noteq> SERVER \<longrightarrow> replies_to t ds = wishes_of t [wi])"
  proof (cases "wish_command wi")
    case (Client cc)
    with running(3) r obtain g tx where "serve_client rt (w_god w) (open_on (s_decrees s)) (wish_token wi) cc = Some (g, tx)"
      "w' = w\<lparr>w_god := g, w_egress := tx\<rparr>" by (auto simp: god_step_def w split: option.splits)
    with serve_client_reply show ?thesis by fastforce
  next
    case (Server c)
    with server_step_silent[of wi c rt ar w w'] running(3) r named w show ?thesis by (auto simp: server_named_def)
  qed
  then obtain ds where ds: "queue (w_egress w') = s_decrees s @ ds"
    "\<And>t. t \<noteq> SERVER \<Longrightarrow> replies_to t ds = wishes_of t [wi]" by blast
  have "s_temple (god_turn rt ar s) = (s_temple s)\<lparr>queue := rest\<rparr>" "new_decrees s (god_turn rt ar s) = ds"
    unfolding running(4) r by (simp_all add: new_decrees_def ds(1))
  with assms ds(2) show ?thesis by (auto simp: balanced_def due_def)
next
  case (stopped wi' rest' w w')
  obtain c where "wish_command wi' = Server c"
    using stopped(3) god_step_client_runs[of wi' _ rt ar w w'] by (cases "wish_command wi'") auto
  with server_step_silent stopped(3) have "w_egress w' = w_egress w" by blast
  then have "new_decrees s (god_turn rt ar s) = []" unfolding stopped(4) by (simp add: new_decrees_def stopped(2))
  moreover have "s_temple (god_turn rt ar s) = \<lparr>receiver_alive = False, queue = []\<rparr>" unfolding stopped(4) by simp
  ultimately show ?thesis using assms by (auto simp: balanced_def due_def)
next
  case (panicked wi' rest')
  have "new_decrees s (god_turn rt ar s) = []" "s_temple (god_turn rt ar s) = \<lparr>receiver_alive = False, queue = []\<rparr>"
    unfolding panicked(2) by (simp_all add: new_decrees_def)
  with assms show ?thesis by (auto simp: balanced_def due_def)
qed (use assms in simp)

lemma sing_balanced:
  assumes "balanced h s" "virtues_wf s" "i < length (s_singing s)"
  shows "balanced (after_step (after_song h s (s_singing s ! i)) s (sing i s)) (sing i s)"
proof (rule sing_runs[OF assms(3)])
  fix P so Q c tt
  assume runs: "s_singing s = P @ so # Q" "song_turn s so = (c, tt)"
    "sing i s =
      (let s1 = s\<lparr>s_temple := a_temple (c_altar c), s_decrees := queue (a_egress (c_altar c))\<rparr>
       in case tt of
            Continue \<Rightarrow> s1\<lparr>s_singing := P @ so\<lparr>so_begun := True, so_conn := c\<rparr> # Q\<rparr>
          | Return \<Rightarrow> s1\<lparr>s_singing := P @ Q,
              s_returned := s_returned s @ [(so_token so, (so_pilgrim so)\<lparr>p_virtue := Some (c_virtue c)\<rparr>)]\<rparr>
          | Fall _ \<Rightarrow> s1\<lparr>s_singing := P @ Q, s_decrees := s_decrees s1 @ [Goodbye (so_token so)]\<rparr>
          | Crash \<Rightarrow> s1\<lparr>s_singing := P @ Q, s_angels := s_angels s - 1\<rparr>)"
    "so = s_singing s ! i"
  have "virtue_wf (c_virtue (so_conn so))" using assms(2) by (simp add: virtues_wf_def runs(1))
  from song_adds[OF this runs(2)] obtain ws ds where adds:
    "queue (a_temple (c_altar c)) = queue (s_temple s) @ ws" "queue (a_egress (c_altar c)) = s_decrees s @ ds"
    "list_all (\<lambda>w. wish_token w = so_token so) ws" "list_all (\<lambda>d. carries d \<and> decree_token d = so_token so) ds"
    "length ws + length ds \<le> sum_list (map replies_due (song_requests s so))"
    "receiver_alive (s_temple s) \<longrightarrow> length ws + length ds = sum_list (map replies_due (song_requests s so))"
    "receiver_alive (a_temple (c_altar c)) = receiver_alive (s_temple s)"
    by (auto simp: altar_adds_def song_conn_def)
  have "list_all client_wish ws"
    using song_turn_grows[OF runs(2)] adds(1) by (auto simp: altar_grows_def list_all_iff)
  then have named: "list_all server_named ws"
    by (auto simp: list_all_iff client_wish_def server_named_def split: command_type.splits)
  obtain es where es: "s_decrees (sing i s) = s_decrees s @ ds @ es" "replies_to t es = 0" for t
    unfolding runs(3) by (cases tt) (auto simp: Let_def adds(2))
  have t': "s_temple (sing i s) = a_temple (c_altar c)" unfolding runs(3) by (cases tt) (simp_all add: Let_def)
  have due: "due (after_step (after_song h s so) s (sing i s)) t =
      due h t + (if t = so_token so then sum_list (map replies_due (song_requests s so)) else 0)" for t
    by (simp add: due_def after_simps after_song_def)
  have sent: "replies_to t (h_decreed (after_step (after_song h s so) s (sing i s))) =
      replies_to t (h_decreed h) + (if t = so_token so then length ds else 0)" for t
    using all_mine(2)[OF adds(4), of t] es by (simp add: after_step_def after_song_def new_decrees_def)
  have wait: "wishes_of t (queue (s_temple (sing i s))) =
      wishes_of t (queue (s_temple s)) + (if t = so_token so then length ws else 0)" for t
    using all_mine(1)[OF adds(3), of t] by (simp add: t' adds(1))
  show ?thesis
    using assms(1) named adds(5-7) unfolding balanced_def runs(4)[symmetric] due sent wait
    by (auto simp: t' adds(1))
qed

lemma outer_balanced:
  assumes "balanced h s" "outer_step s s'"
  shows "balanced (after_step h s s') s'"
proof -
  have "\<exists>ws ds. queue (s_temple s') = queue (s_temple s) @ ws \<and> s_decrees s' = s_decrees s @ ds \<and>
      list_all (\<lambda>w. server_named w \<and> wish_token w = SERVER) ws \<and> (\<forall>t. replies_to t ds = 0) \<and>
      receiver_alive (s_temple s') = receiver_alive (s_temple s)"
    using assms(2)
  proof (cases rule: outer_step.cases)
    case 6
    show ?thesis
    proof (cases rule: interrupt_turn_cases[of s])
      case (moved t i)
      then show ?thesis unfolding 6 moved(1)
        by (auto simp: handler_sends_def temple_save_ask_def send_def server_named_def)
    qed (simp_all add: 6 interrupt_done_def)
  qed (auto simp: accept_pilgrim_def dispatch_event_def take_back_def take_lost_def start_song_def Let_def
      split: option.split list.split)
  then obtain ws ds where n: "queue (s_temple s') = queue (s_temple s) @ ws" "s_decrees s' = s_decrees s @ ds"
    "list_all (\<lambda>w. server_named w \<and> wish_token w = SERVER) ws" "\<And>t. replies_to t ds = 0"
    "receiver_alive (s_temple s') = receiver_alive (s_temple s)" by blast
  have "wishes_of t ws = 0" if "t \<noteq> SERVER" for t
    using all_mine(1)[of SERVER ws t] n(3) that by (simp add: list_all_iff)
  moreover have "list_all server_named ws" using n(3) by (simp add: list_all_iff)
  ultimately show ?thesis
    using assms(1) n(1,2,4,5) by (simp add: balanced_def after_step_def due_def new_decrees_def)
qed

lemma recorded_balanced: "recorded rt ar (server_start n w sks) h s \<Longrightarrow> balanced h s"
proof (induction rule: recorded.induct)
  case begun
  show ?case by (simp add: balanced_def server_start_def no_history_def due_def)
next
  case (served h s wi rest)
  have "receiver_alive (s_temple s)"
    using recorded_serial[OF served.hyps(1)] served.hyps(3) by (auto simp: channels_fifo_def split: if_splits)
  from god_turn_balanced[OF served.IH served.hyps(3) this] show ?case .
next
  case (written h s d rest)
  have "s_temple (egress_turn rt s) = s_temple s" by (simp add: egress_turn_def Let_def split: list.split)
  with written.IH show ?case by (simp add: balanced_def due_def)
next
  case (sang h s i)
  from sing_balanced[OF sang.IH reachable_virtues[OF recorded_reachable[OF sang.hyps(1)]] sang.hyps(3)] show ?case .
next
  case (outer h s s')
  from outer_balanced[OF outer.IH outer.hyps(3)] show ?case .
qed

end
