(* ===== verification/Routes.thy ===== *)
theory Routes
  imports Accounts
begin

section \<open>From a connection to its socket\<close>

text \<open>
  A client's requests are read in one thread and its replies are written in another, which know each
  other's half of the connection only by its token. Here the two halves are kept together: a token is
  the name of one connection for ever, its stream is announced to the egress thread once, before any
  reply to it and until the connection is given up, and what is on its socket is what the decrees mean
  for it, in the order of the channel.
\<close>

text \<open>The stream a connection is read from: in the event loop's map, as a job or on the way back.\<close>

definition connection :: "server \<Rightarrow> token \<Rightarrow> stream \<Rightarrow> bool" where
  "connection s t stream \<longleftrightarrow>
     (\<exists>p. (fmlookup (s_ingress s) t = Some p \<or> (t, p) \<in> set (s_songs s) \<union> set (s_returned s)) \<and> p_stream p = stream) \<or>
     (\<exists>so \<in> set (s_singing s). so_token so = t \<and> p_stream (so_pilgrim so) = stream)"

lemma outer_connection:
  assumes "outer_step s s'" "connection s' t stream"
  shows "connection s t stream \<or> t = s_counter s \<and> s' = accept_pilgrim stream s"
  using assms
proof (cases rule: outer_step.cases)
  case (1 st)
  with assms(2) show ?thesis by (auto simp: connection_def accept_pilgrim_def Let_def split: if_splits)
next
  case (2 token)
  with assms(2) show ?thesis by (auto simp: connection_def dispatch_event_def split: option.splits if_splits)
next
  case 3
  with assms(2) show ?thesis by (auto simp: connection_def take_back_def split: list.splits if_splits)
next
  case 4
  with assms(2) show ?thesis by (auto simp: connection_def take_lost_def split: list.splits if_splits)
next
  case (5 reads clock)
  show ?thesis
  proof (cases "s_songs s = [] \<or> s_angels s \<le> length (s_singing s)")
    case True
    with 5 assms(2) show ?thesis by (auto simp: start_song_def split: list.splits)
  next
    case False
    then obtain tok p rest where songs: "s_songs s = (tok, p) # rest" by (cases "s_songs s") auto
    with False 5 obtain so where "s' = s\<lparr>s_songs := rest, s_singing := s_singing s @ [so]\<rparr>" "so_token so = tok"
      "so_pilgrim so = p"
      by (simp add: start_song_def Let_def)
    with assms(2) songs show ?thesis by (auto simp: connection_def)
  qed
next
  case 6
  with assms(2) show ?thesis
    by (cases rule: interrupt_turn_cases[of s]) (auto simp: connection_def interrupt_done_def)
qed

lemma owner_connection:
  "connection (god_turn rt ar s) = connection s" "connection (egress_turn rt s) = connection s"
  by (intro ext, simp add: connection_def god_turn_def egress_turn_def Let_def split: list.split progress.split)+

text \<open>A job keeps its connection, or says goodbye to it, or is lost with it.\<close>

lemma sing_connection:
  assumes "connection (sing i s) t stream"
  shows "connection s t stream"
proof (cases rule: sing_cases[of i s])
  case (runs P so Q c tt)
  from assms show ?thesis unfolding runs(3)
    by (cases tt) (auto simp: connection_def runs(1) Let_def)
qed (use assms in simp)

lemma connection_busy: "connection s t stream \<Longrightarrow> (\<exists>p. fmlookup (s_ingress s) t = Some p) \<or> t \<in> set (busy s)"
  by (auto simp: connection_def busy_def dest: fst_in)

lemma connection_named: "tokens_apart s \<Longrightarrow> connection s t stream \<Longrightarrow> t \<noteq> SERVER \<and> t < s_counter s"
  using connection_busy[of s t stream] by (auto simp: tokens_apart_def apart_def SERVER_def)

lemma server_step_connection:
  assumes "server_step rt ar s s'"
  shows "s_counter s \<le> s_counter s'" "connection s' t stream \<Longrightarrow> connection s t stream \<or> s_counter s \<le> t"
  using assms outer_connection[of s s' t stream] outer_counter[of s s']
  by (cases rule: server_step_cases; auto simp: owner_held owner_connection sing_counter dest: sing_connection)+

text \<open>A token that has been given away never names another connection.\<close>

lemma tokens_not_reused:
  "reachable rt ar s s' \<Longrightarrow> s_counter s \<le> s_counter s' \<and> (connection s' t stream \<longrightarrow> connection s t stream \<or> s_counter s \<le> t)"
proof (induction rule: reachable.induct)
  case (step s1 s2)
  from server_step_connection(1)[OF step.hyps(3)] server_step_connection(2)[OF step.hyps(3), of t stream] step.IH
  show ?case by auto
qed simp

subsection \<open>What the threads send\<close>

text \<open>The god thread's new decrees reply to the client of the wish; the handler of interrupts gets none.\<close>

lemma god_turn_sends:
  assumes "queue (s_temple s) = wi # rest"
  shows "\<exists>ds. s_decrees (god_turn rt ar s) = s_decrees s @ ds \<and>
    (\<forall>d \<in> set ds. carries d \<and> decree_token d = wish_token wi \<and> (\<exists>cc. wish_command wi = Client cc)) \<and>
    set (queue (s_temple (god_turn rt ar s))) \<subseteq> set rest"
proof (cases rule: god_turn_cases[of rt ar s])
  case (running wi' rest' w w')
  with assms have r: "wi' = wi" "rest' = rest" by simp_all
  have w: "w_egress w = open_on (s_decrees s)" by (simp add: running(2) open_on_fold)
  have "\<exists>ds. queue (w_egress w') = s_decrees s @ ds \<and>
      (\<forall>d \<in> set ds. carries d \<and> decree_token d = wish_token wi \<and> (\<exists>cc. wish_command wi = Client cc))"
  proof (cases "wish_command wi")
    case (Client cc)
    with running(3) r obtain g tx where "serve_client rt (w_god w) (open_on (s_decrees s)) (wish_token wi) cc = Some (g, tx)"
      "w' = w\<lparr>w_god := g, w_egress := tx\<rparr>" by (auto simp: god_step_def w split: option.splits)
    with serve_client_reply Client show ?thesis by fastforce
  next
    case (Server c)
    with server_step_silent[of wi c rt ar w w'] running(3) r w show ?thesis by simp
  qed
  then show ?thesis unfolding running(4) r by auto
next
  case (stopped wi' rest' w w')
  obtain c where "wish_command wi' = Server c"
    using stopped(3) god_step_client_runs[of wi' _ rt ar w w'] by (cases "wish_command wi'") auto
  with server_step_silent stopped(3) have "w_egress w' = w_egress w" by blast
  then show ?thesis unfolding stopped(4) by (simp add: stopped(2))
next
  case (panicked wi' rest')
  then show ?thesis unfolding panicked(2) by simp
qed (use assms in simp)

text \<open>
  A turn of a job sends wishes and replies for its own client; it says goodbye exactly when it gives the
  connection up, so a connection that is still there has had none.
\<close>

lemma song_sends:
  assumes "tokens_apart s" "i < length (s_singing s)"
  defines "tok \<equiv> so_token (s_singing s ! i)"
  shows "\<exists>ws ds es. queue (s_temple (sing i s)) = queue (s_temple s) @ ws \<and>
    (\<forall>w \<in> set ws. client_wish w \<and> wish_token w = tok) \<and>
    s_decrees (sing i s) = s_decrees s @ ds @ es \<and> (\<forall>d \<in> set ds. carries d \<and> decree_token d = tok) \<and>
    (es = [] \<or> es = [Goodbye tok] \<and> (\<forall>stream. \<not> connection (sing i s) tok stream))"
proof (rule sing_runs[OF assms(2)])
  fix P so Q c tt
  assume runs: "s_singing s = P @ so # Q" "song_turn s so = (c, tt)"
    "sing i s =
      (let s1 = s\<lparr>s_temple := a_temple (c_altar c), s_decrees := queue (a_egress (c_altar c))\<rparr>
       in case tt of
            Continue \<Rightarrow> s1\<lparr>s_singing := P @ so\<lparr>so_begun := True, so_conn := c\<rparr> # Q\<rparr>
          | Return \<Rightarrow> s1\<lparr>s_singing := P @ Q,
              s_returned := s_returned s @ [(so_token so, (so_pilgrim so)\<lparr>p_virtue := Some (c_virtue c)\<rparr>)]\<rparr>
          | Fall _ \<Rightarrow> s1\<lparr>s_singing := P @ Q, s_decrees := s_decrees s1 @ [Goodbye (so_token so)]\<rparr>
          | Crash \<Rightarrow> s1\<lparr>s_singing := P @ Q, s_angels := s_angels s - 1\<rparr>)"
    "so = s_singing s ! i"
  have tok: "so_token so = tok" by (simp add: tok_def runs(4))
  obtain ws ds where sent: "queue (a_temple (c_altar c)) = queue (s_temple s) @ ws"
    "\<forall>w \<in> set ws. client_wish w \<and> wish_token w = tok"
    "queue (a_egress (c_altar c)) = s_decrees s @ ds" "\<forall>d \<in> set ds. carries d \<and> decree_token d = tok"
    using song_turn_grows[OF runs(2)] unfolding tok by (auto simp: altar_grows_def list_all_iff)
  have gone: "\<not> connection (sing i s) tok stream" if "tt = Fall e" for e stream
  proof
    assume c: "connection (sing i s) tok stream"
    have "set (busy (sing i s)) = set (map fst (s_songs s) @ map so_token (P @ Q) @ map fst (s_returned s))"
      "s_ingress (sing i s) = s_ingress s"
      unfolding runs(3) that by (simp_all add: busy_def Let_def)
    moreover have "tok \<notin> set (map fst (s_songs s) @ map so_token (P @ Q) @ map fst (s_returned s))"
      "fmlookup (s_ingress s) tok = None"
      using apart_distinct[OF assms(1)[unfolded tokens_apart_def]] tok by (auto simp: busy_def runs(1))
    ultimately show False using connection_busy[OF c] by simp
  qed
  have "queue (s_temple (sing i s)) = queue (s_temple s) @ ws" unfolding runs(3) by (cases tt) (simp_all add: Let_def sent(1))
  moreover have "s_decrees (sing i s) = s_decrees s @ ds @ (case tt of Fall _ \<Rightarrow> [Goodbye tok] | _ \<Rightarrow> [])"
    unfolding runs(3) by (cases tt) (simp_all add: Let_def sent(3) tok)
  ultimately show ?thesis using sent(2,4) gone
    by (intro exI[of _ ws] exI[of _ ds] exI[of _ "case tt of Fall _ \<Rightarrow> [Goodbye tok] | _ \<Rightarrow> []"]) (auto split: turn.split)
qed

text \<open>The event loop sends the welcome of a new connection; the handler sends wishes in the server's name.\<close>

lemma outer_sends:
  assumes "outer_step s s'"
  shows "\<exists>ws es. queue (s_temple s') = queue (s_temple s) @ ws \<and>
    (\<forall>w \<in> set ws. wish_token w = SERVER \<and> (\<exists>c. wish_command w = Server c)) \<and> s_decrees s' = s_decrees s @ es \<and>
    (es = [] \<or> (\<exists>stream. s' = accept_pilgrim stream s \<and> es = [Welcome (s_counter s) stream]))"
  using assms
proof (cases rule: outer_step.cases)
  case 6
  show ?thesis
  proof (cases rule: interrupt_turn_cases[of s])
    case (moved t i)
    then show ?thesis unfolding 6 moved(1) by (auto simp: handler_sends_def temple_save_ask_def send_def)
  qed (simp_all add: 6 interrupt_done_def)
qed (auto simp: accept_pilgrim_def dispatch_event_def take_back_def take_lost_def start_song_def Let_def
    split: option.split list.split)

subsection \<open>One welcome, before everything else\<close>

text \<open>
  The decrees of a history about a connection that is still there: one welcome, with the stream it is
  read from, then replies only.
\<close>

definition welcomed_once :: "token \<Rightarrow> stream \<Rightarrow> decree list \<Rightarrow> bool" where
  "welcomed_once t stream ds \<longleftrightarrow>
     (\<exists>before later. ds = before @ Welcome t stream # later \<and> (\<forall>d \<in> set before. decree_token d \<noteq> t) \<and>
        (\<forall>d \<in> set later. carries d \<or> decree_token d \<noteq> t))"

lemma welcomed_once_append:
  assumes "welcomed_once t stream ds" "\<forall>d \<in> set es. carries d \<or> decree_token d \<noteq> t"
  shows "welcomed_once t stream (ds @ es)"
proof -
  obtain before later where "ds = before @ Welcome t stream # later" "\<forall>d \<in> set before. decree_token d \<noteq> t"
    "\<forall>d \<in> set later. carries d \<or> decree_token d \<noteq> t" using assms(1) by (auto simp: welcomed_once_def)
  with assms(2) show ?thesis unfolding welcomed_once_def
    by (intro exI[of _ before] exI[of _ "later @ es"]) auto
qed

lemma welcomed_once_new: "\<forall>d \<in> set ds. decree_token d \<noteq> t \<Longrightarrow> welcomed_once t stream (ds @ [Welcome t stream])"
  unfolding welcomed_once_def by (intro exI[of _ ds] exI[of _ "[]"]) simp

text \<open>A token of a client: given away already, and not the listener's.\<close>

definition given :: "server \<Rightarrow> token \<Rightarrow> bool" where
  "given s t \<longleftrightarrow> t \<noteq> SERVER \<and> t < s_counter s"

definition sender_known :: "server \<Rightarrow> Wishes.wish \<Rightarrow> bool" where
  "sender_known s w = (case wish_command w of Client _ \<Rightarrow> given s (wish_token w) | Server _ \<Rightarrow> wish_token w = SERVER)"

definition routed :: "history \<Rightarrow> server \<Rightarrow> bool" where
  "routed h s \<longleftrightarrow> 0 < s_counter s \<and> (\<forall>d \<in> set (h_decreed h). given s (decree_token d)) \<and>
     (\<forall>w \<in> set (queue (s_temple s)). sender_known s w) \<and>
     (\<forall>t stream. connection s t stream \<longrightarrow> welcomed_once t stream (h_decreed h))"

lemma given_later: "given s t \<Longrightarrow> s_counter s \<le> s_counter s' \<Longrightarrow> given s' t"
  by (simp add: given_def)

lemma routedD:
  assumes "routed h s"
  shows "0 < s_counter s" "d \<in> set (h_decreed h) \<Longrightarrow> given s (decree_token d)"
    "w \<in> set (queue (s_temple s)) \<Longrightarrow> sender_known s w"
    "connection s t stream \<Longrightarrow> welcomed_once t stream (h_decreed h)"
  using assms by (auto simp: routed_def)

lemma routed_grows:
  assumes "routed h s" "s_counter s \<le> s_counter s'" "h_decreed h' = h_decreed h @ es"
    and "\<And>d. d \<in> set es \<Longrightarrow> given s' (decree_token d)"
    and "\<And>w. w \<in> set (queue (s_temple s')) \<Longrightarrow> w \<in> set (queue (s_temple s)) \<or> sender_known s' w"
    and "\<And>t stream. connection s' t stream \<Longrightarrow> connection s t stream \<and> (\<forall>d \<in> set es. carries d \<or> decree_token d \<noteq> t) \<or>
      welcomed_once t stream (h_decreed h @ es)"
  shows "routed h' s'"
proof -
  have later: "sender_known s w \<Longrightarrow> sender_known s' w" for w
    using assms(2) by (auto simp: sender_known_def given_def split: command_type.splits)
  have "\<forall>d \<in> set (h_decreed h @ es). given s' (decree_token d)"
    using routedD(2)[OF assms(1)] given_later[OF _ assms(2)] assms(4) by auto
  moreover have "\<forall>w \<in> set (queue (s_temple s')). sender_known s' w"
    using routedD(3)[OF assms(1)] assms(5) later by blast
  moreover have "welcomed_once t stream (h_decreed h @ es)" if "connection s' t stream" for t stream
    using assms(6)[OF that] routedD(4)[OF assms(1)] welcomed_once_append by blast
  ultimately show ?thesis using routedD(1)[OF assms(1)] assms(2) by (simp add: routed_def assms(3))
qed

lemma served_routed:
  assumes "routed h s" "queue (s_temple s) = wi # rest"
  shows "routed (h\<lparr>h_served := h_served h @ [wi], h_decreed := h_decreed h @ new_decrees s (god_turn rt ar s)\<rparr>) (god_turn rt ar s)"
proof -
  obtain ds where ds: "s_decrees (god_turn rt ar s) = s_decrees s @ ds"
    "\<forall>d \<in> set ds. carries d \<and> decree_token d = wish_token wi \<and> (\<exists>cc. wish_command wi = Client cc)"
    "set (queue (s_temple (god_turn rt ar s))) \<subseteq> set rest"
    using god_turn_sends[OF assms(2)] by blast
  have "sender_known s wi" using routedD(3)[OF assms(1)] assms(2) by simp
  with ds(2) have "given (god_turn rt ar s) (decree_token d)" if "d \<in> set ds" for d
    using that by (auto simp: sender_known_def given_def owner_held(2))
  with ds show ?thesis
    by (intro routed_grows[OF assms(1), where es = ds]) (auto simp: new_decrees_def owner_held(2) owner_connection assms(2))
qed

lemma sang_routed:
  assumes "routed h s" "tokens_apart s" "i < length (s_singing s)"
  shows "routed (after_step (after_song h s (s_singing s ! i)) s (sing i s)) (sing i s)"
proof -
  let ?tok = "so_token (s_singing s ! i)"
  obtain ws ds es where sent: "queue (s_temple (sing i s)) = queue (s_temple s) @ ws"
    "\<forall>w \<in> set ws. client_wish w \<and> wish_token w = ?tok"
    "s_decrees (sing i s) = s_decrees s @ ds @ es" "\<forall>d \<in> set ds. carries d \<and> decree_token d = ?tok"
    "es = [] \<or> es = [Goodbye ?tok] \<and> (\<forall>stream. \<not> connection (sing i s) ?tok stream)"
    using song_sends[OF assms(2,3)] by blast
  have "connection s ?tok (p_stream (so_pilgrim (s_singing s ! i)))"
    using nth_mem[OF assms(3)] unfolding connection_def by blast
  from connection_named[OF assms(2) this] have tok: "given (sing i s) ?tok" by (simp add: given_def sing_counter)
  have "sender_known (sing i s) w" if "w \<in> set ws" for w
    using that sent(2) tok by (auto simp: sender_known_def client_wish_def split: command_type.splits)
  moreover have "connection s t stream \<and> (\<forall>d \<in> set (ds @ es). carries d \<or> decree_token d \<noteq> t)"
    if "connection (sing i s) t stream" for t stream
    using sing_connection[OF that] sent(4,5) that by (cases "t = ?tok") auto
  moreover have "given (sing i s) (decree_token d)" if "d \<in> set (ds @ es)" for d
    using that sent(4,5) tok by auto
  ultimately show ?thesis
    by (intro routed_grows[OF assms(1), where es = "ds @ es"])
      (auto simp: after_step_def after_song_simps new_decrees_def sent(1,3) sing_counter)
qed

lemma outer_routed:
  assumes "routed h s" "outer_step s s'"
  shows "routed (after_step h s s') s'"
proof -
  obtain ws es where sent: "queue (s_temple s') = queue (s_temple s) @ ws"
    "\<forall>w \<in> set ws. wish_token w = SERVER \<and> (\<exists>c. wish_command w = Server c)" "s_decrees s' = s_decrees s @ es"
    "es = [] \<or> (\<exists>stream. s' = accept_pilgrim stream s \<and> es = [Welcome (s_counter s) stream])"
    using outer_sends[OF assms(2)] by blast
  note count = outer_counter[OF assms(2)]
  have fresh: "decree_token d \<noteq> s_counter s" if "d \<in> set (h_decreed h)" for d
    using routedD(2)[OF assms(1) that] by (simp add: given_def)
  have "given s' (decree_token d)" if "d \<in> set es" for d
    using that sent(4) routedD(1)[OF assms(1)] by (auto simp: given_def SERVER_def accept_pilgrim_def Let_def)
  moreover have "connection s t stream \<and> (\<forall>d \<in> set es. carries d \<or> decree_token d \<noteq> t) \<or> welcomed_once t stream (h_decreed h @ es)"
    if c: "connection s' t stream" for t stream
  proof (cases "es = []")
    case True
    show ?thesis
    proof (cases "connection s t stream")
      case False
      with outer_connection[OF assms(2) c] have "s' = accept_pilgrim stream s" by blast
      with True sent(3) show ?thesis by (simp add: accept_pilgrim_def Let_def)
    qed (simp add: True)
  next
    case False
    with sent(4) obtain st where st: "s' = accept_pilgrim st s" "es = [Welcome (s_counter s) st]" by blast
    show ?thesis
    proof (cases "t = s_counter s")
      case True
      have "\<not> connection s (s_counter s) x" for x
      proof
        assume "connection s (s_counter s) x"
        from routedD(4)[OF assms(1) this] have "Welcome (s_counter s) x \<in> set (h_decreed h)" by (auto simp: welcomed_once_def)
        from fresh[OF this] show False by simp
      qed
      with outer_connection[OF assms(2) c] True have "s' = accept_pilgrim stream s" by blast
      then have "s_decrees s' = s_decrees s @ [Welcome (s_counter s) stream]" by (simp add: accept_pilgrim_def Let_def)
      with st(2) sent(3) have "es = [Welcome t stream]" using True by simp
      then have "welcomed_once t stream (h_decreed h @ es)" using fresh True by (auto intro!: welcomed_once_new)
      then show ?thesis ..
    next
      case other: False
      with outer_connection[OF assms(2) c] st(2) show ?thesis by auto
    qed
  qed
  moreover have "h_decreed (after_step h s s') = h_decreed h @ es" by (simp add: after_step_def new_decrees_def sent(3))
  moreover have "w \<in> set (queue (s_temple s)) \<or> sender_known s' w" if "w \<in> set (queue (s_temple s'))" for w
    using that sent(1,2) by (auto simp: sender_known_def)
  ultimately show ?thesis using routed_grows[OF assms(1) count, of "after_step h s s'" es] by blast
qed

lemma recorded_routed: "recorded rt ar (server_start n w sks) h s \<Longrightarrow> routed h s"
proof (induction rule: recorded.induct)
  case begun
  show ?case by (simp add: routed_def server_start_def no_history_def connection_def)
next
  case (served h s wi rest)
  then show ?case by (blast intro: served_routed)
next
  case (written h s d rest)
  have "s_temple (egress_turn rt s) = s_temple s" by (simp add: egress_turn_def Let_def split: list.split)
  moreover have given: "given (egress_turn rt s) = given s" by (intro ext) (simp add: given_def owner_held(4))
  moreover have "sender_known (egress_turn rt s) = sender_known s"
    by (intro ext) (simp add: sender_known_def given split: command_type.split)
  ultimately show ?case
    using written.IH by (simp add: routed_def owner_held(4) owner_connection)
next
  case (sang h s i)
  from sang_routed[OF sang.IH reachable_tokens[OF recorded_reachable[OF sang.hyps(1)]] sang.hyps(3)] show ?case .
next
  case (outer h s s')
  from outer_routed[OF outer.IH outer.hyps(3)] show ?case .
qed

subsection \<open>Where the egress thread writes\<close>

lemma egress_loop_append: "egress_loop itoa e (ds @ es) = egress_loop itoa (egress_loop itoa e ds) es"
  by (simp add: egress_loop_def)

lemma egress_loop_snoc: "egress_loop itoa e (ds @ [d]) = egress_step itoa (egress_loop itoa e ds) d"
  by (simp add: egress_loop_def)

lemma egress_loop_Cons: "egress_loop itoa e (d # ds) = egress_loop itoa (egress_step itoa e d) ds"
  by (simp add: egress_loop_def)

lemma egress_map_kept:
  assumes "fmlookup (e_map e) t = Some stream" "\<forall>d \<in> set ds. carries d \<or> decree_token d \<noteq> t"
  shows "fmlookup (e_map (egress_loop itoa e ds)) t = Some stream"
  using assms(2)
proof (induction ds rule: rev_induct)
  case (snoc d ds)
  then show ?case by (cases d) (auto simp: egress_loop_snoc egress_step_map simp del: egress_step.simps)
qed (use assms(1) in \<open>simp add: egress_loop_def\<close>)

lemma egress_map_welcomed:
  "fmlookup (e_map (egress_loop itoa e ds)) t = Some stream \<Longrightarrow>
   fmlookup (e_map e) t = Some stream \<or> Welcome t stream \<in> set ds"
proof (induction ds rule: rev_induct)
  case (snoc d ds)
  then show ?case by (cases d) (auto simp: egress_loop_snoc egress_step_map simp del: egress_step.simps split: if_splits)
qed (simp add: egress_loop_def)

lemma route_end: "welcomed_once t stream ds \<Longrightarrow> fmlookup (e_map (egress_loop itoa e ds)) t = Some stream"
proof -
  assume "welcomed_once t stream ds"
  then obtain before later where ds: "ds = (before @ [Welcome t stream]) @ later"
    "\<forall>d \<in> set later. carries d \<or> decree_token d \<noteq> t" by (auto simp: welcomed_once_def)
  show ?thesis unfolding ds(1) egress_loop_append[of _ _ "before @ [Welcome t stream]"]
    by (rule egress_map_kept[OF _ ds(2)]) (simp add: egress_loop_snoc)
qed

text \<open>When the egress thread reaches a reply for a connection, it knows the stream.\<close>

lemma route_reply:
  assumes "welcomed_once t stream (xs @ d # ys)" "carries d" "decree_token d = t"
  shows "welcomed_once t stream xs"
proof -
  obtain before later where ds: "xs @ d # ys = before @ Welcome t stream # later"
    "\<forall>d \<in> set before. decree_token d \<noteq> t" "\<forall>d \<in> set later. carries d \<or> decree_token d \<noteq> t"
    using assms(1) by (auto simp: welcomed_once_def)
  have "d \<notin> set before" "d \<noteq> Welcome t stream" using ds(2) assms(2,3) by (auto, cases d, simp_all)
  obtain zs where "xs = before @ zs \<and> zs @ d # ys = Welcome t stream # later \<or>
      before = xs @ zs \<and> d # ys = zs @ Welcome t stream # later"
    using ds(1) by (auto simp: append_eq_append_conv2)
  with \<open>d \<notin> set before\<close> \<open>d \<noteq> Welcome t stream\<close> obtain us where
    "xs = before @ Welcome t stream # us" "later = us @ d # ys" by (cases zs) auto
  with ds(2,3) show ?thesis by (auto simp: welcomed_once_def)
qed

lemma egress_map_same: "e_map e = e_map e' \<Longrightarrow> e_map (egress_loop itoa e ds) = e_map (egress_loop itoa e' ds)"
  by (induction ds rule: rev_induct)
    (simp_all add: egress_loop_def egress_step_map del: egress_step.simps split: decree.split)

lemma history_map:
  assumes "recorded rt ar (server_start n w sks) h s"
  shows "e_map (egress_loop (rt_itoa rt) (s_egress s) ds) =
    e_map (egress_loop (rt_itoa rt) (s_egress (server_start n w sks)) (h_written h @ ds))"
  unfolding egress_loop_append
  using recorded_serial[OF assms] by (intro egress_map_same) (simp add: egress_serial_def)

lemma route_pending:
  assumes "recorded rt ar (server_start n w sks) h s" "connection s t stream"
    and "s_decrees s = ds @ d # later" "carries d" "decree_token d = t"
  shows "fmlookup (e_map (egress_loop (rt_itoa rt) (s_egress s) ds)) t = Some stream"
proof -
  have "h_decreed h = (h_written h @ ds) @ d # later"
    using recorded_serial[OF assms(1)] assms(3) by (simp add: channels_fifo_def)
  with routedD(4)[OF recorded_routed[OF assms(1)] assms(2)] have "welcomed_once t stream (h_written h @ ds)"
    using route_reply assms(4,5) by metis
  then show ?thesis unfolding history_map[OF assms(1)] by (rule route_end)
qed

text \<open>A reply is written on the client's own stream.\<close>

lemma write_all_there: "snd (write_all sks stream bs) = sks(stream := snd (write_all sks stream bs) stream)"
  by (simp add: write_all_def split: option.split)

lemma egress_deliver:
  assumes "fmlookup (e_map e) (gift_token g) = Some stream"
  shows "e_sockets (egress_step itoa e (Deliver g)) = snd (write_all (e_sockets e) stream (render itoa (gift_response g)))"
  using assms by (auto simp: send_gift_def split: prod.splits bool.splits)

text \<open>Two connections have two streams, as the operating system hands out no stream that is in use.\<close>

lemma streams_stay_apart:
  assumes "streams_apart e" "distinct (welcome_streams ds)"
    and "\<And>x t. x \<in> set (welcome_streams ds) \<Longrightarrow> fmlookup (e_map e) t \<noteq> Some x"
  shows "streams_apart (egress_loop itoa e ds)"
  using assms
proof (induction ds arbitrary: e)
  case (Cons d ds)
  let ?e = "egress_step itoa e d"
  have "t1 = t2" if "fmlookup (e_map ?e) t1 = Some x" "fmlookup (e_map ?e) t2 = Some x" for t1 t2 x
    using that Cons.prems(3)[of x] Cons.prems(1)[unfolded streams_apart_def, rule_format, of t1 x t2]
    unfolding egress_step_map by (cases d) (auto split: if_splits)
  then have "streams_apart ?e" unfolding streams_apart_def by blast
  moreover have "fmlookup (e_map ?e) t \<noteq> Some x" if "x \<in> set (welcome_streams ds)" for x t
    using that Cons.prems(2,3) unfolding egress_step_map by (cases d) auto
  moreover have "distinct (welcome_streams ds)" using Cons.prems(2) by (cases d) simp_all
  ultimately show ?case unfolding egress_loop_Cons by (intro Cons.IH)
qed (simp add: egress_loop_def)

lemma connections_apart:
  assumes "recorded rt ar (server_start n w sks) h s" "connection s t stream" "connection s t' stream"
  shows "t = t'"
proof -
  note r = recorded_routed[OF assms(1)]
  let ?f = "egress_loop (rt_itoa rt) (s_egress s) (s_decrees s)"
  have "h_decreed h = h_written h @ s_decrees s" using recorded_serial[OF assms(1)] by (simp add: channels_fifo_def)
  then have at_end: "fmlookup (e_map ?f) u = Some stream" if "connection s u stream" for u
    using route_end[OF routedD(4)[OF r that]] by (simp add: history_map[OF assms(1)])
  have "streams_fresh s" using reachable_streams[OF recorded_reachable[OF assms(1)]] .
  then have "streams_apart ?f" by (intro streams_stay_apart) (auto simp: streams_fresh_def fmran'I)
  with at_end[OF assms(2)] at_end[OF assms(3)] show ?thesis by (auto simp: streams_apart_def)
qed

subsection \<open>What is on a socket\<close>

lemma broadcast_loop_elsewhere:
  "stream \<notin> fmran' streams \<Longrightarrow> broadcast_loop streams sks response clients stream = sks stream"
proof (induction clients arbitrary: sks)
  case (Cons c clients)
  then show ?case by (auto simp: fmran'I write_all_other split: option.split) (metis fmran'I write_all_other)
qed simp

text \<open>A stream that no token stands for stays as it is.\<close>

lemma egress_silent:
  assumes "stream \<notin> fmran' (e_map e)" "\<And>t. Welcome t stream \<notin> set ds"
  shows "e_sockets (egress_loop itoa e ds) stream = e_sockets e stream \<and> stream \<notin> fmran' (e_map (egress_loop itoa e ds))"
  using assms(2)
proof (induction ds rule: rev_induct)
  case (snoc d ds)
  let ?e = "egress_loop itoa e ds"
  from snoc have IH: "e_sockets ?e stream = e_sockets e stream" "stream \<notin> fmran' (e_map ?e)" by auto
  then have elsewhere: "s' \<noteq> stream" if "fmlookup (e_map ?e) t = Some s'" for t s' using that by (auto simp: fmran'I)
  have "e_sockets (egress_step itoa ?e d) stream = e_sockets ?e stream"
  proof (cases d)
    case (Deliver g)
    show ?thesis
    proof (cases "fmlookup (e_map ?e) (gift_token g)")
      case (Some st)
      show ?thesis unfolding Deliver egress_deliver[OF Some] by (rule write_all_other[OF elsewhere[OF Some]])
    qed (simp add: Deliver)
  next
    case (Broadcast p ev msg cs)
    with IH(2) elsewhere show ?thesis
      by (cases "fmlookup (e_map ?e) p") (auto simp: Let_def broadcast_loop_elsewhere write_all_other)
  qed simp_all
  moreover have "stream \<notin> fmran' (e_map (egress_step itoa ?e d))"
    using IH(2) snoc.prems by (cases d) (auto simp: egress_step_map fmran'_def simp del: egress_step.simps split: if_splits)
  ultimately show ?case using IH(1) by (simp add: egress_loop_snoc)
qed (simp add: egress_loop_def assms(1))

text \<open>Once welcomed, a socket with room receives what each decree means for its client.\<close>

lemma egress_speaks:
  assumes "fmlookup (e_map e) t = Some stream" "\<And>t'. fmlookup (e_map e) t' = Some stream \<Longrightarrow> t' = t"
    and "sk_room (e_sockets e stream) = None" "\<forall>d \<in> set ds. carries d \<or> decree_token d \<noteq> t"
    and "\<And>t'. Welcome t' stream \<in> set ds \<Longrightarrow> t' = t"
  shows "sk_sent (e_sockets (egress_loop itoa e ds) stream) = sk_sent (e_sockets e stream) @ concat (map (traffic itoa t) ds)"
  using assms
proof (induction ds arbitrary: e)
  case Nil
  show ?case by (simp add: egress_loop_def)
next
  case (Cons d ds)
  let ?e = "egress_step itoa e d"
  have d: "carries d \<or> decree_token d \<noteq> t" "\<And>t'. d = Welcome t' stream \<Longrightarrow> t' = t" using Cons.prems(4,5) by auto
  have here: "fmlookup (e_map ?e) t = Some stream" unfolding egress_step_map using Cons.prems(1) d(1) by (cases d) auto
  have only: "t' = t" if "fmlookup (e_map ?e) t' = Some stream" for t'
    using that Cons.prems(2)[of t'] d(2)[of t'] unfolding egress_step_map by (cases d) (auto split: if_splits)
  have sk: "e_sockets ?e stream = (e_sockets e stream)\<lparr>sk_sent := sk_sent (e_sockets e stream) @ traffic itoa t d\<rparr>"
    using egress_step_writes(1)[OF _ Cons.prems(2,1,3), of d itoa] by (cases d) simp_all
  have room: "sk_room (e_sockets ?e stream) = None" using Cons.prems(3) unfolding sk by simp
  have later: "\<forall>d \<in> set ds. carries d \<or> decree_token d \<noteq> t" using Cons.prems(4) by simp
  have "t' = t" if "Welcome t' stream \<in> set ds" for t' using Cons.prems(5)[of t'] that by simp
  with here only room later have "sk_sent (e_sockets (egress_loop itoa ?e ds) stream) =
      sk_sent (e_sockets ?e stream) @ concat (map (traffic itoa t) ds)"
    by (rule Cons.IH)
  then show ?case unfolding egress_loop_Cons sk by simp
qed

text \<open>
  The socket of a connection that is still there: what its client has had since its welcome. The premise
  on the welcomes says that the operating system has not handed out the same stream twice.
\<close>

lemma socket_traffic:
  assumes once: "welcomed_once t stream (ds @ es)" and own: "\<And>t'. Welcome t' stream \<in> set (ds @ es) \<Longrightarrow> t' = t"
    and start: "e_map e = fmempty" "sk_room (e_sockets e stream) = None"
  defines "since \<equiv> dropWhile (\<lambda>d. d \<noteq> Welcome t stream) ds"
  shows "sk_sent (e_sockets (egress_loop itoa e ds) stream) =
      sk_sent (e_sockets e stream) @ concat (map (traffic itoa t) since) \<and>
    replies_to t since = replies_to t ds"
proof -
  obtain before later where split: "ds @ es = before @ Welcome t stream # later"
    "\<forall>d \<in> set before. decree_token d \<noteq> t" "\<forall>d \<in> set later. carries d \<or> decree_token d \<noteq> t"
    using once by (auto simp: welcomed_once_def)
  have none: "Welcome t stream \<notin> set before" using split(2) by auto
  have mute: "replies_to t xs = 0" if "set xs \<subseteq> set before" for xs
    using that split(2) by (auto simp: replies_to_def filter_empty_conv)
  have silent: "e_sockets (egress_loop itoa e xs) stream = e_sockets e stream \<and> stream \<notin> fmran' (e_map (egress_loop itoa e xs))"
    if "set xs \<subseteq> set before" for xs
  proof (rule egress_silent)
    show "Welcome t' stream \<notin> set xs" for t' using that none own[of t'] split(1) by auto
  qed (simp add: start(1) fmran'_def)
  consider "set ds \<subseteq> set before" | rest where "ds = before @ Welcome t stream # rest" "later = rest @ es"
    using split(1) by (auto simp: append_eq_append_conv2 append_eq_Cons_conv)
  then show ?thesis
  proof cases
    case 1
    then have "since = []" using none unfolding since_def by (subst dropWhile_eq_Nil_conv) auto
    with silent[OF 1] mute[OF 1] show ?thesis by simp
  next
    case (2 rest)
    let ?e = "egress_loop itoa e (before @ [Welcome t stream])"
    have since: "since = Welcome t stream # rest"
      unfolding since_def 2(1) using none by (subst dropWhile_append2) auto
    have then_rest: "egress_loop itoa e ds = egress_loop itoa ?e rest" unfolding 2(1) by (simp add: egress_loop_def)
    have here: "e_sockets ?e stream = e_sockets e stream" "fmlookup (e_map ?e) t = Some stream"
      "fmlookup (e_map ?e) t' = Some stream \<Longrightarrow> t' = t" for t'
      using silent[of before] unfolding egress_loop_snoc by (auto simp: fmran'I split: if_splits)
    have room: "sk_room (e_sockets ?e stream) = None" using here(1) start(2) by simp
    have quiet: "\<forall>d \<in> set rest. carries d \<or> decree_token d \<noteq> t" using split(3) 2(2) by simp
    have "t' = t" if "Welcome t' stream \<in> set rest" for t' using own[of t'] that 2(1) by simp
    with here(2,3) room quiet have "sk_sent (e_sockets (egress_loop itoa ?e rest) stream) =
        sk_sent (e_sockets ?e stream) @ concat (map (traffic itoa t) rest)"
      by (rule egress_speaks)
    then show ?thesis using here(1) mute[of before] by (simp add: then_rest since) (simp add: 2(1))
  qed
qed

subsection \<open>Tokens in use\<close>

text \<open>The tokens that stand for clients anywhere: connections, streams, decrees and wishes in flight.\<close>

definition in_use :: "server \<Rightarrow> token set" where
  "in_use s = {t. \<exists>stream. connection s t stream} \<union> fmdom' (e_map (s_egress s)) \<union> decree_token ` set (s_decrees s) \<union>
     {wish_token w | w. w \<in> set (queue (s_temple s)) \<and> (\<exists>cc. wish_command w = Client cc)}"

lemma in_use_given:
  assumes "recorded rt ar (server_start n w sks) h s" "t \<in> in_use s"
  shows "t \<noteq> SERVER \<and> t < s_counter s"
proof -
  note r = recorded_routed[OF assms(1)] and apart = reachable_tokens[OF recorded_reachable[OF assms(1)]]
  let ?e = "s_egress (server_start n w sks)"
  have ser: "h_decreed h = h_written h @ s_decrees s"
    "e_map (s_egress s) = e_map (egress_loop (rt_itoa rt) ?e (h_written h))"
    using recorded_serial[OF assms(1)] by (simp_all add: channels_fifo_def egress_serial_def)
  have decree: "given s (decree_token d)" if "d \<in> set (h_decreed h)" for d using routedD(2)[OF r that] .
  consider (conn) stream where "connection s t stream" | (map) stream where "fmlookup (e_map (s_egress s)) t = Some stream"
    | (dec) d where "d \<in> set (s_decrees s)" "decree_token d = t"
    | (wish) w cc where "w \<in> set (queue (s_temple s))" "wish_command w = Client cc" "wish_token w = t"
    using assms(2) by (auto simp: in_use_def fmdom'_alt_def fmlookup_dom_iff)
  then show ?thesis
  proof cases
    case conn
    with connection_named[OF apart] show ?thesis by blast
  next
    case map
    with ser egress_map_welcomed[of "rt_itoa rt" ?e "h_written h" t stream] have "Welcome t stream \<in> set (h_decreed h)"
      by (simp add: server_start_def)
    from decree[OF this] show ?thesis by (simp add: given_def)
  next
    case dec
    with decree[of d] ser(1) show ?thesis by (simp add: given_def)
  next
    case wish
    with routedD(3)[OF r wish(1)] show ?thesis by (simp add: sender_known_def given_def)
  qed
qed

lemma reported_token:
  assumes "receiver_alive (e_tx e)"
  shows "set (queue (e_tx (egress_step itoa e d))) \<subseteq> insert (decree_token d) (set (queue (e_tx e)))"
  using assms by (cases d) (auto simp: Let_def split: option.split prod.split sum.split)

text \<open>No report of the egress thread is ever taken for the request to exit: only the handler makes that.\<close>

lemma exit_request:
  assumes "recorded rt ar (server_start n w sks) h s" "server_step rt ar s s'" "SERVER \<in> set (s_lost s')"
  shows "SERVER \<in> set (s_lost s) \<or> s' = interrupt_turn s"
  using assms(2)
proof (cases rule: server_step.cases)
  case egress_wrote
  show ?thesis
  proof (cases "s_decrees s")
    case (Cons d ds)
    then have "decree_token d \<in> in_use s" by (simp add: in_use_def)
    then have "decree_token d \<noteq> SERVER" using in_use_given[OF assms(1)] by blast
    with egress_wrote Cons assms(3) show ?thesis
      using reported_token[of "(s_egress s)\<lparr>e_tx := \<lparr>receiver_alive = True, queue = s_lost s\<rparr>\<rparr>" "rt_itoa rt" d]
      by (auto simp: egress_turn_def Let_def)
  qed (use egress_wrote assms(3) in \<open>simp add: egress_turn_def\<close>)
next
  case (sang i)
  have "s_lost (sing i s) = s_lost s" by (simp add: sing_def Let_def split: prod.split turn.split)
  with sang assms(3) show ?thesis by simp
qed (use assms(3) in \<open>auto simp: accept_pilgrim_def dispatch_event_def take_back_def take_lost_def start_song_def god_turn_def
    Let_def split: option.splits list.splits progress.splits if_splits\<close>)

end
