(* ===== verification/Choir.thy ===== *)
theory Choir
  imports Prelude "HOL-Library.Multiset"
begin

section \<open>The thread pool (\<open>src/choir.rs\<close>)\<close>

text \<open>
  A choir is a vector of angels, each with the handle of its thread, and the sending end of a channel of
  songs. A thread waits for a song, sings it and waits again, until the channel is closed and empty or a
  song panics. The thread that owns the choir sends songs and at last drops it: \<open>Drop\<close> closes the channel
  and joins the threads one after the other. A move is one action of one thread; which comes next, and
  whether a song returns or panics, is the environment's choice.
\<close>

datatype 'song thread = Listening | Singing 'song | Returned | Died

text \<open>What the owner is doing: using the choir, joining the n-th angel, or past the drop.\<close>

datatype owner = Using | Joining nat | Dropped | Unwound

record angel =
  an_thread :: "nat option"

record 'song choir =
  ch_angels :: "angel list"
  ch_tx :: bool
  ch_songs :: "'song list"
  ch_threads :: "'song thread list"
  ch_owner :: owner
  ch_sung :: "'song list"

subsection \<open>Construction\<close>

definition angel_new :: "'song choir \<Rightarrow> angel \<times> 'song choir" where
  "angel_new c = (\<lparr>an_thread = Some (length (ch_threads c))\<rparr>, c\<lparr>ch_threads := ch_threads c @ [Listening]\<rparr>)"

fun raise_angels :: "nat \<Rightarrow> 'song choir \<Rightarrow> 'song choir" where
  "raise_angels 0 c = c"
| "raise_angels (Suc n) c =
     (let (angel, c') = angel_new c in raise_angels n (c'\<lparr>ch_angels := ch_angels c' @ [angel]\<rparr>))"

definition choir_new :: "nat \<Rightarrow> 'song choir" where
  "choir_new capacity = raise_angels capacity
     \<lparr>ch_angels = [], ch_tx = True, ch_songs = [], ch_threads = [], ch_owner = Using, ch_sung = []\<rparr>"

subsection \<open>Use\<close>

text \<open>A thread that has ended has dropped its receiver; a send with no receiver left fails.\<close>

fun hears :: "'song thread \<Rightarrow> bool" where
  "hears Listening = True"
| "hears (Singing _) = True"
| "hears Returned = False"
| "hears Died = False"

text \<open>\<open>Choir::sing\<close>; \<open>None\<close> is the panic of its \<open>unwrap\<close>.\<close>

definition choir_sing :: "'song \<Rightarrow> 'song choir \<Rightarrow> 'song choir option" where
  "choir_sing song c =
     (if ch_tx c then
        if list_ex hears (ch_threads c) then Some (c\<lparr>ch_songs := ch_songs c @ [song]\<rparr>) else None
      else Some c)"

text \<open>
  The loop of an angel's thread: \<open>None\<close> where it waits or has ended. The flag says that the song in hand
  panics, which ends the thread.
\<close>

fun angel_turn :: "bool \<Rightarrow> nat \<Rightarrow> 'song choir \<Rightarrow> 'song choir option" where
  "angel_turn panics i c =
     (if \<not> i < length (ch_threads c) then None
      else case ch_threads c ! i of
             Listening \<Rightarrow>
               if panics then None
               else (case ch_songs c of
                       song # rest \<Rightarrow> Some (c\<lparr>ch_songs := rest, ch_threads := (ch_threads c)[i := Singing song]\<rparr>)
                     | [] \<Rightarrow> if ch_tx c then None else Some (c\<lparr>ch_threads := (ch_threads c)[i := Returned]\<rparr>))
           | Singing song \<Rightarrow>
               if panics then Some (c\<lparr>ch_threads := (ch_threads c)[i := Died]\<rparr>)
               else Some (c\<lparr>ch_threads := (ch_threads c)[i := Listening], ch_sung := ch_sung c @ [song]\<rparr>)
           | _ \<Rightarrow> None)"

declare angel_turn.simps [simp del]

subsection \<open>Drop\<close>

definition drop_begin :: "'song choir \<Rightarrow> 'song choir option" where
  "drop_begin c = (if ch_owner c = Using then Some (c\<lparr>ch_tx := False, ch_owner := Joining 0\<rparr>) else None)"

text \<open>
  One round of the loop of \<open>drop\<close>: the handle is taken and joined. A join waits for the thread; that of a
  thread that died gives an error, whose \<open>unwrap\<close> panics, as would that of a handle taken before.
\<close>

definition join_turn :: "'song choir \<Rightarrow> 'song choir option" where
  "join_turn c =
     (case ch_owner c of
        Joining k \<Rightarrow>
          if \<not> k < length (ch_angels c) then Some (c\<lparr>ch_owner := Dropped\<rparr>)
          else (case an_thread (ch_angels c ! k) of
                  None \<Rightarrow> Some (c\<lparr>ch_owner := Unwound\<rparr>)
                | Some h \<Rightarrow>
                    let taken = (ch_angels c)[k := \<lparr>an_thread = None\<rparr>]
                    in (case ch_threads c ! h of
                          Returned \<Rightarrow> Some (c\<lparr>ch_angels := taken, ch_owner := Joining (k + 1)\<rparr>)
                        | Died \<Rightarrow> Some (c\<lparr>ch_angels := taken, ch_owner := Unwound\<rparr>)
                        | _ \<Rightarrow> None))
      | _ \<Rightarrow> None)"

subsection \<open>Runs\<close>

datatype 'song move = Sing 'song | Turn nat | Panic nat | BeginDrop | Join

fun choir_move :: "'song move \<Rightarrow> 'song choir \<Rightarrow> 'song choir option" where
  "choir_move (Sing song) c = (if ch_owner c = Using then choir_sing song c else None)"
| "choir_move (Turn i) c = angel_turn False i c"
| "choir_move (Panic i) c = angel_turn True i c"
| "choir_move BeginDrop c = drop_begin c"
| "choir_move Join c = join_turn c"

fun choir_run :: "'song move list \<Rightarrow> 'song choir \<Rightarrow> 'song choir option" where
  "choir_run [] c = Some c"
| "choir_run (m # ms) c = (case choir_move m c of None \<Rightarrow> None | Some c' \<Rightarrow> choir_run ms c')"

lemma choir_run_append:
  "choir_run (ms @ ns) c = (case choir_run ms c of None \<Rightarrow> None | Some c' \<Rightarrow> choir_run ns c')"
  by (induction ms arbitrary: c) (auto split: option.splits)

text \<open>The songs sent and the songs in hand; no thread can move any more.\<close>

fun songs_sent :: "'song move list \<Rightarrow> 'song list" where
  "songs_sent [] = []"
| "songs_sent (Sing song # ms) = song # songs_sent ms"
| "songs_sent (_ # ms) = songs_sent ms"

fun in_hand :: "'song thread list \<Rightarrow> 'song list" where
  "in_hand [] = []"
| "in_hand (Singing song # ts) = song # in_hand ts"
| "in_hand (_ # ts) = in_hand ts"

definition panics :: "'song move list \<Rightarrow> nat" where
  "panics ms = length (filter (\<lambda>m. case m of Panic _ \<Rightarrow> True | _ \<Rightarrow> False) ms)"

definition at_rest :: "'song choir \<Rightarrow> bool" where
  "at_rest c \<longleftrightarrow> join_turn c = None \<and> list_all (\<lambda>i. angel_turn False i c = None) [0..<length (ch_threads c)]"

lemma asked_append [simp]: "songs_sent (ms @ ns) = songs_sent ms @ songs_sent ns"
  by (induction ms rule: songs_sent.induct) simp_all

lemma panics_simps [simp]:
  "panics [] = 0" "panics (ms @ ns) = panics ms + panics ns"
  "panics (m # ms) = (case m of Panic _ \<Rightarrow> 1 | _ \<Rightarrow> 0) + panics ms"
  by (simp_all add: panics_def split: move.splits)

lemma in_hand_append [simp]: "in_hand (ts @ us) = in_hand ts @ in_hand us"
  by (induction ts rule: in_hand.induct) simp_all

lemma in_hand_replicate [simp]: "in_hand (replicate n Listening) = []" "in_hand (replicate n Returned) = []"
  by (induction n) simp_all

lemma in_hand_Cons: "in_hand (t # ts) = in_hand [t] @ in_hand ts"
  by (cases t) simp_all

lemma in_hand_update:
  "i < length ts \<Longrightarrow>
   mset (in_hand (ts[i := u])) + mset (in_hand [ts ! i]) = mset (in_hand ts) + mset (in_hand [u])"
proof (induction ts arbitrary: i)
  case (Cons t ts)
  show ?case
  proof (cases i)
    case 0
    then show ?thesis by (simp add: in_hand_Cons[of u ts] in_hand_Cons[of t ts])
  next
    case (Suc j)
    with Cons.IH[of j] Cons.prems show ?thesis
      by (simp add: in_hand_Cons[of t ts] in_hand_Cons[of t "ts[j := u]"])
  qed
qed simp

lemma in_update:
  "i < length ts \<Longrightarrow> ts ! i \<noteq> x \<Longrightarrow> x \<in> set (ts[i := u]) \<longleftrightarrow> x = u \<or> x \<in> set ts"
  by (auto simp: in_set_conv_nth nth_list_update)

lemma others_keep: "ts ! k = x \<Longrightarrow> ts ! i \<noteq> x \<Longrightarrow> ts[i := u] ! k = x"
  by (cases "k = i") auto

subsection \<open>What holds throughout a run\<close>

definition handle :: "owner \<Rightarrow> nat \<Rightarrow> nat option" where
  "handle ow k = (case ow of Joining j \<Rightarrow> if k < j then None else Some k | _ \<Rightarrow> Some k)"

text \<open>The threads and their handles, as far as the drop has come.\<close>

definition choir_shape :: "nat \<Rightarrow> 'song choir \<Rightarrow> bool" where
  "choir_shape n c \<longleftrightarrow>
     length (ch_threads c) = n \<and> length (ch_angels c) = n \<and> (ch_tx c \<longleftrightarrow> ch_owner c = Using) \<and>
     (case ch_owner c of
        Using \<Rightarrow> \<forall>k < n. an_thread (ch_angels c ! k) = Some k
      | Joining j \<Rightarrow> j \<le> n \<and> (\<forall>k < j. ch_threads c ! k = Returned) \<and>
          (\<forall>k < n. an_thread (ch_angels c ! k) = (if k < j then None else Some k))
      | Dropped \<Rightarrow> \<forall>k < n. ch_threads c ! k = Returned
      | Unwound \<Rightarrow> Died \<in> set (ch_threads c)) \<and>
     (Returned \<in> set (ch_threads c) \<longrightarrow> ch_songs c = [] \<and> \<not> ch_tx c) \<and> (n = 0 \<longrightarrow> ch_songs c = [])"

text \<open>Every song sent has been sung, is being sung or waits, unless a thread died of it.\<close>

definition kept :: "'song choir \<Rightarrow> 'song multiset" where
  "kept c = mset (ch_sung c) + mset (in_hand (ch_threads c)) + mset (ch_songs c)"

definition accounted :: "'song move list \<Rightarrow> 'song choir \<Rightarrow> bool" where
  "accounted ms c \<longleftrightarrow> (Died \<in> set (ch_threads c) \<longleftrightarrow> panics ms \<noteq> 0) \<and> size (kept c) \<le> length (songs_sent ms) \<and>
     (panics ms = 0 \<longrightarrow> kept c = mset (songs_sent ms))"

lemma raise_angels:
  "ch_threads (raise_angels n c) = ch_threads c @ replicate n Listening" "ch_tx (raise_angels n c) = ch_tx c"
  "ch_songs (raise_angels n c) = ch_songs c" "ch_owner (raise_angels n c) = ch_owner c"
  "ch_sung (raise_angels n c) = ch_sung c"
  by (induction n arbitrary: c) (simp_all add: angel_new_def)

lemma raise_angels_handles:
  "ch_angels (raise_angels n c) = ch_angels c @ map (\<lambda>k. \<lparr>an_thread = Some (length (ch_threads c) + k)\<rparr>) [0..<n]"
proof (induction n arbitrary: c)
  case (Suc n)
  have "map f [0..<Suc n] = f 0 # map (\<lambda>k. f (Suc k)) [0..<n]" for f :: "nat \<Rightarrow> angel"
    by (simp add: upt_conv_Cons map_Suc_upt[symmetric] del: upt_Suc)
  with Suc show ?case by (simp add: angel_new_def del: upt_Suc)
qed simp

lemma choir_new_simps [simp]:
  "ch_threads (choir_new n) = replicate n Listening" "ch_tx (choir_new n)" "ch_songs (choir_new n) = []"
  "ch_owner (choir_new n) = Using" "ch_sung (choir_new n) = []"
  "ch_angels (choir_new n) = map (\<lambda>k. \<lparr>an_thread = Some k\<rparr>) [0..<n]"
  by (simp_all add: choir_new_def raise_angels raise_angels_handles)

lemma choir_new_ok: "choir_shape n (choir_new n)" "accounted [] (choir_new n)"
  by (auto simp: choir_shape_def accounted_def kept_def)

lemma turn_cases:
  assumes "angel_turn p i c = Some c'" "i < length (ch_threads c)"
  obtains (took) song rest where "\<not> p" "ch_threads c ! i = Listening" "ch_songs c = song # rest"
      "c' = c\<lparr>ch_songs := rest, ch_threads := (ch_threads c)[i := Singing song]\<rparr>"
    | (closed) "\<not> p" "ch_threads c ! i = Listening" "ch_songs c = []" "\<not> ch_tx c"
      "c' = c\<lparr>ch_threads := (ch_threads c)[i := Returned]\<rparr>"
    | (died) song where "p" "ch_threads c ! i = Singing song" "c' = c\<lparr>ch_threads := (ch_threads c)[i := Died]\<rparr>"
    | (sung) song where "\<not> p" "ch_threads c ! i = Singing song"
      "c' = c\<lparr>ch_threads := (ch_threads c)[i := Listening], ch_sung := ch_sung c @ [song]\<rparr>"
  using assms by (auto simp: angel_turn.simps split: thread.splits list.splits if_splits)

lemma turn_shape:
  assumes "choir_shape n c" "angel_turn p i c = Some c'" "i < length (ch_threads c)"
  shows "choir_shape n c'"
  using assms(2,3)
proof (cases rule: turn_cases)
  case (took song rest)
  with assms(1) in_update[OF assms(3), of Returned] in_update[OF assms(3), of Died] show ?thesis
    by (auto simp: choir_shape_def intro: others_keep split: owner.splits)
next
  case closed
  with assms(1) in_update[OF assms(3), of Died] show ?thesis
    by (auto simp: choir_shape_def intro: others_keep split: owner.splits)
next
  case (died song)
  with assms(1) in_update[OF assms(3), of Returned] set_update_memI[OF assms(3), of Died] show ?thesis
    by (auto simp: choir_shape_def intro: others_keep split: owner.splits)
next
  case (sung song)
  with assms(1) in_update[OF assms(3), of Returned] in_update[OF assms(3), of Died] show ?thesis
    by (auto simp: choir_shape_def intro: others_keep split: owner.splits)
qed

lemma turn_kept:
  assumes "angel_turn p i c = Some c'" "i < length (ch_threads c)"
  shows "if p then size (kept c) = Suc (size (kept c')) \<and> Died \<in> set (ch_threads c')
    else kept c' = kept c \<and> (Died \<in> set (ch_threads c') \<longleftrightarrow> Died \<in> set (ch_threads c))"
  using assms
proof (cases rule: turn_cases)
  case (took song rest)
  with in_hand_update[OF assms(2), of "Singing song"] in_update[OF assms(2), of Died] show ?thesis
    by (simp add: kept_def)
next
  case closed
  with in_hand_update[OF assms(2), of Returned] in_update[OF assms(2), of Died] show ?thesis
    by (simp add: kept_def)
next
  case (died song)
  have "mset (in_hand (ch_threads c)) = add_mset song (mset (in_hand (ch_threads c')))"
    using in_hand_update[OF assms(2), of Died] died by simp
  with died set_update_memI[OF assms(2), of Died] show ?thesis by (simp add: kept_def)
next
  case (sung song)
  with in_hand_update[OF assms(2), of Listening] in_update[OF assms(2), of Died] show ?thesis
    by (simp add: kept_def)
qed

lemma angel_turn_within: "angel_turn p i c = Some c' \<Longrightarrow> i < length (ch_threads c)"
  by (simp add: angel_turn.simps split: if_splits)

lemma died_at: "ts ! j = Died \<Longrightarrow> j < length ts \<Longrightarrow> Died \<in> set ts"
  by (auto simp: in_set_conv_nth)

lemma join_shape:
  assumes "choir_shape n c" "join_turn c = Some c'"
  shows "choir_shape n c' \<and> kept c' = kept c \<and> ch_threads c' = ch_threads c \<and> ch_owner c' \<noteq> Using"
proof -
  from assms(2) obtain j where j: "ch_owner c = Joining j" by (auto simp: join_turn_def split: owner.splits)
  show ?thesis
  proof (cases "j < n")
    case False
    with assms j show ?thesis by (auto simp: join_turn_def choir_shape_def kept_def)
  next
    case True
    with assms j have "an_thread (ch_angels c ! j) = Some j" "j < length (ch_threads c)"
      by (auto simp: choir_shape_def)
    with assms j True show ?thesis
      by (auto simp: join_turn_def choir_shape_def kept_def Let_def nth_list_update less_Suc_eq
          intro: died_at split: thread.splits)
  qed
qed

lemma sing_sends:
  assumes "choir_shape n c" "choir_move (Sing song) c = Some c'"
  shows "c' = c\<lparr>ch_songs := ch_songs c @ [song]\<rparr>" "ch_threads c \<noteq> []" "ch_owner c = Using" "ch_tx c"
  using assms by (auto simp: choir_shape_def choir_sing_def split: if_splits)

lemma move_shape:
  assumes "choir_shape n c" "choir_move m c = Some c'"
  shows "choir_shape n c'"
proof (cases m)
  case (Sing song)
  with assms(2) have "choir_move (Sing song) c = Some c'" by simp
  from sing_sends[OF assms(1) this] assms(1) show ?thesis by (auto simp: choir_shape_def)
next
  case BeginDrop
  with assms show ?thesis by (auto simp: choir_shape_def drop_begin_def split: if_splits)
next
  case (Turn i)
  with assms(2) have "angel_turn False i c = Some c'" by simp
  from turn_shape[OF assms(1) this angel_turn_within[OF this]] show ?thesis .
next
  case (Panic i)
  with assms(2) have "angel_turn True i c = Some c'" by simp
  from turn_shape[OF assms(1) this angel_turn_within[OF this]] show ?thesis .
next
  case Join
  with assms(2) join_shape[OF assms(1), of c'] show ?thesis by simp
qed

lemma move_accounted:
  assumes "choir_shape n c" "accounted ms c" "choir_move m c = Some c'"
  shows "accounted (ms @ [m]) c'"
proof (cases m)
  case (Sing song)
  with assms(3) have "choir_move (Sing song) c = Some c'" by simp
  from sing_sends[OF assms(1) this] assms(2) Sing show ?thesis by (auto simp: accounted_def kept_def)
next
  case (Turn i)
  with assms(2,3) turn_kept[of False i c c'] angel_turn_within[of False i c c'] show ?thesis
    by (simp add: accounted_def)
next
  case (Panic i)
  with assms(2,3) turn_kept[of True i c c'] angel_turn_within[of True i c c'] show ?thesis
    by (simp add: accounted_def)
next
  case BeginDrop
  with assms(2,3) show ?thesis by (auto simp: accounted_def kept_def drop_begin_def split: if_splits)
next
  case Join
  with assms(2,3) join_shape[OF assms(1), of c'] show ?thesis by (simp add: accounted_def)
qed

lemma run_ok:
  "choir_run ms c = Some c' \<Longrightarrow> choir_shape n c \<Longrightarrow> accounted ns c \<Longrightarrow> choir_shape n c' \<and> accounted (ns @ ms) c'"
proof (induction ms arbitrary: c ns)
  case (Cons m ms)
  then obtain d where d: "choir_move m c = Some d" "choir_run ms d = Some c'" by (auto split: option.splits)
  from move_shape[OF Cons.prems(2) d(1)] move_accounted[OF Cons.prems(2,3) d(1)] Cons.IH[OF d(2), of "ns @ [m]"]
  show ?case by simp
qed simp

subsection \<open>The drop ends\<close>

text \<open>What is left to do, counted so that every move after the drop has begun takes at least one.\<close>

fun effort :: "'song thread \<Rightarrow> nat" where
  "effort Listening = 1"
| "effort (Singing _) = 2"
| "effort _ = 0"

definition to_join :: "nat \<Rightarrow> owner \<Rightarrow> nat" where
  "to_join n ow = (case ow of Using \<Rightarrow> n + 2 | Joining k \<Rightarrow> n - k + 1 | _ \<Rightarrow> 0)"

definition work_left :: "nat \<Rightarrow> 'song choir \<Rightarrow> nat" where
  "work_left n c = 2 * length (ch_songs c) + sum_list (map effort (ch_threads c)) + to_join n (ch_owner c)"

lemma sum_update:
  "i < length ts \<Longrightarrow> sum_list (map f (ts[i := u])) + f (ts ! i) = sum_list (map f ts) + (f u :: nat)"
  by (induction ts arbitrary: i) (auto simp: nth_Cons split: nat.splits)

lemma turn_works:
  assumes "angel_turn p i c = Some c'"
  shows "work_left n c' < work_left n c \<and> ch_owner c' = ch_owner c"
proof -
  note i = angel_turn_within[OF assms] and sum = sum_update[OF angel_turn_within[OF assms], of effort]
  show ?thesis using assms i
  proof (cases rule: turn_cases)
    case (took song rest)
    with sum[of "Singing song"] show ?thesis by (simp add: work_left_def)
  next
    case closed
    with sum[of Returned] show ?thesis by (simp add: work_left_def)
  next
    case (died song)
    with sum[of Died] show ?thesis by (simp add: work_left_def)
  next
    case (sung song)
    with sum[of Listening] show ?thesis by (simp add: work_left_def)
  qed
qed

lemma move_works:
  assumes "choir_shape n c" "choir_move m c = Some c'" "ch_owner c \<noteq> Using"
  shows "work_left n c' < work_left n c \<and> ch_owner c' \<noteq> Using \<and> songs_sent (m # ms) = songs_sent ms"
proof (cases m)
  case (Turn i)
  with assms(2,3) turn_works[of False i c c' n] show ?thesis by simp
next
  case (Panic i)
  with assms(2,3) turn_works[of True i c c' n] show ?thesis by simp
next
  case Join
  with assms(2) have j: "join_turn c = Some c'" by simp
  then obtain k where "ch_owner c = Joining k" "ch_threads c' = ch_threads c" "ch_songs c' = ch_songs c"
    "ch_owner c' = Dropped \<or> ch_owner c' = Unwound \<or> ch_owner c' = Joining (k + 1) \<and> k < length (ch_angels c)"
    by (auto simp: join_turn_def Let_def split: owner.splits if_splits option.splits thread.splits)
  moreover have "length (ch_angels c) = n" using assms(1) by (simp add: choir_shape_def)
  ultimately show ?thesis using Join by (auto simp: work_left_def to_join_def)
qed (use assms in \<open>auto simp: drop_begin_def split: if_splits\<close>)

lemma run_works:
  "choir_run ms c = Some c' \<Longrightarrow> choir_shape n c \<Longrightarrow> ch_owner c \<noteq> Using \<Longrightarrow>
   length ms + work_left n c' \<le> work_left n c \<and> ch_owner c' \<noteq> Using \<and> songs_sent ms = []"
proof (induction ms arbitrary: c)
  case (Cons m ms)
  then obtain d where d: "choir_move m c = Some d" "choir_run ms d = Some c'" by (auto split: option.splits)
  from move_shape[OF Cons.prems(2) d(1)] Cons.IH[OF d(2)] move_works[OF Cons.prems(2) d(1) Cons.prems(3), of ms]
  show ?case by auto
qed simp

text \<open>A choir whose drop has begun and in which nothing moves has been dropped, or its drop has panicked.\<close>

lemma at_rest_ends:
  assumes "choir_shape n c" "at_rest c" "ch_owner c \<noteq> Using"
  shows "ch_owner c = Dropped \<or> ch_owner c = Unwound"
proof (rule ccontr)
  assume "\<not> ?thesis"
  with assms(3) obtain j where j: "ch_owner c = Joining j" by (cases "ch_owner c") auto
  have "join_turn c = None" using assms(2) by (simp add: at_rest_def)
  then have "j < length (ch_angels c)" by (rule contrapos_pp) (simp add: join_turn_def j)
  then have "j < n" using assms(1) by (simp add: choir_shape_def)
  with assms(1) j have t: "an_thread (ch_angels c ! j) = Some j" "j < length (ch_threads c)" "\<not> ch_tx c"
    by (auto simp: choir_shape_def)
  have "angel_turn False j c = None" using assms(2) t(2) by (simp add: at_rest_def list_all_iff)
  with t j \<open>join_turn c = None\<close> assms(1) \<open>j < n\<close> show False
    by (auto simp: angel_turn.simps join_turn_def Let_def choir_shape_def split: thread.splits list.splits)
qed

lemma effort_in_hand: "sum_list (map effort ts) \<le> length ts + length (in_hand ts)"
  by (induction ts rule: in_hand.induct) auto

lemma drop_run:
  assumes "choir_run (ms @ BeginDrop # ns) (choir_new n) = Some c"
  shows "choir_shape n c" "accounted (ms @ ns) c" "ch_owner c \<noteq> Using"
    "length ns \<le> 2 * (length (songs_sent ms) + n) + 1" "songs_sent (ms @ ns) = songs_sent ms"
proof -
  from assms obtain d e where runs: "choir_run ms (choir_new n) = Some d" "drop_begin d = Some e" "choir_run ns e = Some c"
    by (auto simp: choir_run_append split: option.splits)
  note d = run_ok[OF runs(1) choir_new_ok]
  have e: "e = d\<lparr>ch_tx := False, ch_owner := Joining 0\<rparr>" using runs(2) by (simp add: drop_begin_def split: if_splits)
  have "choir_move BeginDrop d = Some e" using runs(2) by simp
  from move_shape[OF _ this, of n] d have es: "choir_shape n e" by simp
  have ea: "accounted ms e" using d by (simp add: accounted_def kept_def e)
  from run_ok[OF runs(3) es ea] show "choir_shape n c" "accounted (ms @ ns) c" by simp_all
  have "ch_owner e \<noteq> Using" by (simp add: e)
  from run_works[OF runs(3) es this] show "ch_owner c \<noteq> Using" "songs_sent (ms @ ns) = songs_sent ms" by simp_all
  have "length ns \<le> work_left n e" using run_works[OF runs(3) es \<open>ch_owner e \<noteq> Using\<close>] by simp
  also have "work_left n e \<le> 2 * length (ch_songs e) + (n + length (in_hand (ch_threads e))) + (n + 1)"
    using effort_in_hand[of "ch_threads e"] es by (simp add: work_left_def to_join_def e choir_shape_def)
  also have "\<dots> \<le> 2 * (length (songs_sent ms) + n) + 1"
    using ea by (simp add: accounted_def kept_def)
  finally show "length ns \<le> 2 * (length (songs_sent ms) + n) + 1" .
qed

lemma drop_result:
  assumes "choir_run (ms @ BeginDrop # ns) (choir_new n) = Some c" "at_rest c"
  shows "if panics (ms @ ns) = 0
    then ch_owner c = Dropped \<and> list_all (\<lambda>t. t = Returned) (ch_threads c) \<and> mset (ch_sung c) = mset (songs_sent ms)
    else ch_owner c = Unwound"
proof (cases "ch_owner c = Dropped")
  case True
  with drop_run(1)[OF assms(1)] have all: "length (ch_threads c) = n" "\<forall>k < n. ch_threads c ! k = Returned"
    "Returned \<in> set (ch_threads c) \<longrightarrow> ch_songs c = []" "n = 0 \<longrightarrow> ch_songs c = []" by (simp_all add: choir_shape_def)
  have threads: "ch_threads c = replicate n Returned" by (rule nth_equalityI) (use all(1,2) in simp_all)
  then have "ch_songs c = []" using all(3,4) by (cases n) simp_all
  moreover have p: "panics (ms @ ns) = 0" using drop_run(2)[OF assms(1)]
    unfolding accounted_def threads by (cases "panics (ms @ ns) = 0") (simp_all del: panics_simps)
  ultimately have "mset (ch_sung c) = mset (songs_sent (ms @ ns))"
    using drop_run(2)[OF assms(1)] unfolding accounted_def kept_def threads by simp
  with True threads show ?thesis by (simp only: p drop_run(5)[OF assms(1)]) (simp add: list_all_iff)
next
  case False
  with at_rest_ends[OF drop_run(1)[OF assms(1)] assms(2) drop_run(3)[OF assms(1)]]
  have u: "ch_owner c = Unwound" by simp
  with drop_run(1,2)[OF assms(1)] have "panics (ms @ ns) \<noteq> 0" by (simp add: choir_shape_def accounted_def)
  with u show ?thesis by (simp only: if_False)
qed

end
