(* ===== verification/ChoirJobs.thy ===== *)
theory ChoirJobs
  imports Choir Server
begin

section \<open>The event loop's jobs are songs of the choir\<close>

text \<open>
  The server's state keeps of the choir its waiting jobs, those in hand and the number of angels alive.
  This theory relates it to the threads of \<open>src/choir.rs\<close>: every step of the server is at most one move
  of the choir.
\<close>

definition mirrors :: "server \<Rightarrow> (token \<times> pilgrim) choir \<Rightarrow> bool" where
  "mirrors s c \<longleftrightarrow>
     ch_songs c = s_songs s \<and>
     mset (in_hand (ch_threads c)) = mset (map (\<lambda>so. (so_token so, so_pilgrim so)) (s_singing s)) \<and>
     length (filter hears (ch_threads c)) = s_angels s \<and> ch_tx c \<and> ch_owner c = Using"

lemma mirrors_start: "mirrors (server_start n w sks) (choir_new n)"
  by (simp add: mirrors_def server_start_def)

lemma mirrors_same:
  "s_songs s' = s_songs s \<Longrightarrow> s_singing s' = s_singing s \<Longrightarrow> s_angels s' = s_angels s \<Longrightarrow>
   mirrors s' c = mirrors s c"
  by (simp add: mirrors_def)

lemma hears_update:
  "i < length ts \<Longrightarrow> length (filter hears (ts[i := u])) + (if hears (ts ! i) then 1 else 0) =
   length (filter hears ts) + (if hears u then 1 else 0)"
proof (induction ts arbitrary: i)
  case (Cons t ts)
  then show ?case
  proof (cases i)
    case (Suc j)
    with Cons.IH[of j] Cons.prems show ?thesis by simp
  qed simp
qed simp

lemma hears_idle: "length (filter hears ts) = length (in_hand ts) + length (filter (\<lambda>t. t = Listening) ts)"
  by (induction ts rule: in_hand.induct) simp_all

lemma idle_angel:
  assumes "mirrors s c" "length (s_singing s) < s_angels s"
  obtains i where "i < length (ch_threads c)" "ch_threads c ! i = Listening"
proof -
  have "length (in_hand (ch_threads c)) = length (s_singing s)"
    using assms(1) by (simp add: mirrors_def flip: size_mset)
  then have "filter (\<lambda>t. t = Listening) (ch_threads c) \<noteq> []"
    using assms hears_idle[of "ch_threads c"] by (auto simp: mirrors_def)
  then have "Listening \<in> set (ch_threads c)" by (auto simp: filter_empty_conv)
  then show ?thesis using that by (auto simp: in_set_conv_nth)
qed

lemma busy_angel:
  assumes "song \<in># mset (in_hand ts)"
  obtains i where "i < length ts" "ts ! i = Singing song"
proof -
  have "song \<in> set (in_hand ts) \<Longrightarrow> Singing song \<in> set ts" for ts :: "'a thread list"
    by (induction ts rule: in_hand.induct) auto
  then show ?thesis using assms that by (fastforce simp: in_set_conv_nth)
qed

text \<open>An idle thread that takes a song is the step of the server that starts a job.\<close>

lemma took_mirrors:
  assumes "mirrors s c" "angel_turn False i c = Some c'" "ch_threads c ! i = Listening"
  shows "mirrors (start_song reads clock s) c'"
proof -
  note i = angel_turn_within[OF assms(2)]
  from assms(2) i show ?thesis
  proof (cases rule: turn_cases)
    case (took song rest)
    have "filter (\<lambda>t. t = Listening) (ch_threads c) \<noteq> []"
      using took(2) i by (auto simp: filter_empty_conv in_set_conv_nth)
    then have "length (filter (\<lambda>t. t = Listening) (ch_threads c)) \<noteq> 0" by (simp only: length_0_conv not_False_eq_True)
    moreover have "length (in_hand (ch_threads c)) = length (s_singing s)"
      using assms(1) by (simp add: mirrors_def flip: size_mset)
    ultimately have "length (s_singing s) < s_angels s"
      using assms(1) hears_idle[of "ch_threads c"]
      by (simp add: mirrors_def del: length_greater_0_conv length_0_conv)
    have "s_songs s = song # rest" using assms(1) took(3) by (simp add: mirrors_def)
    with assms(1) took \<open>length (s_singing s) < s_angels s\<close> hears_update[OF i, of "Singing song"] in_hand_update[OF i, of "Singing song"]
    show ?thesis by (cases song) (simp add: mirrors_def start_song_def Let_def)
  qed (use assms in \<open>auto simp: mirrors_def\<close>)
qed

lemma started_mirrors:
  assumes "mirrors s c"
  shows "\<exists>ms c'. length ms \<le> 1 \<and> choir_run ms c = Some c' \<and> mirrors (start_song reads clock s) c'"
proof (cases "s_songs s = [] \<or> s_angels s \<le> length (s_singing s)")
  case True
  then have "start_song reads clock s = s" by (auto simp: start_song_def split: list.split)
  with assms show ?thesis by (intro exI[of _ "[]"]) simp
next
  case False
  with idle_angel[OF assms] obtain i where i: "i < length (ch_threads c)" "ch_threads c ! i = Listening" by auto
  obtain song rest where "ch_songs c = song # rest"
    using False assms by (cases "ch_songs c") (auto simp: mirrors_def)
  with i obtain c' where c': "angel_turn False i c = Some c'" by (auto simp: angel_turn.simps)
  from took_mirrors[OF assms c' i(2)] c' show ?thesis by (intro exI[of _ "[Turn i]"]) auto
qed

text \<open>A job that ends is a song that returns, and one that panics a song that takes its thread with it.\<close>

lemma sang_mirrors:
  assumes "mirrors s c" "i < length (s_singing s)"
  shows "\<exists>ms c'. length ms \<le> 1 \<and> choir_run ms c = Some c' \<and> mirrors (sing i s) c'"
proof (rule sing_runs[OF assms(2)])
  fix P so Q cn tt
  assume runs: "s_singing s = P @ so # Q" "sing i s =
      (let s1 = s\<lparr>s_temple := a_temple (c_altar cn), s_decrees := queue (a_egress (c_altar cn))\<rparr>
       in case tt of
            Continue \<Rightarrow> s1\<lparr>s_singing := P @ so\<lparr>so_begun := True, so_conn := cn\<rparr> # Q\<rparr>
          | Return \<Rightarrow> s1\<lparr>s_singing := P @ Q,
              s_returned := s_returned s @ [(so_token so, (so_pilgrim so)\<lparr>p_virtue := Some (c_virtue cn)\<rparr>)]\<rparr>
          | Fall _ \<Rightarrow> s1\<lparr>s_singing := P @ Q, s_decrees := s_decrees s1 @ [Goodbye (so_token so)]\<rparr>
          | Crash \<Rightarrow> s1\<lparr>s_singing := P @ Q, s_angels := s_angels s - 1\<rparr>)"
  let ?song = "(so_token so, so_pilgrim so)"
  have "?song \<in># mset (in_hand (ch_threads c))" using assms(1) by (simp add: mirrors_def runs(1))
  then obtain j where j: "j < length (ch_threads c)" "ch_threads c ! j = Singing ?song" by (rule busy_angel)
  note upd = hears_update[OF j(1)] in_hand_update[OF j(1)]
  consider (on) "tt = Continue" | (ends) "tt = Return \<or> (\<exists>e. tt = Fall e)" | (crash) "tt = Crash" by (cases tt) auto
  then show ?thesis
  proof cases
    case on
    with assms(1) show ?thesis unfolding runs(2)
      by (intro exI[of _ "[]"]) (simp add: mirrors_def runs(1) Let_def)
  next
    case ends
    let ?c = "c\<lparr>ch_threads := (ch_threads c)[j := Listening], ch_sung := ch_sung c @ [?song]\<rparr>"
    have "choir_run [Turn j] c = Some ?c" using j by (simp add: angel_turn.simps)
    moreover have "mirrors (sing i s) ?c" using assms(1) ends upd[of Listening] j(2) unfolding runs(2)
      by (auto simp: mirrors_def runs(1) Let_def)
    ultimately show ?thesis by (intro exI[of _ "[Turn j]"] exI[of _ ?c] conjI) (simp, assumption+)
  next
    case crash
    let ?c = "c\<lparr>ch_threads := (ch_threads c)[j := Died]\<rparr>"
    have "choir_run [Panic j] c = Some ?c" using j by (simp add: angel_turn.simps)
    moreover have "mirrors (sing i s) ?c" using assms(1) crash upd[of Died] j(2) unfolding runs(2)
      by (auto simp: mirrors_def runs(1) Let_def)
    ultimately show ?thesis by (intro exI[of _ "[Panic j]"] exI[of _ ?c] conjI) (simp, assumption+)
  qed
qed

text \<open>A job that is dispatched is sent to the choir, whose panic is that of the event loop.\<close>

lemma dispatched_mirrors:
  assumes "mirrors s c"
  shows "\<exists>ms c'. length ms \<le> 1 \<and> choir_run ms c = Some c' \<and> mirrors (dispatch_event token s) c'"
proof (cases "fmlookup (s_ingress s) token")
  case None
  with assms show ?thesis by (intro exI[of _ "[]"]) (simp add: dispatch_event_def)
next
  case (Some p)
  show ?thesis
  proof (cases "s_angels s = 0")
    case True
    with Some assms show ?thesis by (intro exI[of _ "[]"]) (simp add: dispatch_event_def mirrors_def)
  next
    case False
    have "list_ex hears (ch_threads c)"
    proof (rule ccontr)
      assume "\<not> list_ex hears (ch_threads c)"
      then have "filter hears (ch_threads c) = []" by (auto simp: list_ex_iff filter_empty_conv)
      with assms False show False by (simp add: mirrors_def)
    qed
    with Some assms False show ?thesis
      by (intro exI[of _ "[Sing (token, p)]"]) (simp add: dispatch_event_def mirrors_def choir_sing_def)
  qed
qed

lemma deaf_choir: "mirrors s c \<Longrightarrow> s_angels s = 0 \<Longrightarrow> choir_move (Sing song) c = None"
  by (auto simp: mirrors_def choir_sing_def list_ex_iff filter_empty_conv)

lemma server_step_mirrors:
  assumes "server_step rt ar s s'" "mirrors s c"
  shows "\<exists>ms c'. length ms \<le> 1 \<and> choir_run ms c = Some c' \<and> mirrors s' c'"
proof -
  have stays: ?thesis if "s_songs s' = s_songs s" "s_singing s' = s_singing s" "s_angels s' = s_angels s"
    using assms(2) mirrors_same[OF that] by (intro exI[of _ "[]"]) simp
  from assms(1) show ?thesis
  proof cases
    case (accepted stream)
    then show ?thesis by (intro stays) (simp_all add: accept_pilgrim_def Let_def)
  next
    case (dispatched token)
    with dispatched_mirrors[OF assms(2)] show ?thesis by simp
  next
    case came_back
    then show ?thesis by (intro stays) (auto simp: take_back_def split: list.split)
  next
    case reported
    then show ?thesis by (intro stays) (auto simp: take_lost_def split: list.split)
  next
    case (started reads clock)
    with started_mirrors[OF assms(2)] show ?thesis by simp
  next
    case (sang i)
    show ?thesis
    proof (cases "i < length (s_singing s)")
      case True
      with sang sang_mirrors[OF assms(2)] show ?thesis by simp
    next
      case False
      then show ?thesis using sang by (intro stays) (simp_all add: sing_def)
    qed
  next
    case god_served
    then show ?thesis
      by (intro stays) (auto simp: god_turn_def Let_def split: list.split progress.split)
  next
    case egress_wrote
    then show ?thesis by (intro stays) (auto simp: egress_turn_def Let_def split: list.split)
  next
    case interrupted
    have "s_songs (interrupt_turn s) = s_songs s \<and> s_singing (interrupt_turn s) = s_singing s \<and>
        s_angels (interrupt_turn s) = s_angels s"
      by (cases rule: interrupt_turn_cases[of s]) (simp_all add: interrupt_done_def)
    then show ?thesis using interrupted by (intro stays) simp_all
  qed
qed

text \<open>So every state of the server has a state of the choir beside it, reached by the choir's own moves.\<close>

lemma reachable_mirrors:
  "reachable rt ar (server_start n w sks) s \<Longrightarrow> \<exists>ms c. choir_run ms (choir_new n) = Some c \<and> mirrors s c"
proof (induction rule: reachable.induct)
  case init
  show ?case using mirrors_start by (intro exI[of _ "[]"]) auto
next
  case (step s s')
  then obtain ms c where c: "choir_run ms (choir_new n) = Some c" "mirrors s c" by blast
  from server_step_mirrors[OF step.hyps(3) c(2)] obtain ns c' where "choir_run ns c = Some c'" "mirrors s' c'" by blast
  with c(1) show ?case by (intro exI[of _ "ms @ ns"] exI[of _ c']) (simp add: choir_run_append)
qed

end
