(* ===== verification/Types.thy ===== *)
theory Types
  imports Database
begin

section \<open>The types of values\<close>

text \<open>
  A key holds a string, a list, a hash or a set. All but the commands on keys as such work on values of one type:
  they refuse any other and leave it as it is, they create keys of their type, and none changes the
  type of a value. Only \<open>SET\<close> and \<open>MSET\<close> replace a value whatever its type.
\<close>

datatype kind = StringKind | ListKind | HashKind | SetKind

fun kind_of :: "Value \<Rightarrow> kind" where
  "kind_of (String _) = StringKind"
| "kind_of (List _) = ListKind"
| "kind_of (Hash _) = HashKind"
| "kind_of (Value.Set _) = SetKind"

text \<open>The key a typed command works on, the type it expects and the name in its refusal.\<close>

fun typed_command :: "database_command \<Rightarrow> (bytes \<times> kind \<times> command) option" where
  "typed_command (Get key _) = Some (key, StringKind, GET)"
| "typed_command (Append key _ _) = Some (key, StringKind, APPEND)"
| "typed_command (Incr key _) = Some (key, StringKind, INCR)"
| "typed_command (Incrby key _ _) = Some (key, StringKind, INCRBY)"
| "typed_command (Decr key _) = Some (key, StringKind, DECR)"
| "typed_command (Strlen key _) = Some (key, StringKind, STRLEN)"
| "typed_command (Hset key _ _) = Some (key, HashKind, HSET)"
| "typed_command (Hget key _ _) = Some (key, HashKind, HGET)"
| "typed_command (Hmget key _ _) = Some (key, HashKind, HMGET)"
| "typed_command (Hdel key _ _) = Some (key, HashKind, HDEL)"
| "typed_command (Hexists key _ _) = Some (key, HashKind, HEXISTS)"
| "typed_command (Hlen key _) = Some (key, HashKind, HLEN)"
| "typed_command (Hgetall key _) = Some (key, HashKind, HGETALL)"
| "typed_command (Lpush key _ _) = Some (key, ListKind, LPUSH)"
| "typed_command (Lpop key _) = Some (key, ListKind, LPOP)"
| "typed_command (LpopM key _ _) = Some (key, ListKind, LPOP)"
| "typed_command (Rpush key _ _) = Some (key, ListKind, RPUSH)"
| "typed_command (Rpop key _) = Some (key, ListKind, RPOP)"
| "typed_command (RpopM key _ _) = Some (key, ListKind, RPOP)"
| "typed_command (Llen key _) = Some (key, ListKind, LLEN)"
| "typed_command (Lrange key _ _ _) = Some (key, ListKind, LRANGE)"
| "typed_command (Lindex key _ _) = Some (key, ListKind, LINDEX)"
| "typed_command (Lset key _ _ _) = Some (key, ListKind, LSET)"
| "typed_command (Lrem key _ _ _) = Some (key, ListKind, LREM)"
| "typed_command (Sadd key _ _) = Some (key, SetKind, SADD)"
| "typed_command (Srem key _ _) = Some (key, SetKind, SREM)"
| "typed_command (Sismember key _ _) = Some (key, SetKind, SISMEMBER)"
| "typed_command (Smembers key _) = Some (key, SetKind, SMEMBERS)"
| "typed_command _ = None"

fun overwrites :: "database_command \<Rightarrow> bytes set" where
  "overwrites (database_command.Set key _) = {key}"
| "overwrites (Mset terms) = fst ` set (pairs_of terms)"
| "overwrites _ = {}"

subsection \<open>Typed operations on one key\<close>

definition cell_typed :: "kind \<Rightarrow> command \<Rightarrow> (entry option \<Rightarrow> entry option \<times> 'a outcome) \<Rightarrow> bool" where
  "cell_typed kd name cell \<longleftrightarrow>
     (\<forall>v e. kind_of v \<noteq> kd \<longrightarrow> cell (Some (v, e)) = (Some (v, e), Inl (IncorrectUsage name))) \<and>
     (\<forall>x v' e'. fst (cell x) = Some (v', e') \<longrightarrow>
        kind_of v' = (case x of None \<Rightarrow> kd | Some (v, _) \<Rightarrow> kind_of v))"

lemma projects:
  "as_string v = None \<longleftrightarrow> kind_of v \<noteq> StringKind" "as_list v = None \<longleftrightarrow> kind_of v \<noteq> ListKind"
  "as_hash v = None \<longleftrightarrow> kind_of v \<noteq> HashKind" "as_set v = None \<longleftrightarrow> kind_of v \<noteq> SetKind"
  by (cases v; simp)+

lemma read_typed:
  assumes "\<And>v. proj v = None \<longleftrightarrow> kind_of v \<noteq> kd"
  shows "cell_typed kd name (cell_read proj f d name)"
proof -
  have "proj v = None" if "kind_of v \<noteq> kd" for v using assms that by simp
  then show ?thesis by (auto simp: cell_typed_def cell_read_def)
qed

lemma update_typed:
  assumes "\<And>v. proj v = None \<longleftrightarrow> kind_of v \<noteq> kd" "\<And>a v. fst (upd a) = Some v \<Longrightarrow> kind_of v = kd"
    "\<And>v. fst fresh = Some v \<Longrightarrow> kind_of v = kd"
  shows "cell_typed kd name (cell_update proj upd fresh name)"
  unfolding cell_typed_def
proof (intro conjI allI impI)
  fix v e
  assume "kind_of v \<noteq> kd"
  then show "cell_update proj upd fresh name (Some (v, e)) = (Some (v, e), Inl (IncorrectUsage name))"
    using assms(1)[of v] by (simp add: cell_update_def)
next
  fix x v' e'
  assume v': "fst (cell_update proj upd fresh name x) = Some (v', e')"
  show "kind_of v' = (case x of None \<Rightarrow> kd | Some (v, _) \<Rightarrow> kind_of v)"
  proof (cases x)
    case None
    with v' assms(3) show ?thesis by (auto simp: cell_update_def)
  next
    case (Some y)
    with v' assms(1)[of "fst y"] assms(2) show ?thesis
      by (cases y) (auto simp: cell_update_def split: option.splits)
  qed
qed

lemma kept_list: "keep_list xs = Some v \<Longrightarrow> kind_of v = ListKind"
  by (auto simp: keep_list_def split: if_splits)

lemma added_string: "fst (add_to itoa n name s) = Some v \<Longrightarrow> kind_of v = StringKind"
  by (auto simp: add_to_def Let_def split: sum.splits if_splits)

lemma cells_typed:
  "cell_typed StringKind GET cell_get" "cell_typed StringKind APPEND (cell_append w)"
  "cell_typed StringKind INCR (cell_incr itoa)" "cell_typed StringKind INCRBY (cell_incrby itoa n)"
  "cell_typed StringKind DECR (cell_decr itoa)" "cell_typed StringKind STRLEN cell_strlen"
  "cell_typed HashKind HSET (cell_hset ps)" "cell_typed HashKind HGET (cell_hget field)"
  "cell_typed HashKind HMGET (cell_hmget flds)" "cell_typed HashKind HDEL (cell_hdel flds)"
  "cell_typed HashKind HEXISTS (cell_hexists field)" "cell_typed HashKind HLEN cell_hlen"
  "cell_typed HashKind HGETALL (cell_hgetall iter)"
  "cell_typed ListKind LPUSH (cell_lpush es)" "cell_typed ListKind LPOP cell_lpop"
  "cell_typed ListKind LPOP (cell_lpop_m count)" "cell_typed ListKind RPUSH (cell_rpush es)"
  "cell_typed ListKind RPOP cell_rpop" "cell_typed ListKind RPOP (cell_rpop_m count)"
  "cell_typed ListKind LLEN cell_llen" "cell_typed ListKind LRANGE (cell_lrange a b)"
  "cell_typed ListKind LINDEX (cell_lindex i)" "cell_typed ListKind LSET (cell_lset i x)"
  "cell_typed ListKind LREM (cell_lrem m x)"
  "cell_typed SetKind SADD (cell_sadd vs)" "cell_typed SetKind SREM (cell_srem vs)"
  "cell_typed SetKind SISMEMBER (cell_sismember y)" "cell_typed SetKind SMEMBERS (cell_smembers iter)"
  unfolding cell_get_def cell_append_def cell_incr_def cell_incrby_def cell_decr_def cell_strlen_def cell_hset_def
    cell_hget_def cell_hmget_def cell_hdel_def cell_hexists_def cell_hlen_def cell_hgetall_def cell_lpush_def
    cell_lpop_def cell_lpop_m_def cell_rpush_def cell_rpop_def cell_rpop_m_def cell_llen_def cell_lrange_def
    cell_lindex_def cell_lset_def cell_lrem_def cell_sadd_def cell_srem_def cell_sismember_def cell_smembers_def
  by ((rule read_typed update_typed; (simp only: projects)?);
    auto dest: kept_list added_string split: option.splits if_splits)+

subsection \<open>Typed commands\<close>

lemma cell_typed_kind:
  "cell_typed kd name cell \<Longrightarrow> fst (cell None) = Some (v', e') \<Longrightarrow> kind_of v' = kd"
  "cell_typed kd name cell \<Longrightarrow> fst (cell (Some (v, e))) = Some (v', e') \<Longrightarrow> kind_of v' = kind_of v"
  by (fastforce simp: cell_typed_def)+

lemma at_key_typed:
  assumes "cell_typed kd name cell"
  shows "view k = Some (v, e) \<Longrightarrow> kind_of v \<noteq> kd \<Longrightarrow> at_key k cell f view = (view, Error (IncorrectUsage name))"
    and "view k = None \<Longrightarrow> fst (at_key k cell f view) k = Some (v', e') \<Longrightarrow> kind_of v' = kd"
    and "fst (at_key k cell f view) j = Some (v', e') \<Longrightarrow> view j = Some (v, e) \<Longrightarrow> kind_of v' = kind_of v"
  using assms cell_typed_kind[OF assms]
  by (auto simp: cell_typed_def at_key_def fun_upd_idem split: if_splits)

lemmas refused_arms = cells_typed[THEN at_key_typed(1)]
lemmas created_arms = cells_typed[THEN at_key_typed(2)]
lemmas kept_arms = cells_typed[THEN at_key_typed(3)]

lemma spec_refuses:
  assumes "typed_command cmd = Some (key, kd, name)" "view key = Some (v, e)" "kind_of v \<noteq> kd"
  shows "database_spec rt config now view cmd = (view, Error (IncorrectUsage name))"
  using assms by (cases cmd) (simp_all add: refused_arms)

lemma spec_creates:
  assumes "typed_command cmd = Some (key, kd, name)" "view key = None"
    "fst (database_spec rt config now view cmd) key = Some (v, e)"
  shows "kind_of v = kd"
  using assms by (cases cmd) (simp_all, (erule (1) created_arms)+)

lemma cell_kinds:
  "fst (cell_expire expiry now (Some (v, e))) = Some (v', e') \<Longrightarrow> v' = v"
  "fst (cell_ttl time (Some (v, e))) = Some (v', e') \<Longrightarrow> v' = v"
  by (auto simp: cell_expire_def cell_ttl_def split: option.splits if_splits)

lemma spec_keeps_kind:
  assumes "key \<notin> overwrites cmd" "view key = Some (v, e)"
    "fst (database_spec rt config now view cmd) key = Some (v', e')"
  shows "kind_of v' = kind_of v"
proof (cases cmd)
  case (Mset terms)
  have "map_of (rev (pairs_of terms)) key = None" using assms(1) Mset by (auto simp: map_of_eq_None_iff)
  with assms(2,3) Mset show ?thesis by (simp add: map_add_def)
next
  case (Del keys t)
  with assms(2,3) show ?thesis by (simp add: restrict_map_def split: if_splits)
next
  case (Set k x)
  with assms show ?thesis by (simp split: if_splits)
next
  case (Expire k x t)
  with assms(2,3) show ?thesis by (auto dest: cell_kinds split: if_splits)
next
  case (Ttl k t)
  with assms(2,3) show ?thesis by (auto dest: cell_kinds split: if_splits)
qed (insert assms, simp_all, (erule (1) kept_arms)+)

text \<open>The same of the thread, whose refusals leave every entry in place.\<close>

lemma implements_same:
  assumes "implements now soul {key} result (live now soul, r)" "live now soul key \<noteq> None"
  shows "result = Some (soul, r)"
proof -
  obtain soul' where s: "result = Some (soul', r)" "live now soul' = live now soul"
    "\<And>k. k \<noteq> key \<Longrightarrow> fmlookup soul' k = fmlookup soul k" using assms(1) by (auto simp: implements_def)
  have "live now soul' key = live now soul key" using s(2) by simp
  then have "fmlookup soul' key = fmlookup soul key"
    using assms(2) by (auto simp: live_def split: option.splits if_splits)
  with s(3) have "soul' = soul" by (metis fmap_ext)
  with s(1) show ?thesis by simp
qed

lemma command_type_keys: "typed_command cmd = Some (key, kd, name) \<Longrightarrow> command_keys cmd = {key}"
  by (cases cmd) simp_all

lemma live_typed_ok:
  assumes "live now soul key \<noteq> None" "typed_command cmd = Some (key, kd, name)"
    "case cmd of Lrange _ a b _ \<Rightarrow> is_i32 a \<and> is_i32 b | _ \<Rightarrow> True"
  shows "command_ok soul now cmd"
  using assms by (cases cmd) (auto simp: stale_other_def live_def alive_def split: option.splits if_splits)

end
