(* ===== verification/Startup.thy ===== *)
theory Startup
  imports Shutdown
begin

section \<open>Starting up and accepting (\<open>src/main.rs\<close>, \<open>src/server.rs\<close>)\<close>

text \<open>
  From the command line to the state the event loop starts in, with what the operating system answers
  as a parameter, and the loop that accepts connections. The two ends of a process are put together:
  what an exited process leaves is what the next start finds.
\<close>

subsection \<open>\<open>Ipv4Addr::from_str\<close>\<close>

text \<open>Four numbers without leading zeros, each at most 255, between dots.\<close>

fun split_dots :: "bytes \<Rightarrow> bytes list" where
  "split_dots [] = [[]]"
| "split_dots (b # bs) =
     (if b = 46 then [] # split_dots bs
      else case split_dots bs of [] \<Rightarrow> [[b]] | part # parts \<Rightarrow> (b # part) # parts)"

definition octet_valid :: "bytes \<Rightarrow> bool" where
  "octet_valid ds \<longleftrightarrow> ds \<noteq> [] \<and> length ds \<le> 3 \<and> list_all is_ascii_digit ds \<and> (hd ds = 48 \<longrightarrow> length ds = 1) \<and>
     foldl (\<lambda>n d. 10 * n + unat (d - 48)) 0 ds \<le> 255"

definition ipv4_valid :: "bytes \<Rightarrow> bool" where
  "ipv4_valid s \<longleftrightarrow> length (split_dots s) = 4 \<and> list_all octet_valid (split_dots s)"

subsection \<open>\<open>run\<close> up to its loop\<close>

datatype server_startup_error =
    InvalidIpAddress bytes
  | PollCreationFailed bytes
  | BindFailed bytes
  | InvalidPath bytes

text \<open>The errors of \<open>Poll::new\<close>, \<open>TcpListener::bind\<close> and of registering the listener, if any.\<close>

record operating_system =
  os_poll :: "bytes option"
  os_bind :: "bytes option"
  os_register :: "bytes option"

definition server_run ::
  "runtime \<Rightarrow> archiver \<Rightarrow> operating_system \<Rightarrow> disk \<Rightarrow> sockets \<Rightarrow>
   bytes \<Rightarrow> nat \<Rightarrow> nat \<Rightarrow> nat \<Rightarrow> bytes \<Rightarrow> bytes \<Rightarrow> nat \<Rightarrow> bytes \<Rightarrow> server_startup_error + server" where
  "server_run rt ar os disk sks ipv4_address port io_threads event_capacity dir dbfilename max_memory append_only =
     (if \<not> ipv4_valid ipv4_address then Inl (InvalidIpAddress ipv4_address)
      else case os_poll os of
        Some e \<Rightarrow> Inl (PollCreationFailed e)
      | None \<Rightarrow>
          (case os_bind os of
             Some e \<Rightarrow> Inl (BindFailed e)
           | None \<Rightarrow>
               (case os_register os of
                  Some e \<Rightarrow> Inl (PollCreationFailed e)
                | None \<Rightarrow>
                    if \<not> utf8_valid dir then Inl (InvalidPath dir)
                    else Inr (server_start io_threads
                      \<lparr>w_god = god_start ar disk dir dbfilename ipv4_address (rt_itoa rt (int port))
                         (rt_itoa rt (int io_threads)) (rt_itoa rt (int event_capacity)) (rt_itoa rt (int max_memory))
                         append_only,
                       w_disk = disk, w_egress = \<lparr>receiver_alive = True, queue = []\<rparr>, w_answers = []\<rparr> sks))))"

subsection \<open>\<open>main\<close>\<close>

record args =
  arg_ip :: bytes
  arg_port :: nat
  arg_io_threads :: nat
  arg_event_limit :: nat
  arg_dir :: "bytes option"
  arg_dbfilename :: bytes

definition default_args :: args where
  "default_args = \<lparr>arg_ip = bstr ''0.0.0.0'', arg_port = 6379, arg_io_threads = 3, arg_event_limit = 128,
     arg_dir = None, arg_dbfilename = bstr ''dump.rdb''\<rparr>"

text \<open>A process without a current directory panics; an error of \<open>run\<close> is printed and exits with code 1.\<close>

datatype process =
    NoCurrentDirectory
  | FailedToStart server_startup_error
  | Serving server

definition run_main ::
  "runtime \<Rightarrow> archiver \<Rightarrow> operating_system \<Rightarrow> bytes option \<Rightarrow> disk \<Rightarrow> sockets \<Rightarrow> args \<Rightarrow> process" where
  "run_main rt ar os current_dir disk sks a =
     (case (case arg_dir a of Some dir \<Rightarrow> Some dir | None \<Rightarrow> current_dir) of
        None \<Rightarrow> NoCurrentDirectory
      | Some dir \<Rightarrow>
          (case server_run rt ar os disk sks (arg_ip a) (arg_port a) (arg_io_threads a) (arg_event_limit a) dir
                  (arg_dbfilename a) 0 (bstr ''no'') of
             Inl e \<Rightarrow> FailedToStart e
           | Inr s \<Rightarrow> Serving s))"

text \<open>The directory a process works in.\<close>

definition working_dir :: "bytes option \<Rightarrow> args \<Rightarrow> bytes" where
  "working_dir current_dir a = (case arg_dir a of Some dir \<Rightarrow> dir | None \<Rightarrow> the current_dir)"

lemma run_main_serving:
  assumes "run_main rt ar os current_dir disk sks a = Serving s0"
  shows "utf8_valid (working_dir current_dir a) \<and>
    (\<exists>ip port io ev mm ao. s0 = server_start (arg_io_threads a)
       \<lparr>w_god = god_start ar disk (working_dir current_dir a) (arg_dbfilename a) ip port io ev mm ao,
        w_disk = disk, w_egress = \<lparr>receiver_alive = True, queue = []\<rparr>, w_answers = []\<rparr> sks)"
  using assms
  by (auto simp: run_main_def server_run_def working_dir_def split: option.splits sum.splits if_splits intro!: exI)

text \<open>A start that succeeded succeeds again on any disk.\<close>

lemma run_main_again:
  assumes "run_main rt ar os current_dir disk sks a = Serving s0"
  shows "\<exists>s1. run_main rt ar os current_dir disk' sks' a = Serving s1 \<and>
    g_soul (w_god (s_world s1)) = load_snapshot ar disk' (working_dir current_dir a) (arg_dbfilename a)"
  using assms
  by (auto simp: run_main_def server_run_def working_dir_def god_start_def server_start_def
      split: option.splits sum.splits if_splits)

subsection \<open>Accepting connections\<close>

text \<open>
  What \<open>accept\<close> returns: a connection, with whether its socket could be cloned, \<open>WouldBlock\<close>, or any
  other error. The loop ends on \<open>WouldBlock\<close> only, so it is a partial function.
\<close>

datatype accept_result =
    Accepted stream bool
  | AcceptBlocked
  | AcceptFailed

fun accept_one :: "accept_result \<Rightarrow> server \<Rightarrow> server" where
  "accept_one (Accepted stream cloned) s = (if cloned then accept_pilgrim stream s else s)"
| "accept_one AcceptBlocked s = s"
| "accept_one AcceptFailed s = s"

partial_function (option) accept_loop :: "(nat \<Rightarrow> accept_result) \<Rightarrow> nat \<Rightarrow> server \<Rightarrow> server option" where
  "accept_loop results i s =
     (if results i = AcceptBlocked then Some s else accept_loop results (i + 1) (accept_one (results i) s))"

lemma accept_loop_ends:
  "(\<And>j. j < m \<Longrightarrow> results (i + j) \<noteq> AcceptBlocked) \<Longrightarrow> results (i + m) = AcceptBlocked \<Longrightarrow>
   accept_loop results i s = Some (fold accept_one (map results [i..<i + m]) s)"
proof (induction m arbitrary: i s)
  case 0
  then show ?case by (simp add: accept_loop.simps)
next
  case (Suc m)
  have "results i \<noteq> AcceptBlocked" using Suc.prems(1)[of 0] by simp
  moreover have "accept_loop results (i + 1) (accept_one (results i) s) =
      Some (fold accept_one (map results [i + 1..<i + 1 + m]) (accept_one (results i) s))"
    using Suc.prems(1)[of "Suc _"] Suc.prems(2) by (intro Suc.IH) simp_all
  moreover have "[i..<i + Suc m] = i # [i + 1..<i + 1 + m]" by (simp add: upt_conv_Cons del: upt_Suc)
  ultimately show ?case by (subst accept_loop.simps) (simp del: upt_Suc)
qed

lemma accept_loop_returns_blocked:
  assumes "accept_loop results i s = Some s'"
  shows "\<exists>j. results (i + j) = AcceptBlocked"
proof (rule accept_loop.raw_induct[of "\<lambda>results i s s'. \<exists>j. results (i + j) = AcceptBlocked", OF _ assms])
  fix loop :: "(nat \<Rightarrow> accept_result) \<Rightarrow> nat \<Rightarrow> server \<Rightarrow> server option" and results i s s'
  assume later: "\<And>results i s s'. loop results i s = Some s' \<Longrightarrow> \<exists>j. results (i + j) = AcceptBlocked"
    and now: "(if results i = AcceptBlocked then Some s else loop results (i + 1) (accept_one (results i) s)) = Some s'"
  show "\<exists>j. results (i + j) = AcceptBlocked"
  proof (cases "results i = AcceptBlocked")
    case True
    then show ?thesis by (intro exI[of _ 0]) simp
  next
    case False
    with now later obtain j where "results (i + 1 + j) = AcceptBlocked" by fastforce
    then show ?thesis by (intro exI[of _ "1 + j"]) (simp add: add.assoc)
  qed
qed

definition cloned :: "accept_result \<Rightarrow> bool" where
  "cloned r = (case r of Accepted _ ok \<Rightarrow> ok | _ \<Rightarrow> False)"

lemma accept_one_counts:
  "s_counter (accept_one r s) = s_counter s + (if cloned r then 1 else 0)"
  "fmlookup (s_ingress s) t \<noteq> None \<Longrightarrow> fmlookup (s_ingress (accept_one r s)) t \<noteq> None"
  "cloned r \<Longrightarrow> fmlookup (s_ingress (accept_one r s)) (s_counter s) \<noteq> None"
  by (cases r; simp add: accept_pilgrim_def cloned_def Let_def)+

text \<open>Every cloned connection gets the next token and enters the map of the event loop.\<close>

lemma accept_counts:
  "s_counter (fold accept_one rs s) = s_counter s + length (filter cloned rs) \<and>
   (\<forall>t. fmlookup (s_ingress s) t \<noteq> None \<longrightarrow> fmlookup (s_ingress (fold accept_one rs s)) t \<noteq> None) \<and>
   (\<forall>t. s_counter s \<le> t \<and> t < s_counter s + length (filter cloned rs) \<longrightarrow>
      fmlookup (s_ingress (fold accept_one rs s)) t \<noteq> None)"
proof (induction rs arbitrary: s)
  case (Cons r rs)
  note IH = Cons.IH[of "accept_one r s"]
  have keep: "fmlookup (s_ingress (fold accept_one (r # rs) s)) t \<noteq> None" if "fmlookup (s_ingress s) t \<noteq> None" for t
    using IH accept_one_counts(2)[OF that, of r] by simp
  have new: "fmlookup (s_ingress (fold accept_one (r # rs) s)) t \<noteq> None"
    if "s_counter s \<le> t" "t < s_counter s + length (filter cloned (r # rs))" for t
  proof (cases "cloned r \<and> t = s_counter s")
    case True
    with IH accept_one_counts(3)[of r s] show ?thesis by simp
  next
    case False
    with that IH show ?thesis by (auto simp: accept_one_counts(1) split: if_splits)
  qed
  from IH keep new show ?case by (simp add: accept_one_counts(1))
qed auto

end
