(* ===== verification/EventLoop.thy ===== *)
theory EventLoop
  imports Startup "HOL-Library.Sublist"
begin

section \<open>One round of the event loop (\<open>src/server.rs\<close>)\<close>

text \<open>
  After each poll the loop takes back the connections the choir has returned, then hears the reports of
  the egress thread, then handles the events one by one. \<open>Server\<close> has these as single steps among those
  of the other threads; here they are put together as the code has them, with no other thread acting
  in between, and a round is shown to be an execution. An event of the listener carries what the calls
  of \<open>accept\<close> return, one after the other without end: the loop over them ends at \<open>WouldBlock\<close> only, so a
  round may not return.
\<close>

type_synonym event = "token \<times> (nat \<Rightarrow> accept_result)"

function drain_returned :: "server \<Rightarrow> server" where
  "drain_returned s = (if s_returned s = [] then s else drain_returned (take_back s))"
  by pat_completeness auto

termination by (relation "measure (\<lambda>s. length (s_returned s))") (auto simp: take_back_def split: list.split)

function drain_lost :: "server \<Rightarrow> server" where
  "drain_lost s = (if s_lost s = [] \<or> s_exited s then s else drain_lost (take_lost s))"
  by pat_completeness auto

termination by (relation "measure (\<lambda>s. length (s_lost s))") (auto simp: take_lost_def split: list.split)

declare drain_returned.simps [simp del] drain_lost.simps [simp del]

definition handle_event :: "event \<Rightarrow> server \<Rightarrow> server option" where
  "handle_event e s = (if fst e = SERVER then accept_loop (snd e) 0 s else Some (dispatch_event (fst e) s))"

text \<open>The process may end in any part of the round; nothing is handled after that.\<close>

fun handle_events :: "event list \<Rightarrow> server \<Rightarrow> server option" where
  "handle_events [] s = Some s"
| "handle_events (e # es) s =
     (if ended s then Some s else case handle_event e s of None \<Rightarrow> None | Some s' \<Rightarrow> handle_events es s')"

definition loop_round :: "event list \<Rightarrow> server \<Rightarrow> server option" where
  "loop_round es s = handle_events es (drain_lost (drain_returned s))"

subsection \<open>The two channels\<close>

lemma drain_returned_eq:
  "drain_returned s = s\<lparr>s_returned := [], s_ingress := fold (\<lambda>(t, p). fmupd t p) (s_returned s) (s_ingress s)\<rparr>"
proof (induction s rule: drain_returned.induct)
  case (1 s)
  show ?case
  proof (cases "s_returned s")
    case Nil
    then show ?thesis by (simp add: drain_returned.simps[of s])
  next
    case (Cons x xs)
    obtain t p where x: "x = (t, p)" by (cases x)
    have "take_back s = s\<lparr>s_returned := xs, s_ingress := fmupd t p (s_ingress s)\<rparr>" by (simp add: take_back_def Cons x)
    with 1 Cons x show ?thesis by (simp add: drain_returned.simps[of s])
  qed
qed

lemma drain_lost_eq:
  assumes "\<not> s_exited s"
  shows "drain_lost s =
    (let heard = takeWhile (\<lambda>t. t \<noteq> SERVER) (s_lost s)
     in s\<lparr>s_lost := drop (Suc (length heard)) (s_lost s), s_ingress := fold fmdrop heard (s_ingress s),
          s_exited := SERVER \<in> set (s_lost s)\<rparr>)"
  using assms
proof (induction s rule: drain_lost.induct)
  case (1 s)
  show ?case
  proof (cases "s_lost s")
    case Nil
    with 1(2) show ?thesis by (simp add: drain_lost.simps[of s])
  next
    case (Cons t ts)
    show ?thesis
    proof (cases "t = SERVER")
      case True
      then have "take_lost s = s\<lparr>s_lost := ts, s_exited := True\<rparr>" by (simp add: take_lost_def Cons)
      with 1(2) Cons True show ?thesis by (simp add: drain_lost.simps[of s] drain_lost.simps[of "s\<lparr>s_lost := ts, s_exited := True\<rparr>"])
    next
      case False
      then have "take_lost s = s\<lparr>s_lost := ts, s_ingress := fmdrop t (s_ingress s)\<rparr>" by (simp add: take_lost_def Cons)
      with 1 Cons False show ?thesis by (simp add: drain_lost.simps[of s] Let_def)
    qed
  qed
qed

lemma drain_returned_reach:
  "reachable rt ar s0 s \<Longrightarrow> \<not> ended s \<Longrightarrow> reachable rt ar s0 (drain_returned s) \<and> \<not> ended (drain_returned s)"
proof (induction s rule: drain_returned.induct)
  case (1 s)
  have "\<not> ended (take_back s)" using 1(3) by (simp add: take_back_def ended_def split: list.split)
  with 1 reachable.step[OF 1(2,3) came_back] show ?case by (simp add: drain_returned.simps[of s])
qed

lemma drain_lost_reach:
  "reachable rt ar s0 s \<Longrightarrow> \<not> ended s \<Longrightarrow> reachable rt ar s0 (drain_lost s)"
proof (induction s rule: drain_lost.induct)
  case (1 s)
  have "s_exited (take_lost s) \<Longrightarrow> drain_lost (take_lost s) = take_lost s" by (simp add: drain_lost.simps)
  moreover have "ended (take_lost s) \<Longrightarrow> s_exited (take_lost s)"
    using 1(3) by (auto simp: take_lost_def ended_def split: list.splits if_splits)
  ultimately show ?case using 1 reachable.step[OF 1(2,3) reported]
    by (cases "ended (take_lost s)") (simp_all add: drain_lost.simps[of s])
qed

subsection \<open>The events\<close>

text \<open>The streams a list of events brings, and those the program knows.\<close>

definition heard :: "(nat \<Rightarrow> accept_result) \<Rightarrow> accept_result list" where
  "heard results =
     (if \<exists>j. results j = AcceptBlocked then map results [0..<LEAST j. results j = AcceptBlocked] else [])"

definition accepted_streams :: "accept_result list \<Rightarrow> stream list" where
  "accepted_streams rs = concat (map (\<lambda>r. case r of Accepted stream True \<Rightarrow> [stream] | _ \<Rightarrow> []) rs)"

definition event_streams :: "event list \<Rightarrow> stream list" where
  "event_streams es = concat (map (\<lambda>e. if fst e = SERVER then accepted_streams (heard (snd e)) else []) es)"

definition known :: "server \<Rightarrow> stream set" where
  "known s = fmran' (e_map (s_egress s)) \<union> set (welcome_streams (s_decrees s))"

text \<open>The loop runs for ever if \<open>accept\<close> never blocks.\<close>

lemma accept_loop_heard:
  "accept_loop results 0 s = (if \<exists>j. results j = AcceptBlocked then Some (fold accept_one (heard results) s) else None)"
proof (cases "\<exists>j. results j = AcceptBlocked")
  case True
  define m where "m = (LEAST j. results j = AcceptBlocked)"
  have m: "results m = AcceptBlocked" "\<And>j. j < m \<Longrightarrow> results j \<noteq> AcceptBlocked"
    using True not_less_Least unfolding m_def by (auto intro: LeastI_ex)
  have "heard results = map results [0..<m]" using True by (simp add: heard_def m_def)
  with True m accept_loop_ends[of m results 0 s] show ?thesis by simp
next
  case False
  then show ?thesis using accept_loop_returns_blocked[of results 0 s] by (cases "accept_loop results 0 s") auto
qed

definition blocks :: "event \<Rightarrow> bool" where
  "blocks e \<longleftrightarrow> fst e = SERVER \<longrightarrow> (\<exists>j. snd e j = AcceptBlocked)"

lemma handle_event_returns: "handle_event e s = None \<longleftrightarrow> \<not> blocks e"
  by (auto simp: handle_event_def accept_loop_heard blocks_def)

lemma accept_one_kept:
  "s_songs (accept_one r s) = s_songs s" "s_returned (accept_one r s) = s_returned s" "s_lost (accept_one r s) = s_lost s"
  "s_angels (accept_one r s) = s_angels s" "ended (accept_one r s) = ended s"
  "known (accept_one r s) = known s \<union> set (accepted_streams [r])"
  by (cases r; auto simp: accept_pilgrim_def Let_def known_def accepted_streams_def ended_def)+

lemma accept_one_reach:
  assumes "reachable rt ar s0 s" "\<not> ended s" "set (accepted_streams [r]) \<inter> known s = {}"
  shows "reachable rt ar s0 (accept_one r s)"
proof (cases r)
  case (Accepted stream c)
  then show ?thesis
    using assms(1,3) reachable.step[OF assms(1,2) accepted] by (cases c) (auto simp: accepted_streams_def known_def)
qed (use assms in simp_all)

lemma accepts_reach:
  "reachable rt ar s0 s \<Longrightarrow> \<not> ended s \<Longrightarrow> distinct (accepted_streams rs) \<Longrightarrow> set (accepted_streams rs) \<inter> known s = {} \<Longrightarrow>
   reachable rt ar s0 (fold accept_one rs s) \<and> \<not> ended (fold accept_one rs s) \<and>
   known (fold accept_one rs s) = known s \<union> set (accepted_streams rs)"
proof (induction rs arbitrary: s)
  case Nil
  then show ?case by (simp add: accepted_streams_def)
next
  case (Cons r rs)
  have split: "accepted_streams (r # rs) = accepted_streams [r] @ accepted_streams rs" by (simp add: accepted_streams_def)
  have "reachable rt ar s0 (accept_one r s)" using Cons.prems by (intro accept_one_reach) (auto simp: split)
  moreover have "set (accepted_streams rs) \<inter> known (accept_one r s) = {}"
    using Cons.prems(3,4) by (auto simp: split accept_one_kept(6))
  ultimately show ?case using Cons.IH[of "accept_one r s"] Cons.prems(2,3) by (auto simp: accept_one_kept split)
qed

lemma dispatch_known: "known (dispatch_event t s) = known s"
  by (simp add: known_def dispatch_event_def split: option.split)

lemma handle_event_reach:
  assumes "reachable rt ar s0 s" "\<not> ended s" "distinct (event_streams [e])" "set (event_streams [e]) \<inter> known s = {}"
    and "handle_event e s = Some s'"
  shows "reachable rt ar s0 s' \<and> known s' = known s \<union> set (event_streams [e])"
proof (cases "fst e = SERVER")
  case True
  then have one: "event_streams [e] = accepted_streams (heard (snd e))" by (simp add: event_streams_def)
  have "s' = fold accept_one (heard (snd e)) s"
    using assms(5) True by (auto simp: handle_event_def accept_loop_heard split: if_splits)
  with accepts_reach[OF assms(1,2), of "heard (snd e)"] assms(3,4) show ?thesis by (simp add: one)
next
  case False
  then have "s' = dispatch_event (fst e) s" "event_streams [e] = []"
    using assms(5) by (simp_all add: handle_event_def event_streams_def)
  with reachable.step[OF assms(1,2) dispatched] show ?thesis by (simp add: dispatch_known)
qed

lemma handle_events_reach:
  "reachable rt ar s0 s \<Longrightarrow> distinct (event_streams es) \<Longrightarrow> set (event_streams es) \<inter> known s = {} \<Longrightarrow>
   handle_events es s = Some s' \<Longrightarrow> reachable rt ar s0 s'"
proof (induction es arbitrary: s)
  case (Cons e es)
  have split: "event_streams (e # es) = event_streams [e] @ event_streams es" by (simp add: event_streams_def)
  show ?case
  proof (cases "ended s")
    case False
    with Cons.prems(4) obtain s1 where s1: "handle_event e s = Some s1" "handle_events es s1 = Some s'"
      by (auto split: option.splits)
    have "reachable rt ar s0 s1 \<and> known s1 = known s \<union> set (event_streams [e])"
      using Cons.prems(2,3) False by (intro handle_event_reach[OF Cons.prems(1) _ _ _ s1(1)]) (auto simp: split)
    with Cons.IH[OF _ _ _ s1(2)] Cons.prems(2,3) show ?thesis by (auto simp: split)
  qed (use Cons.prems(1,4) in simp)
qed simp

text \<open>The events are handled to the end unless the process ends or some \<open>accept\<close> never blocks.\<close>

lemma handle_events_return:
  "(handle_events es s = None \<longrightarrow> (\<exists>e \<in> set es. \<not> blocks e)) \<and>
   (handle_events es s = Some s' \<longrightarrow> \<not> ended s' \<longrightarrow> (\<forall>e \<in> set es. blocks e))"
proof (induction es arbitrary: s)
  case (Cons e es)
  show ?case
  proof (cases "handle_event e s")
    case None
    with handle_event_returns[of e s] show ?thesis by auto
  next
    case (Some s1)
    with Cons.IH[of s1] handle_event_returns[of e s] show ?thesis by auto
  qed
qed simp

lemma drains_known: "known (drain_lost (drain_returned s)) = known s"
proof -
  have "known (drain_lost s) = known s" for s
    by (induction s rule: drain_lost.induct)
      (subst drain_lost.simps, auto simp: known_def take_lost_def split: list.splits)
  then show ?thesis by (simp add: drain_returned_eq) (simp add: known_def)
qed

lemma loop_round_reach:
  assumes "reachable rt ar s0 s" "\<not> ended s" "distinct (event_streams es)" "set (event_streams es) \<inter> known s = {}"
    and "loop_round es s = Some s'"
  shows "reachable rt ar s0 s'"
  using handle_events_reach[OF drain_lost_reach assms(3), of rt ar s0 "drain_returned s" s']
    drain_returned_reach[OF assms(1,2)] assms(4,5) by (simp add: loop_round_def drains_known)

lemma loop_round_returns:
  "loop_round es s = None \<Longrightarrow> \<exists>e \<in> set es. \<not> blocks e"
  "loop_round es s = Some s' \<Longrightarrow> \<not> ended s' \<Longrightarrow> \<forall>e \<in> set es. blocks e"
  unfolding loop_round_def using handle_events_return by blast+

subsection \<open>What a round does\<close>

lemma fold_fmdrop: "fmlookup (fold fmdrop ts m) t = (if t \<in> set ts then None else fmlookup m t)"
  by (induction ts arbitrary: m) auto

lemma fold_fmupd:
  "distinct (map fst xs) \<Longrightarrow> fmlookup (fold (\<lambda>(t, p). fmupd t p) xs m) t =
    (case map_of xs t of None \<Rightarrow> fmlookup m t | Some p \<Rightarrow> Some p)"
proof (induction xs arbitrary: m)
  case (Cons x xs)
  obtain u q where x: "x = (u, q)" by (cases x)
  have "map_of xs u = None" using Cons.prems x by (simp add: map_of_eq_None_iff)
  with Cons.IH[of "fmupd u q m"] Cons.prems x show ?case by (auto split: option.split)
qed simp

lemma accepts_kept:
  "s_songs (fold accept_one rs s) = s_songs s" "s_returned (fold accept_one rs s) = s_returned s"
  "s_lost (fold accept_one rs s) = s_lost s" "s_counter s \<le> s_counter (fold accept_one rs s)"
proof -
  show "s_songs (fold accept_one rs s) = s_songs s" "s_returned (fold accept_one rs s) = s_returned s"
    "s_lost (fold accept_one rs s) = s_lost s" by (induction rs arbitrary: s; simp add: accept_one_kept)+
  show "s_counter s \<le> s_counter (fold accept_one rs s)" using accept_counts[of rs s] by simp
qed

lemma accepts_map: "t < s_counter s \<Longrightarrow> fmlookup (s_ingress (fold accept_one rs s)) t = fmlookup (s_ingress s) t"
proof (induction rs arbitrary: s)
  case (Cons r rs)
  have "fmlookup (s_ingress (accept_one r s)) t = fmlookup (s_ingress s) t"
    using Cons.prems by (cases r) (auto simp: accept_pilgrim_def Let_def)
  with Cons.IH[of "accept_one r s"] Cons.prems show ?case by (simp add: accept_one_counts(1))
qed simp

lemma handle_events_ended: "ended s \<Longrightarrow> handle_events es s = Some s"
  by (cases es) simp_all

lemma handle_event_frame:
  assumes "handle_event e s = Some s'" "\<not> ended s'"
  shows "s_returned s' = s_returned s" "s_lost s' = s_lost s" "s_counter s \<le> s_counter s'" "prefix (s_songs s) (s_songs s')"
    and "t < s_counter s \<Longrightarrow> fmlookup (s_ingress s') t = (if t = fst e \<and> t \<noteq> SERVER then None else fmlookup (s_ingress s) t)"
    and "fst e = t \<Longrightarrow> t \<noteq> SERVER \<Longrightarrow> fmlookup (s_ingress s) t = Some p \<Longrightarrow> (t, p) \<in> set (s_songs s')"
  using assms
  by (auto simp: handle_event_def accept_loop_heard accepts_kept accepts_map dispatch_event_def ended_def
      split: if_splits option.splits)

lemma handle_events_do:
  "handle_events es s = Some s' \<Longrightarrow> \<not> ended s' \<Longrightarrow>
   s_returned s' = s_returned s \<and> s_lost s' = s_lost s \<and> prefix (s_songs s) (s_songs s') \<and>
   (\<forall>t < s_counter s. t \<noteq> SERVER \<longrightarrow>
      fmlookup (s_ingress s') t = (if t \<in> fst ` set es then None else fmlookup (s_ingress s) t) \<and>
      (\<forall>p. t \<in> fst ` set es \<longrightarrow> fmlookup (s_ingress s) t = Some p \<longrightarrow> (t, p) \<in> set (s_songs s')))"
proof (induction es arbitrary: s)
  case (Cons e es)
  from Cons.prems have "\<not> ended s" by (cases "ended s") auto
  with Cons.prems obtain s1 where s1: "handle_event e s = Some s1" "handle_events es s1 = Some s'"
    by (auto split: option.splits)
  have "\<not> ended s1" using handle_events_ended[of s1 es] s1(2) Cons.prems(2) by auto
  note frame = handle_event_frame[OF s1(1) this] and IH = Cons.IH[OF s1(2) Cons.prems(2)]
  have "prefix (s_songs s) (s_songs s')" using frame(4) IH by (auto intro: prefix_order.trans)
  moreover have "fmlookup (s_ingress s') t = (if t \<in> fst ` set (e # es) then None else fmlookup (s_ingress s) t)"
    if "t < s_counter s" "t \<noteq> SERVER" for t
    using IH that frame(3) frame(5)[OF that(1)] by auto
  moreover have "(t, p) \<in> set (s_songs s')"
    if "t < s_counter s" "t \<noteq> SERVER" "t \<in> fst ` set (e # es)" "fmlookup (s_ingress s) t = Some p" for t p
  proof (cases "fst e = t")
    case True
    from frame(6)[OF this that(2,4)] IH show ?thesis by (auto dest: set_mono_prefix)
  next
    case False
    then have "fmlookup (s_ingress s1) t = Some p" "t \<in> fst ` set es" using frame(5)[OF that(1)] that by auto
    moreover have "t < s_counter s1" using frame(3) that(1) by simp
    ultimately show ?thesis using IH that(2) by blast
  qed
  ultimately show ?case using IH frame(1,2) by simp
qed simp

text \<open>
  In a round that does not end the process both channels are emptied and every connection with an event,
  in the map or just back, becomes a job, unless the egress thread has reported it.
\<close>

lemma loop_round_drained:
  assumes "\<not> ended s" "loop_round es s = Some s'" "\<not> ended s'"
  shows "drain_lost (drain_returned s) = s\<lparr>s_returned := [], s_lost := [],
    s_ingress := fold fmdrop (s_lost s) (fold (\<lambda>(t, p). fmupd t p) (s_returned s) (s_ingress s)), s_exited := False\<rparr>"
proof -
  let ?r = "drain_returned s" and ?d = "drain_lost (drain_returned s)"
  have "\<not> ended ?d" using assms(2,3) handle_events_ended[of ?d es] by (auto simp: loop_round_def)
  moreover have exited: "\<not> s_exited ?r" using assms(1) by (simp add: drain_returned_eq ended_def)
  moreover have "s_exited ?d = (SERVER \<in> set (s_lost ?r))" by (simp only: drain_lost_eq[OF exited] Let_def) simp
  moreover have lost: "s_lost ?r = s_lost s" by (simp add: drain_returned_eq)
  ultimately have noserver: "SERVER \<notin> set (s_lost s)" by (simp add: ended_def)
  then have "takeWhile (\<lambda>t. t \<noteq> SERVER) (s_lost s) = s_lost s" by (auto simp: takeWhile_eq_all_conv)
  then show ?thesis
    using noserver by (simp only: drain_lost_eq[OF exited] Let_def lost) (simp add: drain_returned_eq)
qed

lemma loop_round_channels:
  assumes "\<not> ended s" "loop_round es s = Some s'" "\<not> ended s'"
  shows "s_returned s' = [] \<and> s_lost s' = [] \<and> prefix (s_songs s) (s_songs s')"
proof -
  let ?d = "drain_lost (drain_returned s)"
  have "handle_events es ?d = Some s'" using assms(2) by (simp only: loop_round_def)
  moreover have "s_returned ?d = []" "s_lost ?d = []" "s_songs ?d = s_songs s"
    unfolding loop_round_drained[OF assms] by simp_all
  ultimately show ?thesis using handle_events_do[of es ?d s'] assms(3) by simp
qed

lemma loop_round_does:
  assumes "reachable rt ar (server_start n w sks) s" "\<not> ended s" "loop_round es s = Some s'" "\<not> ended s'"
    and "t \<noteq> SERVER" "fmlookup (s_ingress s) t = Some p \<or> (t, p) \<in> set (s_returned s)"
  shows "fmlookup (s_ingress s') t = (if t \<in> set (s_lost s) \<union> fst ` set es then None else Some p) \<and>
    (t \<in> fst ` set es - set (s_lost s) \<longrightarrow> (t, p) \<in> set (s_songs s'))"
proof -
  let ?d = "drain_lost (drain_returned s)"
  note d = loop_round_drained[OF assms(2-4)]
  have apart: "tokens_apart s" using reachable_tokens[OF assms(1)] .
  then have dist: "distinct (map fst (s_returned s))" by (simp add: tokens_apart_def apart_def busy_def)
  have away: "fmlookup (s_ingress s) u = None \<and> u < s_counter s" if "u \<in> fst ` set (s_returned s)" for u
  proof -
    have "u \<in> set (busy s)" using that by (auto simp: busy_def)
    with apart show ?thesis by (simp add: tokens_apart_def apart_def)
  qed
  have "map_of (s_returned s) t = None \<and> fmlookup (s_ingress s) t = Some p \<or> map_of (s_returned s) t = Some p"
  proof (cases "(t, p) \<in> set (s_returned s)")
    case True
    with dist show ?thesis by simp
  next
    case False
    with assms(6) have "fmlookup (s_ingress s) t = Some p" by simp
    moreover from this have "t \<notin> fst ` set (s_returned s)" using away[of t] by auto
    ultimately show ?thesis by (simp add: map_of_eq_None_iff)
  qed
  then have look: "fmlookup (s_ingress ?d) t = (if t \<in> set (s_lost s) then None else Some p)"
    unfolding d by (auto simp: fold_fmdrop fold_fmupd[OF dist])
  have "t < s_counter s"
    using assms(6)
  proof
    assume "fmlookup (s_ingress s) t = Some p"
    with apart show ?thesis by (auto simp: tokens_apart_def apart_def)
  next
    assume "(t, p) \<in> set (s_returned s)"
    then have "t \<in> fst ` set (s_returned s)" by (rule image_eqI[rotated]) simp
    with away show ?thesis by blast
  qed
  then have "t < s_counter ?d" unfolding d by simp
  moreover have "handle_events es ?d = Some s'" using assms(3) by (simp only: loop_round_def)
  note handle_events_do[OF this assms(4)]
  ultimately show ?thesis using assms(5) look by simp
qed

end
