(* ===== verification/Scenarios.thy ===== *)
theory Scenarios
  imports Routes ChoirJobs Types EventLoop
begin

section \<open>Concrete states\<close>

text \<open>
  Small states of the program that are reached by running its operations, and the facts about them
  that show the hypotheses of the properties can hold: an idle server, one client being served, a
  god thread with keys and subscribers, an egress thread with two clients.
\<close>

definition open_channel :: "'a channel" where
  "open_channel = \<lparr>receiver_alive = True, queue = []\<rparr>"

lemma open_channel_simps [simp]: "receiver_alive open_channel" "queue open_channel = []"
  by (simp_all add: open_channel_def)

definition idle_god :: god where
  "idle_god = \<lparr>g_soul = fmempty, g_clients = fmempty, g_events = fmempty, g_subscribed = {||}, g_config = fmempty\<rparr>"

definition idle_world :: world where
  "idle_world = \<lparr>w_god = idle_god, w_disk = \<lparr>disk_files = (\<lambda>_. None), disk_failure = (\<lambda>_. None)\<rparr>,
     w_egress = open_channel, w_answers = []\<rparr>"

definition idle_altar :: altar where
  "idle_altar = \<lparr>a_temple = open_channel, a_egress = open_channel\<rparr>"

definition no_archiver :: archiver where
  "no_archiver = \<lparr>to_bytes = (\<lambda>_. Inl []), from_bytes = (\<lambda>_. None)\<rparr>"

definition open_sockets :: sockets where
  "open_sockets = (\<lambda>_. \<lparr>sk_sent = [], sk_room = None\<rparr>)"

lemma idle_god_wf: "god_wf idle_god"
  by (simp add: idle_god_def god_wf_def pubsub_consistent_empty)

lemma idle_world_simps [simp]:
  "w_god idle_world = idle_god" "w_egress idle_world = open_channel" "god_wf (w_god idle_world)"
  "expiries_in_range (g_soul idle_god)"
  by (simp_all add: idle_world_def idle_god_wf) (simp add: idle_god_def expiries_in_range_def)

text \<open>Client 3 has subscribed to the event \<open>a\<close>.\<close>

definition subscribed_god :: god where
  "subscribed_god = fst (serve_broadcast plain_runtime idle_god open_channel 3 (Subscribe [[97]]))"

lemma subscribed_god_simps: "god_wf subscribed_god" "[97] |\<in>| events_of (g_events subscribed_god) 3"
proof -
  show "god_wf subscribed_god"
    unfolding subscribed_god_def using idle_god_wf plain.bytes_visits by (rule serve_broadcast_wf) simp
  show "[97] |\<in>| events_of (g_events subscribed_god) 3"
    by (simp add: subscribed_god_def idle_god_def event_map_subscribe_def Let_def)
qed

text \<open>A server with a directory and a file name, and an archiver that only handles an empty key space.\<close>

definition empty_archiver :: archiver where
  "empty_archiver = \<lparr>to_bytes = (\<lambda>s. if s = fmempty then Inr [1] else Inl []), from_bytes = (\<lambda>_. Some fmempty)\<rparr>"

definition configured_world :: world where
  "configured_world = idle_world\<lparr>w_god := idle_god\<lparr>g_config := initialize_config fmempty [46] [100] [] [] [] [] [] []\<rparr>\<rparr>"

lemma empty_archiver_simps [simp]:
  "to_bytes empty_archiver s = (if s = fmempty then Inr [1] else Inl [])" "from_bytes empty_archiver c = Some fmempty"
  by (simp_all add: empty_archiver_def)

lemma configured_world_simps [simp]:
  "g_soul (w_god configured_world) = fmempty"
  "g_config (w_god configured_world) = initialize_config fmempty [46] [100] [] [] [] [] [] []"
  "disk_failure (w_disk configured_world) p = None" "w_answers configured_world = []"
  by (simp_all add: configured_world_def idle_world_def idle_god_def)

text \<open>A first connection is accepted, becomes readable, and an I/O thread takes it.\<close>

definition one_client :: server where
  "one_client = start_song [Chunk (bstr ''*'')] (\<lambda>_. 0)
     (dispatch_event 1 (accept_pilgrim 5 (server_start 3 idle_world open_sockets)))"

abbreviation runs_to :: "server \<Rightarrow> bool" where
  "runs_to \<equiv> reachable plain_runtime no_archiver (server_start 3 idle_world open_sockets)"

lemma one_client_reachable: "runs_to one_client"
proof -
  have "server_step plain_runtime no_archiver (server_start 3 idle_world open_sockets)
      (accept_pilgrim 5 (server_start 3 idle_world open_sockets))"
    by (rule accepted) (simp_all add: server_start_def fmran'_def)
  moreover have "\<not> ended (server_start 3 idle_world open_sockets)"
    "\<not> ended (accept_pilgrim 5 (server_start 3 idle_world open_sockets))"
    "\<not> ended (dispatch_event 1 (accept_pilgrim 5 (server_start 3 idle_world open_sockets)))"
    by (simp_all add: accept_pilgrim_def dispatch_event_def Let_def) (simp add: server_start_def)
  ultimately show ?thesis
    unfolding one_client_def by (meson reachable.init reachable.step dispatched started)
qed

lemma one_client_simps:
  "map so_token (s_singing one_client) = [1]" "s_counter one_client = 2"
  "s_decrees one_client = [Welcome 1 5]" "s_egress one_client = s_egress (server_start 3 idle_world open_sockets)"
  "\<not> ended one_client"
  by (simp_all add: one_client_def start_song_def dispatch_event_def accept_pilgrim_def server_start_def ended_def Let_def)

text \<open>The egress thread has welcomed the client.\<close>

definition welcomed :: server where
  "welcomed = egress_turn plain_runtime one_client"

lemma welcomed_reachable: "runs_to welcomed"
  unfolding welcomed_def using one_client_reachable one_client_simps(5) egress_wrote by (rule reachable.step)

lemma welcomed_stream: "fmlookup (e_map (s_egress welcomed)) 1 = Some 5"
  by (simp add: welcomed_def egress_turn_def one_client_simps Let_def)

text \<open>Two clients with room in their sockets.\<close>

definition two_clients :: egress_thread where
  "two_clients = \<lparr>e_map = fmupd 2 8 (fmupd 1 5 fmempty), e_sockets = open_sockets, e_tx = open_channel\<rparr>"

lemma two_clients_apart: "streams_apart two_clients"
  by (auto simp: streams_apart_def two_clients_def split: if_splits)

text \<open>A server started from the command line in the directory \<open>.\<close>, with the file name \<open>d\<close>.\<close>

definition calm_system :: operating_system where
  "calm_system = \<lparr>os_poll = None, os_bind = None, os_register = None\<rparr>"

definition small_args :: args where
  "small_args = default_args\<lparr>arg_dbfilename := [100]\<rparr>"

definition started_world :: world where
  "started_world = idle_world\<lparr>w_god := idle_god\<lparr>g_config := initialize_config fmempty [46] [100] (bstr ''0.0.0.0'')
     (decimal 6379) (decimal 3) (decimal 128) (decimal 0) (bstr ''no'')\<rparr>\<rparr>"

lemma started_world_simps [simp]:
  "g_soul (w_god started_world) = fmempty" "w_disk started_world = w_disk idle_world" "w_answers started_world = []"
  "file_path (g_config (w_god started_world)) = Some [46, 47, 100]" "disk_failure (w_disk idle_world) p = None"
  by (simp_all add: started_world_def idle_world_def idle_god_def started_path) (simp add: bstr_def)

lemma run_main_started:
  "run_main plain_runtime empty_archiver calm_system (Some [46]) (w_disk idle_world) open_sockets small_args =
    Serving (server_start 3 started_world open_sockets)"
proof -
  have ip: "ipv4_valid (bstr ''0.0.0.0'')" by (simp add: ipv4_valid_def octet_valid_def evaluates)
  have dir: "utf8_valid [46]" by (rule utf8_valid_ascii) simp
  have "god_start empty_archiver (w_disk idle_world) [46] [100] i p t e m ao =
      idle_god\<lparr>g_config := initialize_config fmempty [46] [100] i p t e m ao\<rparr>" for i p t e m ao
    by (simp add: god_start_def idle_world_def idle_god_def load_snapshot_def fs_read_def soul_new_def Let_def)
  then show ?thesis
    by (simp add: run_main_def server_run_def calm_system_def small_args_def default_args_def ip dir plain_runtime_def
        started_world_def) (simp add: idle_world_def open_channel_def)
qed

text \<open>An interrupt of an idle server, up to the exit of the process.\<close>

definition asked :: server where
  "asked = interrupt_turn (server_start 3 started_world open_sockets)"

definition told :: server where
  "told = god_turn plain_runtime empty_archiver asked"

definition ordered :: server where
  "ordered = interrupt_turn told"

definition saved :: server where
  "saved = god_turn plain_runtime empty_archiver ordered"

definition shut_down :: server where
  "shut_down = take_lost (interrupt_turn saved)"

lemma utf8_path: "utf8_valid [46, 47, 100]"
  by (rule utf8_valid_ascii) simp

lemma asked_simps:
  "asked = (server_start 3 started_world open_sockets)\<lparr>s_interrupt := AwaitingPath 0,
     s_temple := \<lparr>receiver_alive = True, queue = [\<lparr>wish_token = SERVER, wish_command = Server GetFilePath\<rparr>]\<rparr>\<rparr>"
  by (simp add: asked_def interrupt_turn_def server_start_def temple_save_ask_def)

lemma told_simps:
  "s_interrupt told = AwaitingPath 0" "s_temple told = \<lparr>receiver_alive = True, queue = []\<rparr>" "s_lost told = []"
  "w_answers (s_world told) = [FilePath (Inr [46, 47, 100])]" "\<not> ended told" "w_god (s_world told) = w_god started_world"
  "w_disk (s_world told) = w_disk started_world" "s_god_panicked told = False"
  by (simp_all add: told_def asked_simps god_turn_def god_step_def answer_def server_start_def ended_def)

lemma ordered_simps:
  "ordered = told\<lparr>s_interrupt := AwaitingSave 1, s_temple := \<lparr>receiver_alive = True,
     queue = [\<lparr>wish_token = SERVER, wish_command = Server (Save [46, 47, 100])\<rparr>]\<rparr>\<rparr>"
  by (simp add: ordered_def interrupt_turn_def told_simps temple_save_path_def utf8_path)

lemma saved_simps:
  "s_interrupt saved = AwaitingSave 1" "\<not> receiver_alive (s_temple saved)" "s_lost saved = []" "\<not> ended saved"
  "s_god_panicked saved = False" "g_soul (w_god (s_world saved)) = fmempty"
  by (simp_all add: saved_def ordered_simps told_simps god_turn_def god_step_def answer_def soul_save_def case_prod_unfold Let_def)

lemma shut_down_exited: "s_exited shut_down"
  by (simp add: shut_down_def take_lost_def interrupt_turn_def saved_simps interrupt_done_def)

lemma shut_down_simps:
  "\<not> receiver_alive (s_temple shut_down)" "s_god_panicked shut_down = False" "g_soul (w_god (s_world shut_down)) = fmempty"
  by (simp_all add: shut_down_def take_lost_def interrupt_turn_def saved_simps interrupt_done_def)

lemma shut_down_reachable: "reachable plain_runtime empty_archiver (server_start 3 started_world open_sockets) shut_down"
proof -
  let ?r = "reachable plain_runtime empty_archiver (server_start 3 started_world open_sockets)"
  have "?r asked" unfolding asked_def
    by (rule reachable.step[OF reachable.init _ interrupted]) simp
  then have "?r told" unfolding told_def
    by (rule reachable.step[OF _ _ god_served]) (simp add: asked_simps)
  then have "?r ordered" unfolding ordered_def by (rule reachable.step[OF _ told_simps(5) interrupted])
  then have "?r saved" unfolding saved_def
    by (rule reachable.step[OF _ _ god_served]) (simp add: ordered_simps told_simps)
  then have "?r (interrupt_turn saved)" by (rule reachable.step[OF _ saved_simps(4) interrupted])
  then show ?thesis unfolding shut_down_def
    by (rule reachable.step[OF _ _ reported]) (simp add: interrupt_turn_def saved_simps interrupt_done_def)
qed

end
