(* ===== verification/PingScenario.thy ===== *)
theory PingScenario
  imports Scenarios
begin

section \<open>A client that sends \<open>PING\<close>\<close>

text \<open>
  An execution with its history, turn by turn: a client connects and sends \<open>PING\<close> in one packet, an I/O
  thread reads it, parses it and answers, and the connection goes back to the event loop.
\<close>

definition ping_bytes :: bytes where
  "ping_bytes = [42, 49, 13, 10, 36, 52, 13, 10, 80, 73, 78, 71, 13, 10]"

definition ping_conn :: "nat \<Rightarrow> phase \<Rightarrow> bytes list \<Rightarrow> nat \<Rightarrow> altar \<Rightarrow> conn" where
  "ping_conn r p ts n a = \<lparr>c_virtue = \<lparr>v_backlog = ping_bytes @ replicate 4082 0, v_read = r, v_write = 14, v_terms = ts,
     v_expected = n, v_phase = p\<rparr>, c_reads = [], c_altar = a, c_clock = (\<lambda>_. 0)\<rparr>"

lemma ping_read:
  "await_bytes \<lparr>c_virtue = virtue_new, c_reads = [Chunk ping_bytes], c_altar = a, c_clock = (\<lambda>_. 0)\<rparr> =
    (ping_conn 0 Idle [] 0 a, Continue)"
  by (simp add: await_bytes_def potentially_resize_and_read_def make_room_def crowded_def usize_sub_def virtue_new_def
    write_at_def ping_conn_def ping_bytes_def)

lemma ping_conn_step:
  assumes "r < 14"
  shows "wish_step t (ping_conn r p ts n a) = parse_step t (ping_conn r p ts n a) (drop r ping_bytes) p"
proof -
  have "length ping_bytes = 14" by (simp add: ping_bytes_def)
  with assms show ?thesis by (simp add: wish_step_def ping_conn_def slice_ok_def Let_def)
qed

lemma ping_conn_advance: "advance m p' (ping_conn r p ts n a) = ping_conn (r + m) p' ts n a"
  by (simp add: ping_conn_def advance_def)

lemma ping_conn_virtue:
  "v_terms (c_virtue (ping_conn r p ts n a)) = ts" "v_expected (c_virtue (ping_conn r p ts n a)) = n"
  "ping_conn r p ts n a\<lparr>c_virtue := (c_virtue (ping_conn r p ts n a))\<lparr>v_expected := m\<rparr>\<rparr> = ping_conn r p ts m a"
  "ping_conn r p ts n a\<lparr>c_virtue := (c_virtue (ping_conn r p ts n a))\<lparr>v_terms := us\<rparr>\<rparr> = ping_conn r p us n a"
  by (simp_all add: ping_conn_def)

lemma ping_conn_hand_over:
  "hand_over t (ping_conn r p [[80, 73, 78, 71]] n a) = (ping_conn r Idle [] n (respond t (Info Pong) a), Continue)"
  by (simp add: hand_over_def ping_conn_def grant_def dispatch_def grant_ping_def evaluates)

lemma ping_drops:
  "drop 1 ping_bytes = [49, 13, 10, 36, 52, 13, 10, 80, 73, 78, 71, 13, 10]"
  "drop 4 ping_bytes = [36, 52, 13, 10, 80, 73, 78, 71, 13, 10]"
  "drop 5 ping_bytes = [52, 13, 10, 80, 73, 78, 71, 13, 10]"
  "drop 8 ping_bytes = [80, 73, 78, 71, 13, 10]"
  by (simp_all add: ping_bytes_def)

lemma ping_numbers:
  "find_crlf [49, 13, 10, 36, 52, 13, 10, 80, 73, 78, 71, 13, 10] = Some 1"
  "find_crlf [52, 13, 10, 80, 73, 78, 71, 13, 10] = Some 1"
  "bytes_to_usize [49] = Inr 1" "bytes_to_usize [52] = Inr 4"
  "1 + (Suc 0 + 2) = 4" "5 + (Suc 0 + 2) = 8" "usize_add 4 2 = 6" "usize_add 4 1 = 5"
  by (simp_all add: usize_add_def evaluates)

lemma ping_steps:
  "wish_step t (ping_conn 0 Idle [] 0 a) = (ping_conn 1 AwaitingTermCount [] 0 a, Continue)"
  "wish_step t (ping_conn 1 AwaitingTermCount [] 0 a) = (ping_conn 4 GraspingMarker [] 1 a, Continue)"
  "wish_step t (ping_conn 4 GraspingMarker [] 1 a) = (ping_conn 5 AwaitingBulkStringLength [] 1 a, Continue)"
  "wish_step t (ping_conn 5 AwaitingBulkStringLength [] 1 a) = (ping_conn 8 (AwaitingBulkString 4) [] 1 a, Continue)"
  "wish_step t (ping_conn 8 (AwaitingBulkString 4) [] 1 a) = (ping_conn 14 Idle [] 1 (respond t (Info Pong) a), Continue)"
  by (simp add: ping_conn_step ping_conn_advance ping_bytes_def)
    (simp add: ping_conn_step ping_conn_advance ping_conn_virtue ping_conn_hand_over ping_drops ping_numbers Let_def
      del: One_nat_def)+

lemma ping_return: "wish_step t (ping_conn 14 Idle [] 1 a) = (ping_conn 14 Idle [] 1 a, Return)"
  by (simp add: ping_bytes_def wish_step_def ping_conn_def slice_ok_def)

text \<open>The same job in the server, with its history.\<close>

definition pinging :: "history \<Rightarrow> server \<Rightarrow> nat \<Rightarrow> phase \<Rightarrow> nat \<Rightarrow> bytes list list \<Rightarrow> decree list \<Rightarrow> bool" where
  "pinging h s r p n reqs ds \<longleftrightarrow>
     recorded plain_runtime no_archiver (server_start 3 idle_world open_sockets) h s \<and> \<not> ended s \<and>
     (\<exists>so a. s_singing s = [so] \<and> so_token so = 1 \<and> so_begun so \<and> so_conn so = ping_conn r p [] n a \<and> p_stream (so_pilgrim so) = 5) \<and>
     s_temple s = open_channel \<and> h_bytes h 1 = ping_bytes \<and> h_requests h 1 = reqs \<and>
     s_decrees s = ds \<and> h_decreed h = ds"

lemma ping_conn_altar: "ping_conn r p ts n a\<lparr>c_altar := b\<rparr> = ping_conn r p ts n b"
  by (simp add: ping_conn_def)

lemma ping_conn_altar_of: "c_altar (ping_conn r p ts n a) = a"
  by (simp add: ping_conn_def)

lemma ping_conn_reads: "c_reads (ping_conn r p ts n a) = []"
  by (simp add: ping_conn_def)

lemma recorded_song:
  assumes "recorded rt ar s0 h s" "\<not> ended s" "s_singing s = [so]"
  obtains h' where "recorded rt ar s0 h' (sing 0 s)"
    "h_bytes h' (so_token so) = h_bytes h (so_token so) @ song_bytes s so"
    "h_requests h' (so_token so) = h_requests h (so_token so) @ song_requests s so"
    "h_decreed h' = h_decreed h @ new_decrees s (sing 0 s)"
proof
  show "recorded rt ar s0 (after_step (after_song h s (s_singing s ! 0)) s (sing 0 s)) (sing 0 s)"
    by (rule recorded.sang[OF assms(1,2)]) (simp add: assms(3))
qed (simp_all add: assms(3) after_simps after_song_def, simp add: after_step_def)

text \<open>A turn that sends \<open>es\<close> to the egress thread.\<close>

definition sends :: "(altar \<Rightarrow> altar) \<Rightarrow> decree list \<Rightarrow> bool" where
  "sends f es \<longleftrightarrow> (\<forall>a. receiver_alive (a_egress a) \<longrightarrow>
     a_temple (f a) = a_temple a \<and> queue (a_egress (f a)) = queue (a_egress a) @ es)"

lemma sends_simps: "sends (\<lambda>a. a) []" "sends (respond t r) [Deliver \<lparr>gift_token = t, gift_response = r\<rparr>]"
  by (simp_all add: sends_def respond_def deliver_def)

lemma pinging_turn:
  assumes "s_singing s = [so]" "so_begun so" "so_token so = 1" "so_conn so = ping_conn r p [] n a"
    and "\<And>a. wish_step 1 (ping_conn r p [] n a) = (ping_conn r' p' [] n' (f a), t)" "\<And>a. handed (ping_conn r p [] n a) = d"
    and "sends f es"
  shows "\<exists>b. song_turn s so = (ping_conn r' p' [] n' b, t) \<and> a_temple b = s_temple s \<and> queue (a_egress b) = s_decrees s @ es"
    "song_bytes s so = []" "song_requests s so = d"
  using assms
  by (auto simp: song_turn_def song_bytes_def song_requests_def song_conn_def ping_conn_altar ping_conn_reads bytes_taken_def
      sends_def)

lemma pinging_on:
  assumes "pinging h s r p n reqs ds"
    and turn: "\<And>a. wish_step 1 (ping_conn r p [] n a) = (ping_conn r' p' [] n' (f a), Continue)"
    and d: "\<And>a. handed (ping_conn r p [] n a) = d" and f: "sends f es"
  shows "\<exists>h s. pinging h s r' p' n' (reqs @ d) (ds @ es)"
proof -
  from assms(1) obtain so a where p: "recorded plain_runtime no_archiver (server_start 3 idle_world open_sockets) h s"
    "\<not> ended s" "s_singing s = [so]" "so_token so = 1" "so_begun so" "so_conn so = ping_conn r p [] n a"
    "h_bytes h 1 = ping_bytes" "h_requests h 1 = reqs" "s_temple s = open_channel" "s_decrees s = ds" "h_decreed h = ds"
    "p_stream (so_pilgrim so) = 5" by (auto simp: pinging_def)
  note t = pinging_turn[OF p(3,5,4,6) turn d f]
  obtain b where b: "song_turn s so = (ping_conn r' p' [] n' b, Continue)" "a_temple b = s_temple s"
    "queue (a_egress b) = s_decrees s @ es" using t(1) by blast
  let ?s = "sing 0 s"
  have s: "s_singing ?s = [so\<lparr>so_begun := True, so_conn := ping_conn r' p' [] n' b\<rparr>]" "\<not> ended ?s" "s_temple ?s = open_channel"
    "s_decrees ?s = ds @ es"
    using p(2,3,9,10) b by (simp_all add: sing_def Let_def ping_conn_altar_of ended_def)
  then have new: "new_decrees s ?s = es" by (simp add: new_decrees_def p(10))
  obtain h' where "recorded plain_runtime no_archiver (server_start 3 idle_world open_sockets) h' ?s"
    "h_bytes h' 1 = ping_bytes" "h_requests h' 1 = reqs @ d" "h_decreed h' = ds @ es"
    using recorded_song[OF p(1-3)] p(4,7,8,11) t(2,3) new by (metis append_Nil2)
  with s p(4,12) show ?thesis by (intro exI[of _ h'] exI[of _ ?s]) (auto simp: pinging_def)
qed

lemma pinging_handed:
  "handed (ping_conn 0 Idle [] 0 a) = []" "handed (ping_conn 1 AwaitingTermCount [] 0 a) = []"
  "handed (ping_conn 4 GraspingMarker [] 1 a) = []" "handed (ping_conn 5 AwaitingBulkStringLength [] 1 a) = []"
  "handed (ping_conn 8 (AwaitingBulkString 4) [] 1 a) = [[[80, 73, 78, 71]]]"
  "handed (ping_conn 14 Idle [] 1 a) = []"
  by (simp_all add: handed_def ping_conn_def window_def ping_bytes_def)

definition ping_waits :: server where
  "ping_waits = start_song [Chunk ping_bytes] (\<lambda>_. 0)
     (dispatch_event 1 (accept_pilgrim 5 (server_start 3 idle_world open_sockets)))"

lemma ping_waits_simps:
  "\<exists>so a. s_singing ping_waits = [so] \<and> so_token so = 1 \<and> \<not> so_begun so \<and> p_stream (so_pilgrim so) = 5 \<and>
     so_conn so = \<lparr>c_virtue = virtue_new, c_reads = [Chunk ping_bytes], c_altar = a, c_clock = (\<lambda>_. 0)\<rparr>"
  "\<not> ended ping_waits" "s_temple ping_waits = open_channel" "s_decrees ping_waits = [Welcome 1 5]"
  by (simp_all add: ping_waits_def start_song_def dispatch_event_def accept_pilgrim_def server_start_def ended_def
      open_channel_def Let_def)

lemma ping_waits_recorded:
  "\<exists>h. recorded plain_runtime no_archiver (server_start 3 idle_world open_sockets) h ping_waits \<and>
     h_bytes h 1 = [] \<and> h_requests h 1 = [] \<and> h_decreed h = [Welcome 1 5]"
proof -
  let ?s0 = "server_start 3 idle_world open_sockets"
  let ?s1 = "accept_pilgrim 5 ?s0"
  let ?s2 = "dispatch_event 1 ?s1"
  have "outer_step ?s0 ?s1"
    by (rule outer_step.intros(1)) (simp_all add: server_start_def fmran'_def)
  moreover have "\<not> ended ?s0" "\<not> ended ?s1" "\<not> ended ?s2"
    by (simp_all add: accept_pilgrim_def dispatch_event_def Let_def) (simp add: server_start_def)
  ultimately have "recorded plain_runtime no_archiver ?s0
      (after_step (after_step (after_step no_history ?s0 ?s1) ?s1 ?s2) ?s2 ping_waits) ping_waits"
    unfolding ping_waits_def
    by (blast intro: recorded.begun recorded.outer outer_step.intros(2,5))
  moreover have "s_decrees ?s0 = []" "s_decrees ?s1 = [Welcome 1 5]" "s_decrees ?s2 = [Welcome 1 5]"
    by (simp_all add: accept_pilgrim_def dispatch_event_def server_start_def Let_def)
  ultimately show ?thesis
    by (intro exI conjI) (assumption, simp_all add: after_simps no_history_def,
      simp add: after_step_def new_decrees_def ping_waits_simps(4))
qed

lemma pinging_begins: "\<exists>h s. pinging h s 0 Idle 0 [] [Welcome 1 5]"
proof -
  obtain h where h: "recorded plain_runtime no_archiver (server_start 3 idle_world open_sockets) h ping_waits"
    "h_bytes h 1 = []" "h_requests h 1 = []" "h_decreed h = [Welcome 1 5]" using ping_waits_recorded by blast
  obtain so a where so: "s_singing ping_waits = [so]" "so_token so = 1" "\<not> so_begun so" "p_stream (so_pilgrim so) = 5"
    "so_conn so = \<lparr>c_virtue = virtue_new, c_reads = [Chunk ping_bytes], c_altar = a, c_clock = (\<lambda>_. 0)\<rparr>"
    using ping_waits_simps(1) by blast
  obtain b where b: "song_turn ping_waits so = (ping_conn 0 Idle [] 0 b, Continue)" "a_temple b = s_temple ping_waits"
    "queue (a_egress b) = s_decrees ping_waits"
    by (simp add: song_turn_def so ping_read)
  have "song_bytes ping_waits so = ping_bytes" "song_requests ping_waits so = []"
    by (simp_all add: song_bytes_def song_requests_def so b ping_conn_reads bytes_taken_def)
  moreover have s: "s_singing (sing 0 ping_waits) = [so\<lparr>so_begun := True, so_conn := ping_conn 0 Idle [] 0 b\<rparr>]"
    "\<not> ended (sing 0 ping_waits)" "s_temple (sing 0 ping_waits) = open_channel" "s_decrees (sing 0 ping_waits) = [Welcome 1 5]"
    using so(1) b ping_waits_simps(2-4) by (simp_all add: sing_def Let_def ping_conn_altar_of)
  moreover from s(4) have "new_decrees ping_waits (sing 0 ping_waits) = []" by (simp add: new_decrees_def ping_waits_simps(4))
  ultimately obtain h' where "recorded plain_runtime no_archiver (server_start 3 idle_world open_sockets) h' (sing 0 ping_waits)"
    "h_bytes h' 1 = ping_bytes" "h_requests h' 1 = []" "h_decreed h' = [Welcome 1 5]"
    using recorded_song[OF h(1) ping_waits_simps(2) so(1)] h(2-4) so(2) by (metis append_Nil append_Nil2)
  with s so(2,4) show ?thesis by (intro exI[of _ h'] exI[of _ "sing 0 ping_waits"]) (auto simp: pinging_def)
qed

abbreviation ping_decrees :: "decree list" where
  "ping_decrees \<equiv> [Welcome 1 5, Deliver \<lparr>gift_token = 1, gift_response = Info Pong\<rparr>]"

lemma pinging_done: "\<exists>h s. pinging h s 14 Idle 1 [[[80, 73, 78, 71]]] ping_decrees"
proof -
  note same = sends_simps(1)
  obtain h s where "pinging h s 0 Idle 0 [] [Welcome 1 5]" using pinging_begins by blast
  from pinging_on[OF this ping_steps(1) pinging_handed(1) same] obtain h s where "pinging h s 1 AwaitingTermCount 0 [] [Welcome 1 5]" by auto
  from pinging_on[OF this ping_steps(2) pinging_handed(2) same] obtain h s where "pinging h s 4 GraspingMarker 1 [] [Welcome 1 5]" by auto
  from pinging_on[OF this ping_steps(3) pinging_handed(3) same] obtain h s where "pinging h s 5 AwaitingBulkStringLength 1 [] [Welcome 1 5]" by auto
  from pinging_on[OF this ping_steps(4) pinging_handed(4) same] obtain h s where "pinging h s 8 (AwaitingBulkString 4) 1 [] [Welcome 1 5]" by auto
  from pinging_on[OF this ping_steps(5) pinging_handed(5) sends_simps(2)] show ?thesis by auto
qed

text \<open>The job ends and the connection goes back.\<close>

lemma ping_answered:
  obtains h s v where "recorded plain_runtime no_archiver (server_start 3 idle_world open_sockets) h s"
    "\<not> ended s" "parked s 1 v" "v_phase v = Idle" "h_bytes h 1 = ping_bytes" "h_requests h 1 = [[[80, 73, 78, 71]]]"
    "s_temple s = open_channel" "s_decrees s = ping_decrees" "h_decreed h = ping_decrees" "connection s 1 5"
proof -
  from pinging_done obtain h s so a where p:
    "recorded plain_runtime no_archiver (server_start 3 idle_world open_sockets) h s"
    "\<not> ended s" "s_singing s = [so]" "so_token so = 1" "so_begun so" "so_conn so = ping_conn 14 Idle [] 1 a"
    "h_bytes h 1 = ping_bytes" "h_requests h 1 = [[[80, 73, 78, 71]]]" "s_temple s = open_channel"
    "s_decrees s = ping_decrees" "h_decreed h = ping_decrees" "p_stream (so_pilgrim so) = 5"
    by (auto simp: pinging_def)
  note t = pinging_turn[OF p(3,5,4,6) ping_return pinging_handed(6) sends_simps(1)]
  obtain b where b: "song_turn s so = (ping_conn 14 Idle [] 1 b, Return)" "a_temple b = s_temple s"
    "queue (a_egress b) = s_decrees s" using t(1) by auto
  let ?v = "c_virtue (ping_conn 14 Idle [] 1 b)"
  have r: "(1, (so_pilgrim so)\<lparr>p_virtue := Some ?v\<rparr>) \<in> set (s_returned (sing 0 s))"
    using p(3,4) b by (simp add: sing_def Let_def)
  then have parked: "parked (sing 0 s) 1 ?v" by (force simp: carried_def pilgrim_virtue_def)
  have conn: "connection (sing 0 s) 1 5"
    unfolding connection_def using r p(12) by (intro disjI1 exI[of _ "(so_pilgrim so)\<lparr>p_virtue := Some ?v\<rparr>"]) simp
  have rest: "s_temple (sing 0 s) = open_channel" "\<not> ended (sing 0 s)" "s_decrees (sing 0 s) = ping_decrees"
    using p(2,3,9,10) b by (simp_all add: sing_def Let_def ping_conn_altar_of ended_def)
  then have "new_decrees s (sing 0 s) = []" by (simp add: new_decrees_def p(10))
  then obtain h' where h': "recorded plain_runtime no_archiver (server_start 3 idle_world open_sockets) h' (sing 0 s)"
    "h_bytes h' 1 = ping_bytes" "h_requests h' 1 = [[[80, 73, 78, 71]]]" "h_decreed h' = ping_decrees"
    using recorded_song[OF p(1-3)] p(4,7,8,11) t(2,3) by (metis append_Nil2)
  show ?thesis by (rule that[OF h'(1) rest(2) parked _ h'(2,3) rest(1,3) h'(4) conn]) (simp add: ping_conn_def)
qed

text \<open>The egress thread, left alone, writes everything.\<close>

lemma egress_turn_keeps:
  "s_decrees s = d # ds \<Longrightarrow> s_decrees (egress_turn rt s) = ds" "s_temple (egress_turn rt s) = s_temple s"
  "ended (egress_turn rt s) = ended s"
  by (simp_all add: egress_turn_def ended_def Let_def split: list.split)

lemma egress_drains:
  "recorded rt ar s0 h s \<Longrightarrow> \<not> ended s \<Longrightarrow>
   \<exists>h' s'. recorded rt ar s0 h' s' \<and> s_decrees s' = [] \<and> s_temple s' = s_temple s \<and>
     (\<forall>t v. parked s t v \<longrightarrow> parked s' t v) \<and> connection s' = connection s \<and>
     h_bytes h' = h_bytes h \<and> h_requests h' = h_requests h \<and> h_decreed h' = h_decreed h"
proof (induction "s_decrees s" arbitrary: h s)
  case Nil
  then show ?case by (intro exI[of _ h] exI[of _ s]) simp
next
  case (Cons d ds)
  have dec: "s_decrees s = d # ds" using Cons.hyps(2) by simp
  let ?s = "egress_turn rt s"
  have "ds = s_decrees ?s" "\<not> ended ?s" using Cons.prems(2) dec by (simp_all add: egress_turn_keeps)
  from Cons.hyps(1)[OF this(1) written[OF Cons.prems dec] this(2)] show ?case
    by (simp add: egress_turn_keeps owner_held owner_connection)
qed

lemma pinged:
  obtains h s v where "recorded plain_runtime no_archiver (server_start 3 idle_world open_sockets) h s"
    "parked s 1 v" "v_phase v = Idle" "h_bytes h 1 = ping_bytes" "h_requests h 1 = [[[80, 73, 78, 71]]]"
    "s_temple s = open_channel" "s_decrees s = []" "h_written h = ping_decrees" "h_decreed h = ping_decrees" "connection s 1 5"
proof (rule ping_answered)
  fix h s v
  assume p: "recorded plain_runtime no_archiver (server_start 3 idle_world open_sockets) h s"
    "\<not> ended s" "parked s 1 v" "v_phase v = Idle" "h_bytes h 1 = ping_bytes" "h_requests h 1 = [[[80, 73, 78, 71]]]"
    "s_temple s = open_channel" "s_decrees s = ping_decrees" "h_decreed h = ping_decrees" "connection s 1 5"
  obtain h' s' where d: "recorded plain_runtime no_archiver (server_start 3 idle_world open_sockets) h' s'" "s_decrees s' = []"
    "s_temple s' = s_temple s" "parked s' 1 v" "connection s' = connection s" "h_bytes h' = h_bytes h"
    "h_requests h' = h_requests h" "h_decreed h' = h_decreed h"
    using egress_drains[OF p(1,2)] p(3) by blast
  moreover have "h_written h' = h_decreed h'" using recorded_serial[OF d(1)] d(2) by (simp add: channels_fifo_def)
  ultimately show thesis using that[of h' s' v] p by simp
qed

end
