(* ===== verification/Spec2Isabelle.thy ===== *)
theory Spec2Isabelle
  imports PingScenario
begin

text \<open>
  A verification development for \<open>heaven\<close>, a Redis-compatible in-memory server written in Rust.

  The program. Clients speak RESP over TCP. The event loop (\<open>src/server.rs\<close>) accepts
  connections and hands a readable one to a pool of I/O threads (\<open>src/choir.rs\<close>),
  which run \<open>wish\<close> (\<open>src/wish.rs\<close>): it reads from the non-blocking
  socket, parses requests incrementally and calls \<open>grant\<close>
  (\<open>src/wish/grant.rs\<close> and one file per command below it). A handler checks its
  arguments and either answers at once or sends a wish through \<open>Temple\<close>
  (\<open>src/temple.rs\<close>) to the god thread, the single owner of the key space
  \<open>Soul\<close> (\<open>src/temple/soul.rs\<close>) and of the subscription maps. Replies
  are decrees to the egress thread (\<open>src/egress.rs\<close>,
  \<open>src/egress/send.rs\<close>), which owns the write side of every socket. On interrupt a
  handler has the god thread save a snapshot, which the next start loads, and then ends the
  process.

  The theories, in the order they build on each other.

  \<^item> \<open>Prelude\<close>: byte strings, integers at their width, channels, the clock, hash-table iteration.
  \<^item> \<open>Numerals\<close> (\<open>src/wish/util.rs\<close>): \<open>find_crlf\<close> and the number parsers, with what they accept.
  \<^item> \<open>Protocol\<close>: the values the threads exchange.
  \<^item> \<open>Keyspace\<close>: \<open>Soul\<close> as a finite map, passive expiry, the live view and the interface locales of
    the typed operations; \<open>SoulStrings\<close>, \<open>SoulHashes\<close>, \<open>SoulLists\<close>, \<open>SoulSets\<close>: every operation of
    \<open>Soul\<close>, each with a cell function (its effect on one live entry) that it refines.
  \<^item> \<open>PubSub\<close>: \<open>ClientMap\<close>, \<open>EventMap\<close> and their joint invariant.
  \<^item> \<open>Snapshot\<close>: saving and loading, the disk, UTF-8.
  \<^item> \<open>Wishes\<close>: the commands of the god thread and the sender methods of \<open>Temple\<close>.
  \<^item> \<open>Temple\<close>: the god thread, one definition per arm of its loop; \<open>Database\<close>: the specification of
    all database commands on the live view, and that the arms implement it; \<open>Types\<close>: that values are typed.
  \<^item> \<open>Handlers\<close>: \<open>grant\<close> and the 39 command handlers, and that each answers once.
  \<^item> \<open>Resp\<close>: a reference encoding and decoder of RESP, written for this development; \<open>Replies\<close>: the
    rendering of replies and the egress thread, against that reference.
  \<^item> \<open>Ingress\<close>: the read buffer and the parser of \<open>wish\<close>; \<open>IngressSpec\<close>: its invariant and its
    equivalence with a parser of the whole byte stream; \<open>IngressStream\<close>: the same of each turn, for
    any bytes that may follow; \<open>IngressProgress\<close>: that a complete request never stays unread.
  \<^item> \<open>Worship\<close>: the god thread composed with the handlers: what one request leads to.
  \<^item> \<open>Choir\<close> (\<open>src/choir.rs\<close>): the thread pool, thread by thread, and its teardown; \<open>ChoirJobs\<close>: that the
    server's jobs are its songs.
  \<^item> \<open>Server\<close>: all threads and channels as a step relation with any
    interleaving, its reachable states and their invariants, the interrupt handler among the
    threads; \<open>Shutdown\<close>: the exchange that saves before the process exits;
    \<open>History\<close>: executions annotated with the traffic of the two channels, and with
    the bytes and the requests of each client, and that every execution is serial;
    \<open>Sessions\<close>: that the requests of a client are those in its bytes;
    \<open>Accounts\<close>: that they are granted, and that replies balance requests; \<open>Routes\<close>: that tokens are
    never reused, that a connection is welcomed once and before any reply, so that what is written for
    it goes to the stream it is read from, and what its socket then holds; \<open>Startup\<close>
    (\<open>src/main.rs\<close>, \<open>src/server.rs\<close>): from the command line to the first
    state, and the loop that accepts; \<open>EventLoop\<close>: a whole round of the event loop, which
    returns unless \<open>accept\<close> never blocks;
    \<open>Scenarios\<close> and \<open>PingScenario\<close>: concrete states and an execution
    with its history, for the witnesses.

  How state corresponds to code. Every struct is a record and every enum a datatype with the source's
  names. A \<open>HashMap\<close> is a finite map and a \<open>HashSet\<close> a finite set; where the code iterates over one,
  the order is a parameter (record \<open>runtime\<close>) of which only the law of the locale \<open>hash_iteration\<close> is
  used. \<open>itoa\<close> is a parameter with the law of \<open>decimal_printer\<close>, \<open>rkyv\<close> the parameter \<open>archiver\<close>; each
  law is shown to hold of a concrete function. A method that takes \<open>&mut self\<close> returns the new state
  with its result; \<open>Result\<close> is a sum with the error on the left; a panic is \<open>None\<close>, \<open>Panicked\<close> or
  \<open>Crash\<close>. \<open>u32\<close> and \<open>u64\<close> are words, \<open>i32\<close>, \<open>i64\<close> and \<open>usize\<close> are numbers with their range and the
  wrapping of the release build (which the Dockerfile builds) written out. A channel is a queue with a
  flag for a live receiver; a socket is the list of what its reads will return and the bytes written,
  with the room it has left. A stream is the identity of a connection, shared by the two halves the code
  clones; that the operating system hands out none that is in use is the premise of the step that accepts.

  Loops are structural recursions on the data they traverse. The loop of \<open>wish\<close> is a
  recursive function whose termination is proved: each turn reads from a finite list of socket
  results or consumes bytes of the buffer. No fuel is used in it; \<open>wish_calls\<close> counts
  calls of \<open>wish\<close>, one for each readiness event, and \<open>client_reads\<close> and
  \<open>decode\<close> of the reference decoder take the length of the input as a bound on the
  nesting, which the theorems show to be enough. The teardown of the choir is a transition system
  whose runs are shown to be bounded. The loop that accepts connections may run forever, so it is
  a partial function to an option.

  What the properties show: the database refines its specification; parsing does not depend on how
  bytes are cut into reads, and makes progress; every interleaving of the threads is equivalent to
  a serial run of the god thread and of the egress thread, connections, tokens and subscriptions
  keep their invariants, and the process exits only after its data is saved; over any number of
  jobs a client's requests are those one parser finds in its bytes, each is granted once and has its
  replies, and these are written to the stream the requests came from; the choir's teardown joins every thread after every job, or panics if a job has;
  replies are well-formed RESP and reach the client they are meant for; values are typed and the
  operations of each type satisfy their laws. The last sections state exactly where the code
  departs from what its clients may expect (double answers, overtaking replies, the two clocks,
  the panic of \<open>TTL\<close>, truncated broadcasts).

  Choices of the model. The room of a socket is fixed during an execution: a peer that reads and so makes
  room, or resets the connection, is not expressed, and a socket without a bound accepts everything. Steps
  of the threads are atomic per wish, per decree and per turn of a job, as the ownership in the code
  allows; the two sends of a \<open>LINDEX\<close> with a wrong number of terms are one turn. The specification cells
  of \<open>LINDEX\<close>, \<open>LSET\<close>, \<open>LRANGE\<close> and \<open>LREM\<close> use the list functions of the code; their index arithmetic
  is compared with an independent one in \<open>lindex_list_eq\<close>, \<open>lset_list_eq\<close>, \<open>lrange_list_slice\<close> and
  \<open>lrem_list_eq\<close> (\<open>SoulLists\<close>). The decoded text of an error is read off the code's own message, so only
  its form is pinned, not its wording. The requests of a history are computed from the parser state;
  \<open>sing_grants\<close> shows that they are what \<open>grant\<close> was called with.

  Not modelled: \<open>clap\<close>'s parsing of the command line, \<open>mio\<close>'s poll (which events occur, and when, is
  left open), the text of log lines and of startup errors, memory exhaustion, and the tests.
\<close>

section \<open>The database\<close>

text \<open>
  C1: Every database command the god thread serves acts on the map of live entries as its
  specification says: it gives the specified response, changes the live view as specified, and
  touches no stored entry of a key it does not name. This holds whatever expired entries the
  hash map still holds, except where \<open>command_ok\<close> says the code departs from it.
\<close>

theorem database_refinement:
  assumes "command_time cmd = None \<or> command_time cmd = Some now" and "command_ok soul now cmd"
  shows "\<exists>soul'. serve_database rt config soul cmd =
      Some (soul', snd (database_spec rt config now (live now soul) cmd)) \<and>
    live now soul' = fst (database_spec rt config now (live now soul) cmd) \<and>
    (\<forall>k. k \<notin> command_keys cmd \<longrightarrow> fmlookup soul' k = fmlookup soul k)"
  using serve_database_implements[OF assms] by (simp add: implements_def)

lemma database_refinement_witness:
  "\<exists>soul'. serve_database plain_runtime fmempty
      (fmupd [107] (List [[1]], Some 5) (fmupd [108] (String [49], None) fmempty)) (Rpush [107] [[2]] 9) =
    Some (soul', Length 1) \<and> fmlookup soul' [108] = Some (String [49], None)"
  using database_refinement[of "Rpush [107] [[2]] 9" 9
      "fmupd [107] (List [[1]], Some 5) (fmupd [108] (String [49], None) fmempty)" plain_runtime fmempty]
  by (auto simp: at_key_def cell_rpush_def cell_update_def)

text \<open>
  C2: Values are typed. A command on strings, lists, hashes or sets refuses a live key of
  another type with the error that names it and leaves the key space as it was; a key it creates
  has its type; and whatever the command, a key that lives on keeps its type unless
  \<open>SET\<close> or \<open>MSET\<close> names it. The inputs are those of
  \<open>command_ok\<close>: no pop of an expired key of another type, no \<open>TTL\<close> of
  an expiry of 2^63 seconds or more, indices of \<open>LRANGE\<close> in the range of
  \<open>i32\<close>.
\<close>

theorem values_are_typed:
  assumes "command_time cmd = None \<or> command_time cmd = Some now" "command_ok soul now cmd"
  shows "\<exists>soul' r. serve_database rt config soul cmd = Some (soul', r) \<and>
    (\<forall>key kd name v e. typed_command cmd = Some (key, kd, name) \<longrightarrow> live now soul key = Some (v, e) \<longrightarrow>
       kind_of v \<noteq> kd \<longrightarrow> soul' = soul \<and> r = Error (IncorrectUsage name)) \<and>
    (\<forall>key kd name v e. typed_command cmd = Some (key, kd, name) \<longrightarrow> live now soul key = None \<longrightarrow>
       live now soul' key = Some (v, e) \<longrightarrow> kind_of v = kd) \<and>
    (\<forall>key v e v' e'. key \<notin> overwrites cmd \<longrightarrow> live now soul key = Some (v, e) \<longrightarrow>
       live now soul' key = Some (v', e') \<longrightarrow> kind_of v' = kind_of v)"
proof -
  let ?spec = "database_spec rt config now (live now soul) cmd"
  have i: "implements now soul (command_keys cmd) (serve_database rt config soul cmd) ?spec"
    by (rule serve_database_implements[OF assms])
  then obtain soul' where s: "serve_database rt config soul cmd = Some (soul', snd ?spec)" "live now soul' = fst ?spec"
    by (auto simp: implements_def)
  have "soul' = soul \<and> snd ?spec = Error (IncorrectUsage name)"
    if "typed_command cmd = Some (key, kd, name)" "live now soul key = Some (v, e)" "kind_of v \<noteq> kd" for key kd name v e
    using implements_same[of now soul key "serve_database rt config soul cmd"] i command_type_keys[OF that(1)]
      spec_refuses[of _ _ _ _ "live now soul", OF that, of rt config now] that(2) s(1) by simp
  with s spec_creates[of cmd _ _ _ "live now soul" rt config now] spec_keeps_kind[of _ cmd "live now soul" _ _ rt config now]
  show ?thesis by (intro exI[of _ soul'] exI[of _ "snd ?spec"] conjI) (assumption, blast, metis, metis)
qed

lemma values_are_typed_witness:
  "\<exists>soul' r. serve_database plain_runtime fmempty (fmupd [107] (List [[1]], None) fmempty) (Append [107] [2] 0) = Some (soul', r) \<and>
     soul' = fmupd [107] (List [[1]], None) fmempty \<and> r = Error (IncorrectUsage APPEND)"
  using values_are_typed[of "Append [107] [2] 0" 0 "fmupd [107] (List [[1]], None) fmempty" plain_runtime fmempty]
  by (auto simp: live_def)

section \<open>From bytes to requests\<close>

text \<open>
  C3: However the bytes of a sequence of well-formed requests are cut into reads, and however
  many readiness events they take, the connection's calls of \<open>wish\<close> grant those
  requests one by one, in order: the granted ones are a prefix, and after a normal return the
  rest are exactly the requests still pending in the buffer and the socket. The alternative is a
  panic on a length within two of \<open>usize::MAX\<close>.
\<close>

theorem incremental_parsing:
  assumes "decimal_printer itoa" and "list_all request_ok reqs"
    and "stream_bytes rs = concat (map (encode itoa \<circ> request_resp) reqs)"
    and "wish_calls token n (new_conn rs a clock) = (c', t)"
  shows "if t = Crash then giant_length c'
    else (\<exists>done rest. reqs = done @ rest \<and>
      grant_all token done (a, clock) = Some (c_altar c', c_clock c') \<and> (t = Return \<longrightarrow> rest = conn_requests c'))"
proof (cases "t = Crash")
  case True
  have "virtue_wf (c_virtue (new_conn rs a clock))" by (simp add: new_conn_def virtue_new_wf)
  from wish_calls_ok[OF this assms(4)] True show ?thesis by simp
next
  case False
  with session_grants[OF assms False] show ?thesis by simp
qed

lemma incremental_parsing_witness:
  "\<exists>done rest c' t. wish_calls 7 3 (new_conn
        [Chunk [42, 49, 13], WouldBlock, Chunk [10, 36, 52, 13, 10, 80, 73, 78, 71, 13, 10]] idle_altar (\<lambda>_. 0)) = (c', t) \<and>
    (t = Crash \<and> giant_length c' \<or> [[bstr ''PING'']] = done @ rest)"
proof -
  let ?rs = "[Chunk [42, 49, 13], WouldBlock, Chunk [10, 36, 52, 13, 10, 80, 73, 78, 71, 13, 10]]"
  obtain c' t where run: "wish_calls 7 3 (new_conn ?rs idle_altar (\<lambda>_. 0)) = (c', t)" by fastforce
  have "stream_bytes ?rs = concat (map (encode decimal \<circ> request_resp) [[bstr ''PING'']])"
    by (simp add: stream_bytes_def request_resp_def bstr_def crlf_def decimal_def nat_digits.simps)
  moreover have "list_all request_ok [[bstr ''PING'']]" by (simp add: request_ok_def bstr_def)
  ultimately show ?thesis
    using incremental_parsing[OF decimal.decimal_printer_axioms _ _ run] run by (fastforce split: if_splits)
qed

text \<open>
  C4: No complete request stays unread: on a connection that its peer keeps open, well-formed
  requests of less than 32 MiB each are all granted, in order, once \<open>wish\<close> has been
  called often enough to take the bytes from the socket, and the buffer is then empty.
\<close>

theorem complete_requests_served:
  assumes "decimal_printer itoa" and "list_all (request_fits itoa) reqs" and "open_reads rs"
    and "stream_bytes rs = concat (map (encode itoa \<circ> request_resp) reqs)"
    and "reads_size rs \<le> n" and "wish_calls token n (new_conn rs a clock) = (c', t)"
  shows "t = Return \<and> grant_all token reqs (a, clock) = Some (c_altar c', c_clock c') \<and>
    c_reads c' = [] \<and> pending c' = []"
  using decimal_printer.session_served[OF assms(1,2,3,4,5,6)] .

lemma complete_requests_served_witness:
  "\<exists>c'. wish_calls 7 17 (new_conn [Chunk [42, 49, 13], WouldBlock, Chunk [10, 36, 52, 13, 10, 80, 73, 78, 71, 13, 10]] idle_altar (\<lambda>_. 0)) =
      (c', Return) \<and>
    grant_all 7 [[bstr ''PING'']] (idle_altar, \<lambda>_. 0) = Some (c_altar c', c_clock c') \<and> pending c' = []"
proof -
  let ?rs = "[Chunk [42, 49, 13], WouldBlock, Chunk [10, 36, 52, 13, 10, 80, 73, 78, 71, 13, 10]]"
  obtain c' t where run: "wish_calls 7 17 (new_conn ?rs idle_altar (\<lambda>_. 0)) = (c', t)" by fastforce
  have bytes: "stream_bytes ?rs = concat (map (encode decimal \<circ> request_resp) [[bstr ''PING'']])"
    by (simp add: stream_bytes_def request_resp_def bstr_def crlf_def decimal_def nat_digits.simps)
  have "list_all (request_fits decimal) [[bstr ''PING'']]"
    using arg_cong[OF bytes, of length] by (simp add: request_fits_def size_limit_def stream_bytes_def)
  moreover have "open_reads ?rs" "reads_size ?rs \<le> 17" by (simp_all add: open_reads_def reads_size_def)
  ultimately show ?thesis
    using complete_requests_served[OF decimal.decimal_printer_axioms _ _ bytes _ run] run by blast
qed

text \<open>
  C5: The loop of \<open>wish\<close> ends within a number of turns linear in what the socket
  holds and the buffer has unread: three times the one, twice the other and two. No input makes
  it spin.
\<close>

theorem wish_turns_bounded:
  assumes "virtue_wf (c_virtue c)" and "3 * reads_size (c_reads c) + 2 * unread c + 1 < n"
  shows "wish_turns n token c = Some (wish_loop token c)"
  using assms by (intro wish_loop_turns) (auto simp: work_def bulk_rank_def split: phase.split)

lemma wish_turns_bounded_witness:
  "wish_turns 8 7 (new_conn [Chunk [42]] idle_altar (\<lambda>_. 0)) = Some (wish_loop 7 (new_conn [Chunk [42]] idle_altar (\<lambda>_. 0)))"
  by (rule wish_turns_bounded)
    (simp_all add: new_conn_def virtue_new_wf reads_size_def unread_def, simp add: virtue_new_def)

text \<open>
  C6: Making room and reading neither panics nor loses, reorders or invents a byte: the unparsed
  bytes of the buffer followed by those of the socket stay the same. The buffer stays within 64
  MiB, and a read is refused only when the unparsed bytes are within 1 KiB of filling a buffer
  of more than 32 MiB.
\<close>

theorem reads_conserve_bytes:
  assumes "buffer_wf v"
  shows "\<exists>v' rs' r. potentially_resize_and_read v rs = Some (v', rs', r) \<and>
    window v' @ stream_bytes rs' = window v @ stream_bytes rs \<and> length (v_backlog v') \<le> 64 * 1024 * 1024 \<and>
    (r = Inl Blasphemy \<longrightarrow> 32 * 1024 * 1024 < length (v_backlog v) \<and> length (v_backlog v) - 1024 < length (window v))"
proof -
  obtain v' rs' r where p: "potentially_resize_and_read v rs = Some (v', rs', r)" "buffer_wf v'"
    "window v' @ stream_bytes rs' = window v @ stream_bytes rs" using read_wf[OF assms] by blast
  moreover have "32 * 1024 * 1024 < length (v_backlog v) \<and> length (v_backlog v) - 1024 < length (window v)"
    if "r = Inl Blasphemy"
    using make_room_refuses[OF assms] p(1) that
    by (auto simp: potentially_resize_and_read_def split: option.splits prod.splits sum.splits read_result.splits if_splits)
  ultimately show ?thesis by (auto simp: buffer_wf_def)
qed

lemma reads_conserve_bytes_witness:
  "\<exists>v' rs' r. potentially_resize_and_read virtue_new [Chunk [1, 2]] = Some (v', rs', r) \<and>
    window v' @ stream_bytes rs' = [1, 2]"
  using reads_conserve_bytes[of virtue_new "[Chunk [1, 2]]"] virtue_new_wf
  by (auto simp: virtue_wf_def window_def virtue_new_def stream_bytes_def)

section \<open>The threads\<close>

text \<open>
  C7: However the threads interleave, an execution is a serial one. It has a history (the wishes
  sent and served, the decrees sent and written) in which both channels are first in, first out
  and lose nothing while the god thread lives; the key space, the subscriptions, the disk and
  the answers are those the god thread alone reaches on the served wishes; its replies appear in
  the history in that order; and the sockets hold what the egress thread alone writes for the
  written decrees.
\<close>

theorem executions_are_serial:
  assumes "reachable rt ar (server_start n w sks) s"
  shows "\<exists>h. recorded rt ar (server_start n w sks) h s \<and> channels_fifo h s \<and> god_serial rt ar w h s \<and>
    egress_serial rt (s_egress (server_start n w sks)) h s"
  using reachable_recorded[OF assms] recorded_serial by blast

lemma executions_are_serial_witness:
  "\<exists>ws w'. god_loop plain_runtime empty_archiver (started_world\<lparr>w_egress := open_on []\<rparr>) ws = Stopped w' \<and>
     w_disk w' = w_disk (s_world shut_down) \<and> w_answers w' = w_answers (s_world shut_down)"
  using executions_are_serial[OF shut_down_reachable] shut_down_simps
  by (fastforce simp: god_serial_def split: progress.splits)

text \<open>
  C8: Every request has one reply, and nothing else has: in every execution the replies decreed
  for a client, and its wishes still before the god thread, number one for each request granted
  to it (two for a \<open>LINDEX\<close> with a wrong number of terms) as long as the god thread
  lives, and never more after that. So once both queues are empty and the connection is at rest
  (not skipping bytes in search of a bulk string), the egress thread has had exactly the replies
  due for the requests in the bytes that the client's socket has delivered. And it has written
  them: while the connection is there, its socket, if its room is unbounded, has received
  exactly the bytes of all the replies the egress thread has had for it and of the messages
  published to it since it was welcomed, in the order of the channel. The stream must not have
  been handed out to another connection before. A reply may have no bytes: that is the
  confirmation of a \<open>SUBSCRIBE\<close> to channels the client is subscribed to already.
\<close>

theorem replies_balance_requests:
  assumes "recorded rt ar (server_start n w sks) h s" "t \<noteq> SERVER"
  shows "replies_to t (h_decreed h) + wishes_of t (queue (s_temple s)) \<le> due h t \<and>
    (receiver_alive (s_temple s) \<longrightarrow> replies_to t (h_decreed h) + wishes_of t (queue (s_temple s)) = due h t) \<and>
    (receiver_alive (s_temple s) \<and> queue (s_temple s) = [] \<and> s_decrees s = [] \<and> parked s t v \<and>
     v_phase v \<noteq> GraspingMarker \<longrightarrow>
       replies_to t (h_written h) = sum_list (map replies_due (requests Idle [] 0 (h_bytes h t)))) \<and>
    (connection s t stream \<and> sk_room (sks stream) = None \<and> (\<forall>t'. Welcome t' stream \<in> set (h_decreed h) \<longrightarrow> t' = t) \<longrightarrow>
      (\<exists>ds. ds = dropWhile (\<lambda>d. d \<noteq> Welcome t stream) (h_written h) \<and> replies_to t ds = replies_to t (h_written h) \<and>
        sk_sent (e_sockets (s_egress s) stream) = sk_sent (sks stream) @ concat (map (traffic (rt_itoa rt) t) ds)))"
proof -
  have ser: "h_decreed h = h_written h @ s_decrees s" "e_sockets (s_egress s) =
      e_sockets (egress_loop (rt_itoa rt) (s_egress (server_start n w sks)) (h_written h))"
    using recorded_serial[OF assms(1)] by (simp_all add: channels_fifo_def egress_serial_def)
  have start: "e_map (s_egress (server_start n w sks)) = fmempty" "e_sockets (s_egress (server_start n w sks)) = sks"
    by (simp_all add: server_start_def)
  have "sk_sent (e_sockets (s_egress s) stream) = sk_sent (sks stream) @
      concat (map (traffic (rt_itoa rt) t) (dropWhile (\<lambda>d. d \<noteq> Welcome t stream) (h_written h))) \<and>
      replies_to t (dropWhile (\<lambda>d. d \<noteq> Welcome t stream) (h_written h)) = replies_to t (h_written h)"
    if "connection s t stream" "sk_room (sks stream) = None" "\<forall>t'. Welcome t' stream \<in> set (h_decreed h) \<longrightarrow> t' = t"
    using socket_traffic[OF routedD(4)[OF recorded_routed[OF assms(1)] that(1), unfolded ser(1)] _ start(1)]
      that(2,3) unfolding ser start(2) by blast
  moreover have "replies_to t (h_written h) = sum_list (map replies_due (requests Idle [] 0 (h_bytes h t)))"
    if "receiver_alive (s_temple s)" "queue (s_temple s) = []" "s_decrees s = []" "parked s t v" "v_phase v \<noteq> GraspingMarker"
    using recorded_balanced[OF assms(1)] assms(2) parked_granted[OF assms(1) that(4,5)] that(1-3) ser(1)
    by (auto simp: balanced_def due_def)
  ultimately show ?thesis using recorded_balanced[OF assms(1)] assms(2) unfolding balanced_def by simp
qed

lemma replies_balance_requests_witness:
  "\<exists>h s. recorded plain_runtime no_archiver (server_start 3 idle_world open_sockets) h s \<and>
     h_bytes h 1 = ping_bytes \<and> replies_to 1 (h_written h) = 1 \<and>
     sk_sent (e_sockets (s_egress s) 5) = line ''+PONG''"
proof (rule pinged)
  fix h s v
  assume p: "recorded plain_runtime no_archiver (server_start 3 idle_world open_sockets) h s" "parked s 1 v"
    "v_phase v = Idle" "h_bytes h 1 = ping_bytes" "h_requests h 1 = [[[80, 73, 78, 71]]]"
    "s_temple s = open_channel" "s_decrees s = []" "h_written h = ping_decrees" "h_decreed h = ping_decrees" "connection s 1 5"
  have due: "due h 1 = 1" "replies_due [[80, 73, 78, 71]] = 1"
    by (simp_all add: due_def p(5) replies_due_def lindex_arity_ok_def evaluates flip: One_nat_def)
  have "requests Idle [] 0 (h_bytes h 1) = h_requests h 1" using parked_granted[OF p(1,2)] p(3) by simp
  with replies_balance_requests[OF p(1), of 1 v 5] p(2-10) due
  have "replies_to 1 (h_written h) = 1 \<and> sk_sent (e_sockets (s_egress s) 5) = line ''+PONG''"
    by (simp add: SERVER_def open_sockets_def del: One_nat_def)
  with p(1,4) show ?thesis by blast
qed

text \<open>
  C9: What the I/O threads make of a connection over many jobs, however these interleave with
  everything else, is what one parser makes of the bytes its socket delivered. The requests
  recorded for a client are a prefix of the requests in its bytes, and all of them whenever the
  connection is at rest (in the map of the event loop, queued, or on its way back), unless it
  then skips bytes in search of a bulk string. For the encodings of well-formed requests these
  are the requests that were encoded. And the requests recorded are those granted: each turn of
  a job does to the channels of wishes and of decrees exactly what \<open>grant\<close> does for
  the requests recorded in that turn, in the name of the job's own token, and nothing else but
  the goodbye of a connection that failed.
\<close>

theorem sessions_are_parsed:
  assumes "recorded rt ar (server_start n w sks) h s"
  shows "prefix (h_requests h t) (requests Idle [] 0 (h_bytes h t)) \<and>
    (parked s t v \<and> v_phase v \<noteq> GraspingMarker \<longrightarrow> h_requests h t = requests Idle [] 0 (h_bytes h t)) \<and>
    (decimal_printer itoa \<and> list_all request_ok rs \<and> h_bytes h t = concat (map (encode itoa \<circ> request_resp) rs) \<longrightarrow>
      prefix (h_requests h t) rs) \<and>
    (\<forall>i so. i < length (s_singing s) \<and> so = s_singing s ! i \<longrightarrow>
      (\<exists>a clock. grant_all (so_token so) (song_requests s so)
          (\<lparr>a_temple = s_temple s, a_egress = \<lparr>receiver_alive = True, queue = s_decrees s\<rparr>\<rparr>, c_clock (so_conn so)) = Some (a, clock) \<and>
        s_temple (sing i s) = a_temple a \<and>
        (s_decrees (sing i s) = queue (a_egress a) \<or> s_decrees (sing i s) = queue (a_egress a) @ [Goodbye (so_token so)])))"
proof -
  have "prefix (h_requests h t) (requests Idle [] 0 (h_bytes h t))"
    using recorded_sessions[OF assms] unfolding sessions_ok_def by blast
  with parked_granted[OF assms, of t v] decimal_printer.requests_roundtrip[of itoa rs 0]
    sing_grants[OF reachable_virtues[OF recorded_reachable[OF assms]]] show ?thesis by auto
qed

lemma sessions_are_parsed_witness:
  "\<exists>h s. recorded plain_runtime no_archiver (server_start 3 idle_world open_sockets) h s \<and>
     h_bytes h 1 = ping_bytes \<and> requests Idle [] 0 ping_bytes = [[[80, 73, 78, 71]]]"
proof (rule pinged)
  fix h s v
  assume p: "recorded plain_runtime no_archiver (server_start 3 idle_world open_sockets) h s" "parked s 1 v"
    "v_phase v = Idle" "h_bytes h 1 = ping_bytes" "h_requests h 1 = [[[80, 73, 78, 71]]]"
  from sessions_are_parsed[OF p(1), of 1 v] p(2-5)
  have "requests Idle [] 0 ping_bytes = [[[80, 73, 78, 71]]]" by simp
  with p show ?thesis by blast
qed

text \<open>
  C10: In every reachable state of the server, under any interleaving of its threads, a
  connection is in at most one place: waiting for an I/O thread, in one of them, on the way
  back, or in the event loop's map. So no two threads ever run \<open>wish\<close> on the same
  connection. The tokens that stand for clients anywhere, in flight in a channel or in the map
  of the egress thread too, have been given away by the counter and are never the listener's; a
  token given away never names another connection, whatever happens later; and so only the
  handler of interrupts puts the listener's token, which ends the process, among the reports to
  the event loop.
\<close>

theorem connection_ownership:
  assumes "reachable rt ar (server_start n w sks) s"
  shows "distinct (map fst (s_songs s) @ map so_token (s_singing s) @ map fst (s_returned s)) \<and>
    (\<forall>t \<in> set (map fst (s_songs s) @ map so_token (s_singing s) @ map fst (s_returned s)).
       fmlookup (s_ingress s) t = None \<and> t \<noteq> SERVER \<and> t < s_counter s) \<and>
    (\<forall>t \<in> in_use s. t \<noteq> SERVER \<and> t < s_counter s) \<and>
    (\<forall>s' t stream. reachable rt ar s s' \<longrightarrow> s_counter s \<le> s_counter s' \<and>
       (connection s' t stream \<longrightarrow> connection s t stream \<or> s_counter s \<le> t)) \<and>
    (\<forall>s'. server_step rt ar s s' \<and> SERVER \<in> set (s_lost s') \<longrightarrow> SERVER \<in> set (s_lost s) \<or> s' = interrupt_turn s)"
proof -
  obtain h where h: "recorded rt ar (server_start n w sks) h s" using reachable_recorded[OF assms] by blast
  have "distinct (busy s) \<and> (\<forall>t \<in> set (busy s). fmlookup (s_ingress s) t = None \<and> t \<noteq> SERVER \<and> t < s_counter s)"
    using reachable_tokens[OF assms] by (auto simp: tokens_apart_def apart_def SERVER_def)
  moreover have "\<forall>t \<in> in_use s. t \<noteq> SERVER \<and> t < s_counter s" using in_use_given[OF h] by blast
  moreover have "\<forall>s' t stream. reachable rt ar s s' \<longrightarrow> s_counter s \<le> s_counter s' \<and>
      (connection s' t stream \<longrightarrow> connection s t stream \<or> s_counter s \<le> t)"
    by (intro allI impI) (rule tokens_not_reused)
  moreover have "\<forall>s'. server_step rt ar s s' \<and> SERVER \<in> set (s_lost s') \<longrightarrow> SERVER \<in> set (s_lost s) \<or> s' = interrupt_turn s"
    using exit_request[OF h] by blast
  ultimately show ?thesis unfolding busy_def by (intro conjI) (elim conjE; assumption)+
qed

lemma connection_ownership_witness:
  "distinct (map fst (s_songs one_client) @ map so_token (s_singing one_client) @ map fst (s_returned one_client)) \<and>
   fmlookup (s_ingress one_client) 1 = None \<and> 1 \<in> in_use one_client \<and> SERVER \<notin> in_use one_client \<and>
   s_counter one_client = 2 \<and> 2 \<le> s_counter welcomed"
proof -
  note own = connection_ownership[OF one_client_reachable]
  have "reachable plain_runtime no_archiver one_client welcomed"
    unfolding welcomed_def using reachable.init one_client_simps(5) egress_wrote by (rule reachable.step)
  with own have "s_counter one_client \<le> s_counter welcomed" by blast
  moreover have "1 \<in> in_use one_client" by (simp add: in_use_def one_client_simps(3))
  moreover have "SERVER \<notin> in_use one_client" using own by blast
  moreover have "fmlookup (s_ingress one_client) 1 = None" using own one_client_simps(1) by auto
  moreover note conjunct1[OF own] one_client_simps(2)
  ultimately show ?thesis by simp
qed

text \<open>
  C11: In every reachable state the god thread's three subscription structures agree: a client
  is listed under an event exactly when the event is listed under the client, and a client is in
  subscriber mode exactly when it has a subscription.
\<close>

theorem subscriptions_consistent:
  assumes "reachable rt ar (server_start n w sks) s" "hash_iteration (rt_bytes rt)" "god_wf (w_god w)"
  shows "(\<forall>e t. t |\<in>| clients_of (g_clients (w_god (s_world s))) e \<longleftrightarrow>
            e |\<in>| events_of (g_events (w_god (s_world s))) t) \<and>
    (\<forall>t. t |\<in>| g_subscribed (w_god (s_world s)) \<longleftrightarrow> events_of (g_events (w_god (s_world s))) t \<noteq> {||})"
proof -
  have "pubsub_consistent (g_clients (w_god (s_world s))) (g_events (w_god (s_world s))) (g_subscribed (w_god (s_world s)))"
    using reachable_temple[OF assms(1,3,2)] by (simp add: temple_wf_def god_wf_def)
  note inv = pubsub_consistentD[OF this]
  have "fmlookup (g_events (w_god (s_world s))) t \<noteq> None \<longleftrightarrow> events_of (g_events (w_god (s_world s))) t \<noteq> {||}" for t
    using inv(3)[of t] by (auto simp: events_of_def split: option.split)
  with inv(1,4) show ?thesis by blast
qed

lemma subscriptions_consistent_witness:
  "3 |\<in>| clients_of (g_clients subscribed_god) [97] \<and> 3 |\<in>| g_subscribed subscribed_god"
proof -
  let ?w = "idle_world\<lparr>w_god := subscribed_god\<rparr>"
  have "[97] |\<in>| events_of (g_events (w_god (s_world (server_start 3 ?w open_sockets)))) 3"
    using subscribed_god_simps(2) by (simp add: server_start_def)
  with subscriptions_consistent[OF reachable.init[of plain_runtime no_archiver "server_start 3 ?w open_sockets"] plain.bytes_visits]
    subscribed_god_simps(1)
  show ?thesis by (auto simp: server_start_def)
qed

text \<open>
  C12: Replies go back to where the requests came from. In every reachable state, take a
  connection that the event loop, the choir or an I/O thread has: when the egress thread reaches
  a reply for its token, after whatever waits before it in the channel, it has a stream for that
  token, and it is the stream the connection is read from; it writes the reply there and leaves
  every other socket as it is. So no reply to a live connection is dropped for want of a welcome
  or sent to another. Two such connections are never read from the same stream, the operating
  system handing out no stream that is in use.
\<close>

theorem replies_return_home:
  assumes "reachable rt ar (server_start n w sks) s" "connection s t stream"
  shows "(\<forall>ds d later. s_decrees s = ds @ d # later \<and> carries d \<and> decree_token d = t \<longrightarrow>
      fmlookup (e_map (egress_loop (rt_itoa rt) (s_egress s) ds)) t = Some stream) \<and>
    (\<forall>ds g later. s_decrees s = ds @ Deliver g # later \<and> gift_token g = t \<longrightarrow>
      (\<exists>before. before = e_sockets (egress_loop (rt_itoa rt) (s_egress s) ds) \<and>
        e_sockets (egress_loop (rt_itoa rt) (s_egress s) (ds @ [Deliver g])) =
          before(stream := snd (write_all before stream (render (rt_itoa rt) (gift_response g))) stream))) \<and>
    (\<forall>t'. connection s t' stream \<longrightarrow> t' = t)"
proof -
  obtain h where h: "recorded rt ar (server_start n w sks) h s" using reachable_recorded[OF assms(1)] by blast
  have route: "fmlookup (e_map (egress_loop (rt_itoa rt) (s_egress s) ds)) t = Some stream"
    if "s_decrees s = ds @ d # later" "carries d" "decree_token d = t" for ds d later
    using route_pending[OF h assms(2) that] .
  have there: "e_sockets (egress_loop (rt_itoa rt) (s_egress s) (ds @ [Deliver g])) =
      (e_sockets (egress_loop (rt_itoa rt) (s_egress s) ds))(stream := snd (write_all
        (e_sockets (egress_loop (rt_itoa rt) (s_egress s) ds)) stream (render (rt_itoa rt) (gift_response g))) stream)"
    if "s_decrees s = ds @ Deliver g # later" "gift_token g = t" for ds g later
  proof -
    have "fmlookup (e_map (egress_loop (rt_itoa rt) (s_egress s) ds)) (gift_token g) = Some stream"
      unfolding that(2) by (rule route[OF that(1)]) (simp_all add: that(2))
    from trans[OF egress_deliver[OF this] write_all_there] show ?thesis unfolding egress_loop_snoc .
  qed
  have "\<forall>ds g later. s_decrees s = ds @ Deliver g # later \<and> gift_token g = t \<longrightarrow>
      (\<exists>before. before = e_sockets (egress_loop (rt_itoa rt) (s_egress s) ds) \<and>
        e_sockets (egress_loop (rt_itoa rt) (s_egress s) (ds @ [Deliver g])) =
          before(stream := snd (write_all before stream (render (rt_itoa rt) (gift_response g))) stream))"
    by (intro allI impI, elim conjE, intro exI conjI, rule refl, rule there)
  moreover have "\<forall>t'. connection s t' stream \<longrightarrow> t' = t" using connections_apart[OF h _ assms(2)] by blast
  moreover have "\<forall>ds d later. s_decrees s = ds @ d # later \<and> carries d \<and> decree_token d = t \<longrightarrow>
      fmlookup (e_map (egress_loop (rt_itoa rt) (s_egress s) ds)) t = Some stream"
    by (intro allI impI) (elim conjE, rule route)
  ultimately show ?thesis by (intro conjI)
qed

lemma replies_return_home_witness:
  "\<exists>s. reachable plain_runtime no_archiver (server_start 3 idle_world open_sockets) s \<and>
     s_decrees s = [Welcome 1 5, Deliver \<lparr>gift_token = 1, gift_response = Info Pong\<rparr>] \<and> connection s 1 5 \<and>
     fmlookup (e_map (egress_loop (rt_itoa plain_runtime) (s_egress s) [Welcome 1 5])) 1 = Some 5"
proof (rule ping_answered)
  fix h s
  assume p: "recorded plain_runtime no_archiver (server_start 3 idle_world open_sockets) h s" "connection s 1 5"
    "s_decrees s = ping_decrees"
  from replies_return_home[OF recorded_reachable[OF p(1)] p(2)]
  have "s_decrees s = [Welcome 1 5] @ Deliver \<lparr>gift_token = 1, gift_response = Info Pong\<rparr> # [] \<Longrightarrow>
      fmlookup (e_map (egress_loop (rt_itoa plain_runtime) (s_egress s) [Welcome 1 5])) 1 = Some 5"
    by (metis carries.simps(1) decree_token.simps(3) gift.select_convs(1))
  with p recorded_reachable[OF p(1)] show ?thesis by auto
qed

text \<open>
  C13: In every reachable state, the next turn of a job in an I/O thread panics only if its
  connection waits for a bulk string whose announced length is within two of
  \<open>usize::MAX\<close>; otherwise it leaves the connection's parser state well formed.
\<close>

theorem io_threads_do_not_panic:
  assumes "reachable rt ar (server_start n w sks) s" "so \<in> set (s_singing s)" "song_turn s so = (c, t)"
  shows "if t = Crash then giant_length c else virtue_wf (c_virtue c)"
proof -
  have wf: "virtue_wf (c_virtue (so_conn so))"
    using reachable_virtues[OF assms(1)] assms(2) by (simp add: virtues_wf_def)
  show ?thesis
    using song_turn_crash[OF _ wf, of s c] song_turn_virtue[OF assms(3) wf] assms(3) by auto
qed

lemma io_threads_do_not_panic_witness:
  "\<exists>so c t. so \<in> set (s_singing one_client) \<and> song_turn one_client so = (c, t) \<and>
    (if t = Crash then giant_length c else virtue_wf (c_virtue c))"
proof -
  obtain so where so: "so \<in> set (s_singing one_client)" using one_client_simps(1) by (cases "s_singing one_client") auto
  obtain c t where "song_turn one_client so = (c, t)" by fastforce
  with io_threads_do_not_panic[OF one_client_reachable so this] so show ?thesis by blast
qed

text \<open>
  C14: In every reachable state no more jobs run than angels are left, and there are at most as
  many as \<open>--io-threads\<close> asked for. The event loop has panicked only if no angel is
  left, and an angel is lost only to a job that waits for a length within two of
  \<open>usize::MAX\<close>; but a server started with no I/O threads panics on the first
  request of its first client.
\<close>

theorem event_loop_survives:
  assumes "reachable rt ar (server_start n w sks) s"
  shows "length (s_singing s) \<le> s_angels s \<and> s_angels s \<le> n \<and> (s_loop_panicked s \<longrightarrow> s_angels s = 0) \<and>
    (\<forall>s'. server_step rt ar s s' \<longrightarrow> s_angels s' < s_angels s \<longrightarrow>
      (\<exists>so c. so \<in> set (s_singing s) \<and> song_turn s so = (c, Crash) \<and> giant_length c)) \<and>
    (n = 0 \<longrightarrow> fmlookup (s_ingress s) t \<noteq> None \<longrightarrow> s_loop_panicked (dispatch_event t s))"
  using reachable_choir[OF assms] angel_lost[OF reachable_virtues[OF assms]]
  by (auto simp: choir_wf_def dispatch_event_def)

lemma event_loop_survives_witness:
  "length (s_singing one_client) \<le> s_angels one_client \<and> \<not> s_loop_panicked one_client \<and>
   s_loop_panicked (dispatch_event 1 (accept_pilgrim 5 (server_start 0 idle_world open_sockets)))"
proof -
  have "reachable plain_runtime no_archiver (server_start 0 idle_world open_sockets)
      (accept_pilgrim 5 (server_start 0 idle_world open_sockets))"
    by (rule reachable.step[OF reachable.init _ accepted]) (simp_all add: server_start_def fmran'_def ended_def)
  from event_loop_survives[OF this, of 1] event_loop_survives[OF one_client_reachable] one_client_simps(5)
  show ?thesis by (simp add: accept_pilgrim_def server_start_def ended_def Let_def)
qed

text \<open>
  C15: The jobs of the server are songs of the choir. Every execution of the server has one of
  the choir's threads beside it, with the same jobs waiting, the same in hand and as many
  threads alive as the server counts, and every further step of the server is at most one move
  of the choir; conversely, where a thread of the choir takes a song the server starts that job.
  When the event loop has panicked, every further send to the choir would panic too.
\<close>

theorem choir_carries_the_jobs:
  assumes "reachable rt ar (server_start n w sks) s"
  shows "\<exists>ms c. choir_run ms (choir_new n) = Some c \<and> mirrors s c \<and>
    (\<forall>s'. server_step rt ar s s' \<longrightarrow>
       (\<exists>ns c'. length ns \<le> 1 \<and> choir_run ns c = Some c' \<and> mirrors s' c')) \<and>
    (\<forall>i c' reads clock. angel_turn False i c = Some c' \<longrightarrow> ch_threads c ! i = Listening \<longrightarrow>
       mirrors (start_song reads clock s) c') \<and>
    (s_loop_panicked s \<longrightarrow> (\<forall>song. choir_move (Sing song) c = None))"
proof -
  obtain ms c where c: "choir_run ms (choir_new n) = Some c" "mirrors s c" using reachable_mirrors[OF assms] by blast
  have "s_loop_panicked s \<longrightarrow> s_angels s = 0" using reachable_choir[OF assms] by (simp add: choir_wf_def)
  with c server_step_mirrors[OF _ c(2)] took_mirrors[OF c(2)] deaf_choir[OF c(2)] show ?thesis by blast
qed

lemma choir_carries_the_jobs_witness:
  "\<exists>ms c. choir_run ms (choir_new 3) = Some c \<and> mirrors one_client c \<and> length (filter hears (ch_threads c)) = 3"
proof -
  have "s_angels one_client = 3"
    by (simp add: one_client_def start_song_def dispatch_event_def accept_pilgrim_def server_start_def Let_def)
  with choir_carries_the_jobs[OF one_client_reachable] show ?thesis by (fastforce simp: mirrors_def)
qed

text \<open>
  C16: Dropping the choir ends, whatever it was used for and however its threads are scheduled:
  after the drop has begun there are at most twice as many steps as songs were sent and threads
  there are, and one more. When none is left the owner is past the drop, with every thread
  returned and every song sung exactly once if no song has panicked; otherwise the unwrap of a
  join has panicked.
\<close>

theorem choir_drop_ends:
  assumes "choir_run (ms @ BeginDrop # ns) (choir_new n) = Some c"
  shows "length ns \<le> 2 * (length (songs_sent ms) + n) + 1 \<and>
    (at_rest c \<longrightarrow>
      (if panics (ms @ ns) = 0
       then ch_owner c = Dropped \<and> list_all (\<lambda>t. t = Returned) (ch_threads c) \<and> mset (ch_sung c) = mset (songs_sent ms)
       else ch_owner c = Unwound))"
  using drop_run(4)[OF assms] drop_result[OF assms] by blast

lemma choir_drop_ends_witness:
  "\<exists>(c :: nat choir) (d :: nat choir).
     choir_run ([Sing 7, Turn 0, Sing 8] @ BeginDrop # [Turn 1, Turn 0, Turn 1, Turn 0, Join, Turn 1, Join, Join])
       (choir_new 2) = Some c \<and>
     ch_owner c = Dropped \<and> mset (ch_sung c) = {#7, 8#} \<and>
     choir_run ([Sing 7, Turn 0] @ BeginDrop # [Panic 0, Join]) (choir_new 1) = Some d \<and> ch_owner d = Unwound"
proof -
  let ?ms = "[Sing 7, Turn 0, Sing 8] :: nat move list"
    and ?ns = "[Turn 1, Turn 0, Turn 1, Turn 0, Join, Turn 1, Join, Join] :: nat move list"
  let ?ks = "[Sing 7, Turn 0] :: nat move list" and ?ls = "[Panic 0, Join] :: nat move list"
  note evals = choir_new_def angel_new_def angel_turn.simps choir_sing_def drop_begin_def join_turn_def at_rest_def
    numeral_2_eq_2 Let_def
  obtain c d where c: "choir_run (?ms @ BeginDrop # ?ns) (choir_new 2) = Some c" "at_rest c"
    and d: "choir_run (?ks @ BeginDrop # ?ls) (choir_new 1) = Some d" "at_rest d"
    by (simp add: evals)
  from choir_drop_ends[OF c(1)] choir_drop_ends[OF d(1)] c(2) d(2)
  have "ch_owner c = Dropped" "mset (ch_sung c) = {#7, 8#}" "ch_owner d = Unwound" by simp_all
  with c(1) d(1) show ?thesis by blast
qed

text \<open>
  C17: The loop that accepts connections returns to the event loop exactly when some
  \<open>accept\<close> would block: other errors, such as running out of file descriptors, keep
  it going. When it returns, it has handed out consecutive new tokens, one to each connection
  whose socket could be cloned, and each of them is in the map of the event loop.
\<close>

theorem accept_loop_returns:
  "if \<exists>j. results j = AcceptBlocked
   then \<exists>m s'. results m = AcceptBlocked \<and> accept_loop results 0 s = Some s' \<and>
     s_counter s' = s_counter s + length (filter cloned (map results [0..<m])) \<and>
     (\<forall>t \<in> {s_counter s..<s_counter s'}. fmlookup (s_ingress s') t \<noteq> None)
   else accept_loop results 0 s = None"
proof (cases "\<exists>j. results j = AcceptBlocked")
  case True
  define m where "m = (LEAST j. results j = AcceptBlocked)"
  have m: "results m = AcceptBlocked" "\<And>j. j < m \<Longrightarrow> results j \<noteq> AcceptBlocked"
    using True not_less_Least unfolding m_def by (auto intro: LeastI_ex)
  then have "accept_loop results 0 s = Some (fold accept_one (map results [0..<m]) s)"
    using accept_loop_ends[of m results 0 s] by simp
  with True m(1) accept_counts[where s = s and rs = "map results [0..<m]"] show ?thesis by auto
next
  case False
  then show ?thesis using accept_loop_returns_blocked[of results 0 s] by (cases "accept_loop results 0 s") auto
qed

lemma accept_loop_returns_witness:
  "accept_loop (\<lambda>_. AcceptFailed) 0 (server_start 3 idle_world open_sockets) = None \<and>
   (\<exists>s'. accept_loop (\<lambda>i. if i = 0 then Accepted 5 True else AcceptBlocked) 0
      (server_start 3 idle_world open_sockets) = Some s')"
  using accept_loop_returns[of "\<lambda>_. AcceptFailed" "server_start 3 idle_world open_sockets"]
    accept_loop_returns[of "\<lambda>i. if i = 0 then Accepted 5 True else AcceptBlocked" "server_start 3 idle_world open_sockets"]
  by (auto split: if_splits)

text \<open>
  C18: A round of the event loop, as the code has it, is an execution when it returns. It fails
  to return only if some event of the listener finds \<open>accept\<close> never blocking, as
  under a persistent error such as \<open>EMFILE\<close>, and it never gets past such an event.
  A round that returns without ending the process has emptied the channel of returned
  connections and that of reports, and kept the jobs that waited; a connection in the map or
  just back is gone from the map if the egress thread has reported it; if not and it has an
  event, it has become a job; otherwise it is in the map. The premises say that the process runs
  and that the streams accepted in the round are new and different, as the operating system's
  are.
\<close>

theorem event_loop_round:
  assumes "reachable rt ar (server_start n w sks) s" "\<not> ended s"
    and "distinct (event_streams es)" "set (event_streams es) \<inter> known s = {}"
  shows "(loop_round es s = None \<longrightarrow> (\<exists>results. (SERVER, results) \<in> set es \<and> (\<forall>j. results j \<noteq> AcceptBlocked))) \<and>
    (\<forall>s'. loop_round es s = Some s' \<longrightarrow> reachable rt ar (server_start n w sks) s' \<and>
      (\<not> ended s' \<longrightarrow> (\<forall>results. (SERVER, results) \<in> set es \<longrightarrow> (\<exists>j. results j = AcceptBlocked)) \<and>
        s_returned s' = [] \<and> s_lost s' = [] \<and> prefix (s_songs s) (s_songs s') \<and>
        (\<forall>t p. t \<noteq> SERVER \<longrightarrow> fmlookup (s_ingress s) t = Some p \<or> (t, p) \<in> set (s_returned s) \<longrightarrow>
           fmlookup (s_ingress s') t = (if t \<in> set (s_lost s) \<union> fst ` set es then None else Some p) \<and>
           (t \<in> fst ` set es - set (s_lost s) \<longrightarrow> (t, p) \<in> set (s_songs s')))))"
proof (intro conjI allI impI)
  assume "loop_round es s = None"
  from loop_round_returns(1)[OF this] show "\<exists>results. (SERVER, results) \<in> set es \<and> (\<forall>j. results j \<noteq> AcceptBlocked)"
    by (force simp: blocks_def)
next
  fix s'
  assume s': "loop_round es s = Some s'"
  show "reachable rt ar (server_start n w sks) s'" using loop_round_reach[OF assms s'] .
  assume on: "\<not> ended s'"
  show "\<exists>j. results j = AcceptBlocked" if "(SERVER, results) \<in> set es" for results
    using loop_round_returns(2)[OF s' on] that by (force simp: blocks_def)
  show "s_returned s' = []" "s_lost s' = []" "prefix (s_songs s) (s_songs s')"
    using loop_round_channels[OF assms(2) s' on] by simp_all
  fix t p
  assume "t \<noteq> SERVER" "fmlookup (s_ingress s) t = Some p \<or> (t, p) \<in> set (s_returned s)"
  note does = loop_round_does[OF assms(1,2) s' on this]
  show "fmlookup (s_ingress s') t = (if t \<in> set (s_lost s) \<union> fst ` set es then None else Some p)"
    using does by blast
  show "(t, p) \<in> set (s_songs s')" if "t \<in> fst ` set es - set (s_lost s)" using does that by blast
qed

lemma event_loop_round_witness:
  "\<exists>s'. loop_round [(1, \<lambda>_. AcceptBlocked), (0, \<lambda>i. if i = 0 then Accepted 6 True else AcceptBlocked)]
       (accept_pilgrim 5 (server_start 3 idle_world open_sockets)) = Some s' \<and>
     s_returned s' = [] \<and> fmlookup (s_ingress s') 1 = None \<and> (1, \<lparr>p_stream = 5, p_virtue = None\<rparr>) \<in> set (s_songs s')"
proof -
  let ?s = "accept_pilgrim 5 (server_start 3 idle_world open_sockets)"
    and ?r = "\<lambda>i :: nat. if i = 0 then Accepted 6 True else AcceptBlocked"
  let ?es = "[(1, \<lambda>_. AcceptBlocked), (0, ?r)]"
  have start: "reachable plain_runtime no_archiver (server_start 3 idle_world open_sockets) ?s"
    by (rule reachable.step[OF reachable.init _ accepted]) (simp_all add: server_start_def fmran'_def ended_def)
  have least: "(LEAST j. ?r j = AcceptBlocked) = 1" by (rule Least_equality) (auto split: if_splits)
  have heard: "heard ?r = [Accepted 6 True]" using least by (auto simp: heard_def split: if_splits)
  have on: "\<not> ended ?s" by (simp add: accept_pilgrim_def server_start_def ended_def Let_def)
  have fresh: "distinct (event_streams ?es)" "set (event_streams ?es) \<inter> known ?s = {}"
    unfolding event_streams_def by (auto simp: heard accepted_streams_def known_def SERVER_def accept_pilgrim_def
        server_start_def fmran'_def Let_def)
  note round = event_loop_round[OF start on fresh]
  obtain s' where s': "loop_round ?es ?s = Some s'"
    using round by (cases "loop_round ?es ?s") (auto simp: SERVER_def split: if_splits)
  have "\<not> ended s'" using s'
    by (auto simp: loop_round_def drain_returned.simps drain_lost.simps handle_event_def accept_loop_heard heard
        accept_pilgrim_def server_start_def dispatch_event_def SERVER_def ended_def Let_def split: if_splits)
  with round s' have "s_returned s' = []"
    "\<And>t p. t \<noteq> SERVER \<Longrightarrow> fmlookup (s_ingress ?s) t = Some p \<Longrightarrow>
       fmlookup (s_ingress s') t = (if t \<in> set (s_lost ?s) \<union> fst ` set ?es then None else Some p) \<and>
       (t \<in> fst ` set ?es - set (s_lost ?s) \<longrightarrow> (t, p) \<in> set (s_songs s'))" by blast+
  from this(1) this(2)[of 1 "\<lparr>p_stream = 5, p_virtue = None\<rparr>"]
  have "s_returned s' = [] \<and> fmlookup (s_ingress s') 1 = None \<and> (1, \<lparr>p_stream = 5, p_virtue = None\<rparr>) \<in> set (s_songs s')"
    by (simp add: SERVER_def accept_pilgrim_def server_start_def Let_def)
  with s' show ?thesis by blast
qed

section \<open>Requests and replies\<close>

text \<open>
  C19: Any non-empty request (a \<open>LINDEX\<close> with the right number of terms) that a
  handler takes and the god thread serves puts exactly one decree for the client on the egress
  channel, keeps the subscription invariant, and does not panic while all stored expiries are
  below 2^63 seconds.
\<close>

theorem request_answered:
  assumes "terms \<noteq> []" "lindex_arity_ok terms" "god_wf (w_god w)" "hash_iteration (rt_bytes rt)"
    and "receiver_alive (w_egress w)" "expiries_in_range (g_soul (w_god w))"
  shows "\<exists>w' d. serve_request rt ar w now token terms = Running w' \<and> god_wf (w_god w') \<and>
    queue (w_egress w') = queue (w_egress w) @ [d] \<and> decree_token d = token"
  using serve_request_answers[OF assms, of ar now token] by force

lemma request_answered_witness:
  "\<exists>w' d. serve_request plain_runtime no_archiver idle_world 5000000000 3 [bstr ''SET'', [107], [118]] = Running w' \<and>
     queue (w_egress w') = [d] \<and> decree_token d = 3"
proof -
  have "lindex_arity_ok [bstr ''SET'', [107], [118]]" by (simp add: lindex_arity_ok_def evaluates)
  then show ?thesis
    using request_answered[of "[bstr ''SET'', [107], [118]]" idle_world plain_runtime no_archiver 5000000000 3]
      plain.bytes_visits idle_god_wf by auto
qed

text \<open>
  C20: A client sets a key with \<open>SET key value EX seconds\<close>, in any letter case, and
  another client asks for it: the first reads \<open>OK\<close>, the second the value while the
  second of its request is not past the expiry, and nil afterwards. The expiry is the 64-bit sum
  of the time and the argument. Neither client is in subscriber mode, where both commands would
  be refused.
\<close>

theorem set_then_get_replies:
  assumes "eq_ignore_ascii_case set_word (bstr ''SET'')" "eq_ignore_ascii_case get_word (bstr ''GET'')"
    and "eq_ignore_ascii_case ex_word (bstr ''EX'')" "bytes_to_u64 secs = Inr e"
    and "receiver_alive (w_egress w)" "writer |\<notin>| g_subscribed (w_god w)" "reader |\<notin>| g_subscribed (w_god w)"
  shows "\<exists>w1 w2. serve_request rt ar w now writer [set_word, key, v, ex_word, secs] = Running w1 \<and>
    serve_request rt ar w1 later reader [get_word, key] = Running w2 \<and>
    queue (w_egress w2) = queue (w_egress w) @
      [Deliver \<lparr>gift_token = writer, gift_response = Info Ok\<rparr>,
       Deliver \<lparr>gift_token = reader,
         gift_response = BulkString (if as_secs later \<le> as_secs now + e then Some v else None)\<rparr>]"
  using assms(5-7)
  by (auto simp: serve_request_wish[OF grant_common(3)[OF assms(1,3,4)]] serve_request_wish[OF grant_common(1)[OF assms(2)]]
      serve_set_def serve_get_def deliver_def reply_def operations is_expired_def soul_get_def)

lemma set_then_get_replies_witness:
  "\<exists>w1 w2. serve_request plain_runtime no_archiver idle_world 7000000000 1
      [bstr ''Set'', [107], [118], bstr ''ex'', [49, 48]] = Running w1 \<and>
    serve_request plain_runtime no_archiver w1 17999999999 2 [bstr ''get'', [107]] = Running w2 \<and>
    queue (w_egress w2) = [Deliver \<lparr>gift_token = 1, gift_response = Info Ok\<rparr>,
      Deliver \<lparr>gift_token = 2, gift_response = BulkString (Some [118])\<rparr>]"
proof -
  have "bytes_to_u64 [49, 48] = Inr 10"
    by (simp add: bytes_to_u64_iff all_digits_def digits_value_def is_ascii_digit_def)
  from set_then_get_replies[OF _ _ _ this, of "bstr ''Set''" "bstr ''get''" "bstr ''ex''" idle_world 1 2
      plain_runtime no_archiver 7000000000 "[107]" "[118]" 17999999999]
  show ?thesis by (simp add: evaluates idle_god_def as_secs_def)
qed

text \<open>
  C21: Every response is rendered as well-formed RESP: a client that decodes the bytes reads
  exactly the values the response stands for, with nothing left over. This covers every error
  text, the literal reply to \<open>COMMAND\<close> and arbitrary binary payloads.
\<close>

theorem responses_are_resp:
  assumes "decimal_printer itoa"
  shows "client_reads (length (render itoa r)) (render itoa r) = Some (reply_trees r)"
  using assms by (rule render_decodes)

lemma responses_are_resp_witness:
  "client_reads (length (render decimal (BulkStringArray (Some [Some [13, 10], None]))))
     (render decimal (BulkStringArray (Some [Some [13, 10], None]))) =
   Some [Array [Bulk (Some [13, 10]), Bulk None]]"
  using responses_are_resp[OF decimal.decimal_printer_axioms, of "BulkStringArray (Some [Some [13, 10], None])"]
  by (simp only: reply_trees.simps list.map)

text \<open>
  C22: Over any sequence of responses and broadcasts, a connected client whose socket has room
  receives exactly its own replies, the messages of the broadcasts it is listed in and the
  counts of those it published, complete and in order, and nothing of anybody else's.
\<close>

theorem clients_receive_their_traffic:
  assumes "list_all carries ds" "streams_apart e" "fmlookup (e_map e) t = Some s" "sk_room (e_sockets e s) = None"
  shows "sk_sent (e_sockets (egress_loop itoa e ds) s) =
    sk_sent (e_sockets e s) @ concat (map (traffic itoa t) ds)"
  using assms by (rule egress_loop_writes)

lemma clients_receive_their_traffic_witness:
  "sk_sent (e_sockets (egress_loop decimal two_clients
      [Deliver \<lparr>gift_token = 1, gift_response = Info Ok\<rparr>, decree.Broadcast 1 [97] [98] [2],
       Deliver \<lparr>gift_token = 2, gift_response = Info Pong\<rparr>]) 8) =
    render_message decimal [97] [98] @ line ''+PONG''"
  using clients_receive_their_traffic[of "[Deliver \<lparr>gift_token = 1, gift_response = Info Ok\<rparr>,
      decree.Broadcast 1 [97] [98] [2], Deliver \<lparr>gift_token = 2, gift_response = Info Pong\<rparr>]" two_clients 2 8 decimal]
    two_clients_apart
  by (simp add: two_clients_def open_sockets_def)

section \<open>Snapshots\<close>

text \<open>
  C23: When the process exits, its data is on the disk: in every exited state that an execution
  of the started program reaches, the god thread has ended, and the same command line on that
  disk starts a server with the key space it ended with, unless the god thread panicked or
  \<open>rkyv\<close> could not archive that key space. This holds whatever the interleaving and
  however many interrupts arrive, provided the file can be written (after a failed save the code
  exits as well), its name is valid UTF-8 and \<open>rkyv\<close> reads back what it archived.
\<close>

theorem exit_then_restart:
  assumes "\<And>soul contents. to_bytes ar soul = Inr contents \<Longrightarrow> from_bytes ar contents = Some soul"
    and "run_main rt ar os cwd disk sks a = Serving s0" "reachable rt ar s0 s" "s_exited s"
    and "utf8_valid (arg_dbfilename a)"
    and "disk_failure disk (working_dir cwd a @ bstr ''/'' @ arg_dbfilename a) = None"
  shows "\<not> receiver_alive (s_temple s) \<and>
    (s_god_panicked s \<or> (\<exists>err. to_bytes ar (g_soul (w_god (s_world s))) = Inl err) \<or>
     (\<exists>s1. run_main rt ar os cwd (w_disk (s_world s)) sks' a = Serving s1 \<and>
       g_soul (w_god (s_world s1)) = g_soul (w_god (s_world s))))"
proof -
  let ?dir = "working_dir cwd a" and ?db = "arg_dbfilename a"
  obtain w n where s0: "s0 = server_start n w sks" and w: "w_disk w = disk" "w_answers w = []"
    "file_path (g_config (w_god w)) = Some (?dir @ bstr ''/'' @ ?db)" and dir: "utf8_valid ?dir"
    using run_main_serving[OF assms(2)] by (force simp: god_start_def started_path)
  have path: "utf8_valid (?dir @ bstr ''/'' @ ?db)"
    using dir assms(5) by (intro utf8_valid_append) (simp_all add: bstr_def utf8_lead)
  have "saving_wf ar ?dir ?db (server_start n w sks)"
    using w assms(6) by (intro server_start_saving) simp_all
  from exit_saved[OF assms(3)[unfolded s0] this path assms(1,4)] run_main_again[OF assms(2)]
  show ?thesis by metis
qed

lemma exit_then_restart_witness:
  "s_exited shut_down \<and> \<not> receiver_alive (s_temple shut_down) \<and>
   (\<exists>s1. run_main plain_runtime empty_archiver calm_system (Some [46]) (w_disk (s_world shut_down)) open_sockets small_args =
     Serving s1 \<and> g_soul (w_god (s_world s1)) = fmempty)"
proof -
  have law: "to_bytes empty_archiver s = Inr c \<Longrightarrow> from_bytes empty_archiver c = Some s" for s c
    by (simp split: if_splits)
  have "utf8_valid (arg_dbfilename small_args)" by (rule utf8_valid_ascii) (simp add: small_args_def)
  from exit_then_restart[OF law run_main_started shut_down_reachable shut_down_exited this started_world_simps(5)]
  show ?thesis using shut_down_simps shut_down_exited by simp
qed

section \<open>Subscriptions\<close>

text \<open>
  C24: \<open>PUBLISH\<close> sends its message to exactly the clients that are subscribed to
  the event, each once.
\<close>

theorem broadcast_reaches_subscribers:
  assumes "god_wf g" "hash_iteration (rt_tokens rt)" "receiver_alive tx"
  shows "\<exists>clients. serve_broadcast rt g tx token (Publish event message) =
      (g, tx\<lparr>queue := queue tx @ [decree.Broadcast token event message clients]\<rparr>) \<and>
    distinct clients \<and> set clients = {t. event |\<in>| events_of (g_events g) t}"
  using publish_recipients[OF assms(1,2), of event] assms(3)
  by (intro exI[of _ "client_map_publish (rt_tokens rt) (g_clients g) event"]) (simp add: Let_def)

lemma broadcast_reaches_subscribers_witness:
  "\<exists>clients. serve_broadcast plain_runtime subscribed_god open_channel 4 (Publish [97] [98]) =
      (subscribed_god, open_channel\<lparr>queue := [decree.Broadcast 4 [97] [98] clients]\<rparr>) \<and> distinct clients \<and> 3 \<in> set clients"
  using broadcast_reaches_subscribers[OF subscribed_god_simps(1) plain.tokens_visits open_channel_simps(1), of 4 "[97]" "[98]"]
    subscribed_god_simps(2) by auto

text \<open>
  C25: While a client has a subscription, each of its database commands is refused and changes
  nothing in the god thread's state; its subscription commands and \<open>PUBLISH\<close> are
  still served.
\<close>

theorem subscriber_mode_refuses:
  assumes "god_wf g" "event |\<in>| events_of (g_events g) token"
  shows "serve_client rt g tx token (Database cmd) = Some (g, deliver token (Error SubscriberOnlyMode) tx) \<and>
    serve_client rt g tx token (client_command_type.Broadcast bc) = Some (serve_broadcast rt g tx token bc)"
proof -
  have "token |\<in>| g_subscribed g"
    using pubsub_consistentD(4)[OF assms(1)[unfolded god_wf_def], of token] assms(2)
    by (auto simp: events_of_def split: option.splits)
  then show ?thesis by simp
qed

lemma subscriber_mode_refuses_witness:
  "\<exists>g. god_wf g \<and> serve_client plain_runtime g open_channel 3 (Database (Get [107] 9)) =
     Some (g, deliver 3 (Error SubscriberOnlyMode) open_channel)"
proof -
  let ?g = "fst (serve_broadcast plain_runtime idle_god open_channel 3 (Subscribe [[97]]))"
  have wf: "god_wf ?g" using idle_god_wf plain.bytes_visits by (rule serve_broadcast_wf) simp
  have "[97] |\<in>| events_of (g_events ?g) 3"
    by (simp add: idle_god_def event_map_subscribe_def Let_def)
  from subscriber_mode_refuses[OF wf this] wf show ?thesis by blast
qed

text \<open>
  C26: A client without subscriptions that subscribes to events and then unsubscribes from all
  leaves the map as it was; the replies name each event once, with the number of subscriptions
  counting up from one and then down to zero.
\<close>

theorem unsubscribe_undoes_subscribe:
  assumes "fmlookup em token = None" "hash_iteration iter"
  shows "\<exists>subs unsubs. event_map_subscribe em token events = (fmupd token (fset_of_list events) em, subs) \<and>
    event_map_unsubscribe iter (fmupd token (fset_of_list events) em) [] token sc = (em, sc |-| {|token|}, Some unsubs) \<and>
    distinct (map fst subs) \<and> set (map fst subs) = set events \<and> map snd subs = [1 ..< Suc (card (set events))] \<and>
    distinct (map fst unsubs) \<and> set (map fst unsubs) = set events \<and> map snd unsubs = rev [0 ..< card (set events)]"
proof -
  let ?new = "new_events {||} events" and ?us = "iter (fset_of_list events)"
  have new: "distinct ?new" "set ?new = set events" using new_events_distinct[of "{||}" events] by auto
  then have len: "length ?new = card (set events)" using distinct_card[of ?new] by simp
  have us: "distinct ?us" "set ?us = set events" 
    using hash_iteration.iter_distinct[OF assms(2)] hash_iteration.iter_set[OF assms(2)] by (simp_all add: fset_of_list.rep_eq)
  then have lenu: "length ?us = card (set events)" using distinct_card[of ?us] by simp
  have "event_map_subscribe em token events =
      (fmupd token (fset_of_list events) em, zip ?new [1 ..< Suc (card (set events))])"
    using subscribe_loop_set[of "{||}" events 0 "[]"] subscribe_loop_result[of "{||}" events 0 "[]"] assms(1) len
    by (simp add: event_map_subscribe_def case_prod_unfold Let_def)
  moreover have "map (\<lambda>i. card (set events) - Suc i) [0 ..< card (set events)] = rev [0 ..< card (set events)]"
    by (rule nth_equalityI) (simp_all add: rev_nth)
  then have "event_map_unsubscribe iter (fmupd token (fset_of_list events) em) [] token sc =
      (em, sc |-| {|token|}, Some (zip ?us (rev [0 ..< card (set events)])))"
    using assms(1) lenu by (simp add: event_map_unsubscribe_def unsubscribe_all_loop_eq Let_def)
  ultimately show ?thesis
    using new us len lenu by (auto simp: map_fst_zip map_snd_zip simp del: upt_Suc set_map list.set_map)
qed

lemma unsubscribe_undoes_subscribe_witness:
  "\<exists>unsubs. event_map_unsubscribe sorted_list_of_fset (fmupd 3 {|[97], [98]|} fmempty) [] 3 {|3|} = (fmempty, {||}, Some unsubs) \<and>
     map snd unsubs = [1, 0]"
  using unsubscribe_undoes_subscribe[of fmempty 3 sorted_list_of_fset "[[97], [98]]" "{|3|}"]
    by (auto simp: sorted_iteration.hash_iteration_axioms numeral_2_eq_2)

section \<open>Values\<close>

text \<open>
  C27: \<open>INCRBY\<close> on a live string that is a decimal number in the 64-bit range (its
  minimum excepted) adds exactly, stores the printed sum under the same expiry and returns it;
  when the sum leaves the range it reports an error and changes nothing. The stored sum is again
  such a number unless it is the minimum.
\<close>

theorem counters_add_exactly:
  assumes "decimal_printer itoa" "live now soul key = Some (String s, e)"
    and "signed_syntax s" "signed_value s = m" "\<bar>m\<bar> < 2 ^ 63"
  shows "if is_i64 (m + n)
    then soul_incrby itoa soul key n now = (fmupd key (String (itoa (m + n)), e) soul, Inr (m + n)) \<and>
      (m + n \<noteq> - (2 ^ 63) \<longrightarrow> bytes_to_i64 (itoa (m + n)) = Inr (m + n))
    else soul_incrby itoa soul key n now = (soul, Inl (IncorrectUsage INCRBY))"
proof -
  have s: "bytes_to_i64 s = Inr m"
    using assms(3-5) by (simp add: bytes_to_i64_def bytes_to_signed_iff abs_less_iff abs_le_iff)
  have get: "get_mut_valid_value soul key now = (soul, Some (String s))" "fmlookup soul key = Some (String s, e)"
    using live_SomeD[OF assms(2)] by (auto simp: get_mut_valid_value_def is_expired_def alive_def split: option.splits)
  have "is_i64 (m + n) \<Longrightarrow> m + n \<noteq> - (2 ^ 63) \<Longrightarrow> bytes_to_i64 (itoa (m + n)) = Inr (m + n)"
    using decimal_printer.parse_itoa_signed[OF assms(1), of I64 "m + n"]
    by (auto simp: bytes_to_i64_def is_i64_def abs_le_iff)
  then show ?thesis
    by (auto simp: soul_incrby_def get s write_value_def checked_add_i64 is_i64_def)
qed

lemma counters_add_exactly_witness:
  "soul_incrby decimal (fmupd [107] (String (bstr ''41''), Some 9) fmempty) [107] 1 5 =
     (fmupd [107] (String (decimal 42), Some 9) fmempty, Inr 42)"
proof -
  have "signed_syntax (bstr ''41'')" "signed_value (bstr ''41'') = 41"
    by (simp_all add: signed_syntax_def signed_value_def all_digits_def digits_value_def is_ascii_digit_def bstr_def)
  from counters_add_exactly[OF decimal.decimal_printer_axioms _ this, of 5
      "fmupd [107] (String (bstr ''41''), Some 9) fmempty" "[107]" "Some 9" 1]
  show ?thesis by (simp add: is_i64_def)
qed

text \<open>
  C28: The four number parsers accept exactly the decimal strings of their type's values,
  without a plus sign and with any number of leading zeros, and return that value; the one value
  left out is the minimum of the two signed types.
\<close>

theorem numbers_parse_exactly:
  "(bytes_to_i32 bs = Inr i \<longleftrightarrow> signed_syntax bs \<and> signed_value bs = i \<and> \<bar>i\<bar> < 2 ^ 31) \<and>
   (bytes_to_i64 bs = Inr i \<longleftrightarrow> signed_syntax bs \<and> signed_value bs = i \<and> \<bar>i\<bar> < 2 ^ 63) \<and>
   (bytes_to_u64 bs = Inr w \<longleftrightarrow> bs \<noteq> [] \<and> all_digits bs \<and> digits_value bs = uint w) \<and>
   (bytes_to_usize bs = Inr n \<longleftrightarrow> bs \<noteq> [] \<and> all_digits bs \<and> digits_value bs = int n \<and> n < 2 ^ 64)"
  by (auto simp: bytes_to_i32_def bytes_to_i64_def bytes_to_signed_iff bytes_to_u64_iff bytes_to_usize_iff)

text \<open>
  C29: \<open>EXPIRE\<close> on a live key keeps its value and makes it last up to and including
  the given second, whatever expiry it had; on a missing or expired key it reports 0 and the key
  stays absent. \<open>TTL\<close> at a whole second then reports the seconds left, if the
  expiry is below 2^63 seconds; any other is stored as well, and \<open>TTL\<close> then panics
  at any time.
\<close>

theorem expire_bounds_life:
  "(case live now soul key of
      Some (v, e) \<Rightarrow> snd (soul_expire soul key expiry now) = 1 \<and>
        live later (fst (soul_expire soul key expiry now)) key = (if later \<le> expiry then Some (v, Some expiry) else None) \<and>
        (uint later \<le> uint expiry \<and> uint expiry < 2 ^ 63 \<longrightarrow>
          soul_ttl (fst (soul_expire soul key expiry now)) key (uint later * 1000000000) =
            Some (fst (soul_expire soul key expiry now), uint expiry - uint later)) \<and>
        (2 ^ 63 \<le> uint expiry \<longrightarrow> soul_ttl (fst (soul_expire soul key expiry now)) key time = None)
    | None \<Rightarrow> snd (soul_expire soul key expiry now) = 0 \<and>
        fmlookup (fst (soul_expire soul key expiry now)) key = None) \<and>
   (\<forall>k. k \<noteq> key \<longrightarrow> fmlookup (fst (soul_expire soul key expiry now)) k = fmlookup soul k)"
proof -
  have "(uint expiry * 1000000000 - uint later * 1000000000) div 1000000000 = uint expiry - uint later"
    by (simp only: left_diff_distrib[symmetric]) simp
  moreover have "is_i64 (uint expiry - uint later)" if "uint later \<le> uint expiry" "uint expiry < 2 ^ 63"
    using that uint_ge_0[of later] unfolding is_i64_def by linarith
  ultimately have ttl: "soul_ttl (fmupd key (v, Some expiry) soul) key (uint later * 1000000000) =
      Some (fmupd key (v, Some expiry) soul, uint expiry - uint later)"
    if "uint later \<le> uint expiry" "uint expiry < 2 ^ 63" for v
    using that by (simp add: soul_ttl_def epoch_plus_secs_def duration_since_def)
  have panic: "soul_ttl (fmupd key (v, Some expiry) soul) key time = None" if "2 ^ 63 \<le> uint expiry" for v
    using that by (simp add: soul_ttl_def epoch_plus_secs_def)
  show ?thesis
  proof (cases "live now soul key")
    case None
    then show ?thesis
      by (auto simp: soul_expire_def live_def alive_def split: option.splits if_splits)
  next
    case (Some ve)
    obtain v e where ve: "ve = (v, e)" by (cases ve)
    have "soul_expire soul key expiry now = (fmupd key (v, Some expiry) soul, 1)"
      using live_SomeD[OF Some] ve by (auto simp: soul_expire_def alive_def split: option.splits)
    with Some ve ttl[of v] panic[of v] show ?thesis by (simp add: linorder_not_less)
  qed
qed

lemma expire_bounds_life_witness:
  "live 6 (fst (soul_expire (fmupd [107] (List [], None) fmempty) [107] 5 1)) [107] = None \<and>
   live 5 (fst (soul_expire (fmupd [107] (List [], None) fmempty) [107] 5 1)) [107] = Some (List [], Some 5)"
  using expire_bounds_life[where now = 1 and soul = "fmupd [107] (List [], None) fmempty" and key = "[107]" and expiry = 5 and later = 6]
    expire_bounds_life[where now = 1 and soul = "fmupd [107] (List [], None) fmempty" and key = "[107]" and expiry = 5 and later = 5]
  by simp

text \<open>
  C30: On a live list of fewer than 2^31 elements \<open>LRANGE\<close> returns the slice
  between its two indices, both included, negative ones counted from the end and both clamped to
  the list, and never panics.
\<close>

theorem lrange_is_slice:
  assumes "live now soul key = Some (List xs, e)" "length xs < 2 ^ 31" "is_i32 i" "is_i32 j"
  shows "soul_lrange soul key i j now = Some (soul, Inr (Some (map Some (slice xs i j))))"
proof -
  have "get_valid_value soul key now = (soul, Some (List xs))"
    using live_SomeD[OF assms(1)] by (auto simp: get_valid_value_def is_expired_def alive_def split: option.splits)
  then show ?thesis by (simp add: soul_lrange_def lrange_list_slice[OF assms(3,4,2)])
qed

lemma lrange_is_slice_witness:
  "soul_lrange (fmupd [107] (List [[1], [2], [3]], None) fmempty) [107] (- 2) 100 7 =
     Some (fmupd [107] (List [[1], [2], [3]], None) fmempty, Inr (Some [Some [2], Some [3]]))"
  using lrange_is_slice[of 7 "fmupd [107] (List [[1], [2], [3]], None) fmempty" "[107]" "[[1], [2], [3]]" None "- 2" 100]
  by (simp add: is_i32_def slice_def)

text \<open>
  C31: On a live list of fewer than 2^31 elements \<open>LREM\<close> removes the first
  \<open>count\<close> elements equal to the argument, the last ones for a negative count, all
  of them for zero, keeps the order of the rest, and returns how many it removed.
\<close>

theorem lrem_removes_matches:
  assumes "live now soul key = Some (List xs, e)" "length xs < 2 ^ 31"
  shows "soul_lrem soul key m x now =
    Some (fmupd key (List (remove_matching xs m x), e) soul, Inr (length xs - length (remove_matching xs m x)))"
proof -
  have a: "fmlookup soul key = Some (List xs, e)" "alive now (List xs, e)" using live_SomeD[OF assms(1)] by auto
  then have "get_mut_valid_value soul key now = (soul, Some (List xs))"
    by (auto simp: operations is_expired_def alive_def split: option.splits)
  then show ?thesis by (simp add: soul_lrem_def lrem_list_eq[OF assms(2)] write_value_def a(1))
qed

lemma lrem_removes_matches_witness:
  "soul_lrem (fmupd [107] (List [[1], [2], [1]], None) fmempty) [107] (- 1) [1] 7 =
     Some (fmupd [107] (List [[1], [2]], None) fmempty, Inr 1)"
  using lrem_removes_matches[of 7 "fmupd [107] (List [[1], [2], [1]], None) fmempty" "[107]" "[[1], [2], [1]]" None "- 1" "[1]"]
  by (simp add: remove_matching_def)

text \<open>
  C32: Pushing elements to the head of a live non-empty list and popping as many restores the
  key, value and expiry, and returns the elements in the reverse of the order given.
\<close>

theorem push_then_pop:
  assumes "live now soul key = Some (List xs, e)" "xs \<noteq> []"
  shows "snd (soul_lpush soul key es now) = Inr (length es + length xs) \<and>
    soul_lpop_m (fst (soul_lpush soul key es now)) key (length es) now = (soul, Inr (Some (map Some (rev es))))"
proof -
  have a: "fmlookup soul key = Some (List xs, e)" "alive now (List xs, e)" using live_SomeD[OF assms(1)] by auto
  then have get: "get_mut_valid_value soul key now = (soul, Some (List xs))"
    by (auto simp: operations is_expired_def alive_def split: option.splits)
  have "soul_lpush soul key es now = (fmupd key (List (rev es @ xs), e) soul, Inr (length es + length xs))"
    by (simp add: soul_lpush_def get push_front_loop_eq write_value_def a(1) Let_def)
  moreover have "\<not> entry_expired e now" using a(2) by (cases e) (simp_all add: entry_expired_def)
  ultimately show ?thesis
    using assms(2) a(1) by (simp add: soul_lpop_m_def pop_front_loop_eq)
qed

lemma push_then_pop_witness:
  "soul_lpop_m (fst (soul_lpush (fmupd [107] (List [[9]], Some 8) fmempty) [107] [[1], [2]] 7)) [107] (length [[1], [2 :: u8]]) 7 =
     (fmupd [107] (List [[9]], Some 8) fmempty, Inr (Some [Some [2], Some [1]]))"
  using push_then_pop[of 7 "fmupd [107] (List [[9]], Some 8) fmempty" "[107]" "[[9]]" "Some 8" "[[1], [2]]"]
  by simp

text \<open>
  C33: On a live set \<open>SADD\<close> adds its arguments and counts the new ones,
  \<open>SREM\<close> removes its arguments and counts those that were members;
  \<open>SMEMBERS\<close> afterwards lists every member once and \<open>SISMEMBER\<close> agrees
  with it. A set left without members is no longer stored.
\<close>

theorem sets_are_sets:
  assumes "live now soul key = Some (Value.Set S, e)" "hash_iteration iter"
  shows "snd (soul_sadd soul key vs now) = Inr (card (set vs - fset S)) \<and>
    (\<exists>ms. snd (soul_smembers iter (fst (soul_sadd soul key vs now)) key now) = Inr (Some (map Some ms)) \<and>
       distinct ms \<and> set ms = fset S \<union> set vs) \<and>
    snd (soul_srem soul key vs now) = Inr (card (set vs \<inter> fset S)) \<and>
    (if fset S \<subseteq> set vs then fmlookup (fst (soul_srem soul key vs now)) key = None
     else \<forall>v. snd (soul_sismember (fst (soul_srem soul key vs now)) key v now) =
       Inr (if v \<in> fset S - set vs then 1 else 0))"
proof -
  have a: "fmlookup soul key = Some (Value.Set S, e)" "\<not> is_expired soul key now"
    using live_SomeD[OF assms(1)] by (auto simp: is_expired_iff)
  then have "\<not> is_expired (fmupd key (Value.Set T, e) soul) key now" for T by (auto simp: is_expired_def)
  with a show ?thesis
    using hash_iteration.iter_set[OF assms(2)] hash_iteration.iter_distinct[OF assms(2)]
    by (auto simp: operations sadd_loop_correct srem_loop_correct fset_of_list.rep_eq less_eq_fset.rep_eq)
qed

lemma sets_are_sets_witness:
  "snd (soul_sadd (fmupd [107] (Value.Set {|[1]|}, None) fmempty) [107] [[1], [2], [2]] 7) = Inr 1 \<and>
   fmlookup (fst (soul_srem (fmupd [107] (Value.Set {|[1]|}, None) fmempty) [107] [[1]] 7)) [107] = None"
  using sets_are_sets[of 7 "fmupd [107] (Value.Set {|[1]|}, None) fmempty" "[107]" "{|[1]|}" None sorted_list_of_fset "[[1], [2], [2]]"]
    sets_are_sets[of 7 "fmupd [107] (Value.Set {|[1]|}, None) fmempty" "[107]" "{|[1]|}" None sorted_list_of_fset "[[1]]"]
    by (simp add: sorted_iteration.hash_iteration_axioms)

section \<open>Where the code departs from what its clients may expect\<close>

text \<open>
  C34: A client that pipelines \<open>GET\<close> and \<open>PING\<close> can read the answers
  in the wrong order: the handler of \<open>PING\<close> writes to the egress channel itself, so
  when the I/O thread handles both requests before the god thread serves the first, the reply to
  the second goes out first.
\<close>

theorem ping_overtakes:
  assumes "receiver_alive (w_egress w)" "token |\<notin>| g_subscribed (w_god w)"
    and "live (as_secs (clock 0)) (g_soul (w_god w)) key = Some (String v, e)"
  shows "\<exists>a clock' w'. grant_all token [[bstr ''GET'', key], [bstr ''PING'']]
        (\<lparr>a_temple = \<lparr>receiver_alive = True, queue = []\<rparr>, a_egress = w_egress w\<rparr>, clock) = Some (a, clock') \<and>
    god_loop rt ar (w\<lparr>w_egress := a_egress a\<rparr>) (queue (a_temple a)) = Running w' \<and>
    queue (w_egress w') = queue (w_egress w) @
      [Deliver \<lparr>gift_token = token, gift_response = Info Pong\<rparr>,
       Deliver \<lparr>gift_token = token, gift_response = BulkString (Some v)\<rparr>]"
  using assms(1,2) live_SomeD[OF assms(3)]
  by (simp add: grant_common temple_send_def pray_def respond_def god_step_def serve_get_def reply_def soul_get_def
      get_valid_value_def deliver_def is_expired_iff)

lemma ping_overtakes_witness:
  "\<exists>a clock' w'. grant_all 1 [[bstr ''GET'', [107]], [bstr ''PING'']]
        (\<lparr>a_temple = open_channel, a_egress = open_channel\<rparr>, \<lambda>_. 0) = Some (a, clock') \<and>
    god_loop plain_runtime no_archiver (idle_world\<lparr>w_god := idle_god\<lparr>g_soul := fmupd [107] (String [118], None) fmempty\<rparr>,
      w_egress := a_egress a\<rparr>) (queue (a_temple a)) = Running w' \<and>
    queue (w_egress w') = [Deliver \<lparr>gift_token = 1, gift_response = Info Pong\<rparr>,
       Deliver \<lparr>gift_token = 1, gift_response = BulkString (Some [118])\<rparr>]"
  using ping_overtakes[of "idle_world\<lparr>w_god := idle_god\<lparr>g_soul := fmupd [107] (String [118], None) fmempty\<rparr>\<rparr>" 1
      "\<lambda>_. 0" "[107]" "[118]" None plain_runtime no_archiver]
  by (simp add: open_channel_def idle_god_def idle_world_def)

text \<open>
  C35: A \<open>LINDEX\<close> with the wrong number of terms is answered twice: its handler
  sends the arity error and goes on, so the client reads one reply too many and takes it for
  that of its next request.
\<close>

theorem lindex_wrong_arity_answers_twice:
  assumes "eq_ignore_ascii_case word (bstr ''LINDEX'')" "length args \<noteq> 2"
    and "god_wf (w_god w)" "hash_iteration (rt_bytes rt)" "receiver_alive (w_egress w)" "expiries_in_range (g_soul (w_god w))"
  shows "\<exists>w' d. serve_request rt ar w now token (word # args) = Running w' \<and>
    queue (w_egress w') = queue (w_egress w) @
      [Deliver \<lparr>gift_token = token, gift_response = Error (IncorrectNumberOfArguments LINDEX)\<rparr>, d] \<and>
    decree_token d = token"
proof -
  let ?a = "\<lparr>a_temple = \<lparr>receiver_alive = True, queue = []\<rparr>, a_egress = w_egress w\<rparr>"
  let ?b = "refuse token (IncorrectNumberOfArguments LINDEX) ?a"
  have g: "grant now (word # args) token ?a = Some (grant_lindex now (word # args) token ?a)"
    by (simp add: grant_def dispatch_case[OF assms(1)] dispatch_lindex)
  have "answered now token ?b (grant_lindex now (word # args) token ?a)"
    using assms(2,5) by (intro lindex_wrong_arity) simp_all
  from answered_served[OF this _ _ assms(3,4) _ assms(6), of ar] assms(5) show ?thesis
    by (auto simp: serve_request_def g operations deliver_def)
qed

lemma lindex_wrong_arity_answers_twice_witness:
  "\<exists>w' d. serve_request plain_runtime no_archiver idle_world 0 1 [bstr ''lindex'', [107]] = Running w' \<and>
    queue (w_egress w') = [Deliver \<lparr>gift_token = 1, gift_response = Error (IncorrectNumberOfArguments LINDEX)\<rparr>, d] \<and>
    decree_token d = 1"
proof -
  have "eq_ignore_ascii_case (bstr ''lindex'') (bstr ''LINDEX'')" by (simp add: evaluates)
  from lindex_wrong_arity_answers_twice[OF this _ idle_world_simps(3) plain.bytes_visits, of "[[107]]" no_archiver 0 1]
  show ?thesis by simp
qed

text \<open>
  C36: Two requests of one client end the god thread: after a \<open>SET\<close> whose expiry
  lands at or beyond 2^63 seconds, a \<open>TTL\<close> on the key panics when it converts the
  expiry to a time.
\<close>

theorem huge_expiry_stops_the_god_thread:
  assumes "bytes_to_u64 secs = Inr e" "2 ^ 63 \<le> uint (as_secs now + e)"
    and "receiver_alive (w_egress w)" "token |\<notin>| g_subscribed (w_god w)"
  shows "\<exists>w1. serve_request rt ar w now token [bstr ''SET'', key, v, bstr ''EX'', secs] = Running w1 \<and>
    serve_request rt ar w1 later token [bstr ''TTL'', key] = Panicked"
  using assms(2-4)
  by (simp add: serve_request_wish[OF grant_common(3)[OF _ _ assms(1)]] serve_request_wish[OF grant_common(2)]
      serve_set_def serve_ttl_def soul_set_def soul_ttl_def epoch_plus_secs_def)

lemma huge_expiry_stops_the_god_thread_witness:
  "\<exists>w1. serve_request plain_runtime no_archiver idle_world 0 1
      [bstr ''SET'', [107], [118], bstr ''EX'', bstr ''9223372036854775808''] = Running w1 \<and>
    serve_request plain_runtime no_archiver w1 1 1 [bstr ''TTL'', [107]] = Panicked"
proof -
  have "bytes_to_u64 (bstr ''9223372036854775808'') = Inr 9223372036854775808"
    by (simp add: bytes_to_u64_iff all_digits_def digits_value_def is_ascii_digit_def bstr_def)
  from huge_expiry_stops_the_god_thread[OF this, of 0 idle_world 1 plain_runtime no_archiver "[107]" "[118]" 1]
  show ?thesis by (simp add: as_secs_def idle_god_def)
qed

text \<open>
  C37: The two clocks disagree during the last second of a key's life: a \<open>GET\<close> in
  that second still returns the value, while a \<open>TTL\<close> at the same moment reports -2
  and deletes the key.
\<close>

theorem ttl_drops_a_readable_key:
  assumes "fmlookup soul key = Some (String v, Some e)" "uint e < 2 ^ 63"
    and "uint e * 1000000000 < now" "now < (uint e + 1) * 1000000000"
  shows "soul_get soul key (as_secs now) = (soul, Inr (Some v)) \<and> soul_ttl soul key now = Some (fmdrop key soul, - 2)"
proof -
  have "0 \<le> now" using assms(3) by (meson less_imp_le order.trans uint_ge_0 mult_nonneg_nonneg zero_le_numeral)
  moreover have "now div 1000000000 = uint e"
    using assms(3,4) by (intro int_div_pos_eq[of _ _ _ "now - 1000000000 * uint e"]) (simp_all add: algebra_simps)
  ultimately have "as_secs now = e" by (simp add: as_secs_def)
  with assms show ?thesis
    by (simp add: soul_get_def get_valid_value_def is_expired_def soul_ttl_def epoch_plus_secs_def)
qed

lemma ttl_drops_a_readable_key_witness:
  "soul_get (fmupd [107] (String [118], Some 5) fmempty) [107] (as_secs 5500000000) =
     (fmupd [107] (String [118], Some 5) fmempty, Inr (Some [118])) \<and>
   soul_ttl (fmupd [107] (String [118], Some 5) fmempty) [107] 5500000000 = Some (fmempty, - 2)"
  using ttl_drops_a_readable_key[of "fmupd [107] (String [118], Some 5) fmempty" "[107]" "[118]" 5 5500000000] by simp

text \<open>
  C38: The four pops test the type of the stored value before its expiry: on an expired key of
  another type they report the wrong-type error and keep the entry. Every other list command
  does with it what it does with the key missing, in its reply and in the key space it leaves:
  \<open>LLEN\<close>, \<open>LRANGE\<close>, \<open>LINDEX\<close>, \<open>LSET\<close>,
  \<open>LREM\<close>, \<open>LPUSH\<close> and \<open>RPUSH\<close>.
\<close>

theorem expired_key_blocks_pops:
  assumes "fmlookup soul key = Some (v, Some e)" "e < now" "as_list v = None"
  shows "live now soul key = None \<and>
    soul_lpop soul key now = (soul, Inl (IncorrectUsage LPOP)) \<and>
    soul_lpop_m soul key n now = (soul, Inl (IncorrectUsage LPOP)) \<and>
    soul_rpop soul key now = (soul, Inl (IncorrectUsage RPOP)) \<and>
    soul_rpop_m soul key n now = (soul, Inl (IncorrectUsage RPOP)) \<and>
    soul_llen soul key now = soul_llen (fmdrop key soul) key now \<and> snd (soul_llen soul key now) = Inr 0 \<and>
    soul_lrange soul key i j now = soul_lrange (fmdrop key soul) key i j now \<and>
    soul_lindex soul key i now = soul_lindex (fmdrop key soul) key i now \<and>
    soul_lset soul key i x now = soul_lset (fmdrop key soul) key i x now \<and>
    soul_lrem soul key m x now = soul_lrem (fmdrop key soul) key m x now \<and>
    soul_lpush soul key xs now = soul_lpush (fmdrop key soul) key xs now \<and>
    soul_rpush soul key xs now = soul_rpush (fmdrop key soul) key xs now"
proof -
  let ?gone = "fmdrop key soul"
  have missing: "get_valid_value soul key now = (?gone, None)" "get_mut_valid_value soul key now = (?gone, None)"
    "get_valid_value ?gone key now = (?gone, None)" "get_mut_valid_value ?gone key now = (?gone, None)"
    using assms(1,2) by (simp_all add: get_valid_value_def get_mut_valid_value_def is_expired_def)
  have "soul_lpop soul key now = (soul, Inl (IncorrectUsage LPOP)) \<and>
      soul_lpop_m soul key n now = (soul, Inl (IncorrectUsage LPOP)) \<and>
      soul_rpop soul key now = (soul, Inl (IncorrectUsage RPOP)) \<and>
      soul_rpop_m soul key n now = (soul, Inl (IncorrectUsage RPOP))"
    using assms by (cases v) (simp_all add: soul_lpop_def soul_lpop_m_def soul_rpop_def soul_rpop_m_def)
  moreover have "live now soul key = None" using assms(1,2) by (simp add: live_def)
  ultimately show ?thesis
    by (simp add: missing soul_llen_def soul_lrange_def soul_lindex_def soul_lset_def soul_lrem_def soul_lpush_def soul_rpush_def)
qed

lemma expired_key_blocks_pops_witness:
  "soul_lpop (fmupd [107] (String [118], Some 5) fmempty) [107] 6 =
     (fmupd [107] (String [118], Some 5) fmempty, Inl (IncorrectUsage LPOP)) \<and>
   soul_lpush (fmupd [107] (String [118], Some 5) fmempty) [107] [[1]] 6 = soul_lpush fmempty [107] [[1]] 6"
  using expired_key_blocks_pops[where soul = "fmupd [107] (String [118], Some 5) fmempty" and key = "[107]"
      and v = "String [118]" and e = 5 and now = 6 and xs = "[[1]]"] by simp



text \<open>
  C40: The reply to \<open>COMMAND\<close> is one well-formed array of 37 entries, but in the
  entries of \<open>EXISTS\<close> and \<open>DEL\<close> the last-key field is written without
  its colon, so a client decodes an error there instead of the number -1.
\<close>

theorem command_reply_holds_errors:
  "\<exists>entries. client_reads (length command_reply) command_reply = Some [Array entries] \<and> length entries = 37 \<and>
    {Array [Bulk (Some (bstr ''exists'')), Integer (- 2), Array [Simple (bstr ''readonly''), Simple (bstr ''fast'')],
        Integer 1, Failure (bstr ''1''), Integer 1],
     Array [Bulk (Some (bstr ''del'')), Integer (- 2), Array [Simple (bstr ''write''), Simple (bstr ''fast'')],
        Integer 1, Failure (bstr ''1''), Integer 1]} \<subseteq> set entries"
proof -
  have "client_reads (length command_reply) command_reply = Some [command_tree]"
    using render_decodes[OF decimal.decimal_printer_axioms, of "Info Command"] by simp
  moreover obtain entries where e: "command_tree = Array entries" "entries = map entry_tree command_table"
    by (simp add: command_tree_def)
  moreover have "length command_table = 37" by (simp add: command_table_def)
  ultimately show ?thesis
    by (intro exI[of _ entries]) (auto simp: command_table_def)
qed

end
